(* ===== verification/Prelude.thy ===== *)
theory Prelude
  imports Main "HOL-Library.Word"
begin

text \<open>
  Shared material of the development: the machine types of the Rust sources, the
  outcome types for panics and errors, little-endian byte codecs (Rust's
  \<open>to_le_bytes\<close>, \<open>from_le_bytes\<close>), the reads and writes on byte buffers the sources
  use, and the generic list and word lemmas the component theories share.
\<close>

unbundle bit_operations_syntax

named_theorems codec_simps
  \<open>encode and decode equations of the byte codecs\<close>

section \<open>Machine types and outcomes\<close>

type_synonym u8 = "8 word"
type_synonym u16 = "16 word"
type_synonym u32 = "32 word"
type_synonym u64 = "64 word"
type_synonym bytes = "u8 list"

text \<open>An \<open>Instant\<close>, in milliseconds since an arbitrary origin.\<close>

type_synonym instant = nat

text \<open>
  The two ways a Rust function of the sources fails: it unwinds (\<open>panic!\<close>, \<open>expect\<close>,
  \<open>unwrap\<close>, \<open>assert_eq!\<close>, an index or slice out of range), or it returns an
  \<open>anyhow::Error\<close>. The string is the message of the source. \<open>OutOfFuel\<close> is no outcome of the
  program: a loop whose end depends on third-party code runs on fuel, and the
  properties of these loops show that it suffices.
\<close>

datatype fault = Panic string | Error string | OutOfFuel

type_synonym 'a outcome = "fault + 'a"

abbreviation panics :: "'a outcome \<Rightarrow> bool" where
  "panics r \<equiv> (\<exists>msg. r = Inl (Panic msg))"

text \<open>A \<open>?\<close> in the source is a case that passes the failure on; how it can succeed, or fail.\<close>

lemma case_Inr_iff: "(case r of Inl e \<Rightarrow> Inl e | Inr x \<Rightarrow> f x) = Inr y \<longleftrightarrow> (\<exists>x. r = Inr x \<and> f x = Inr y)"
  by (cases r) auto

lemma case_Inl_iff:
  "(case r of Inl e \<Rightarrow> Inl e | Inr x \<Rightarrow> f x) = Inl d \<longleftrightarrow> r = Inl d \<or> (\<exists>x. r = Inr x \<and> f x = Inl d)"
  by (cases r) auto

lemmas case_outcome_iff = case_Inr_iff case_Inl_iff

section \<open>Little-endian byte codecs\<close>

definition u16_to_le_bytes :: "u16 \<Rightarrow> bytes" where
  "u16_to_le_bytes w = [ucast w, ucast (drop_bit 8 w)]"

definition u32_to_le_bytes :: "u32 \<Rightarrow> bytes" where
  "u32_to_le_bytes w =
     [ucast w, ucast (drop_bit 8 w), ucast (drop_bit 16 w), ucast (drop_bit 24 w)]"

definition u16_of_le :: "u8 \<Rightarrow> u8 \<Rightarrow> u16" where
  "u16_of_le b0 b1 = ucast b0 OR push_bit 8 (ucast b1)"

definition u32_of_le :: "u8 \<Rightarrow> u8 \<Rightarrow> u8 \<Rightarrow> u8 \<Rightarrow> u32" where
  "u32_of_le b0 b1 b2 b3 =
     ucast b0 OR push_bit 8 (ucast b1) OR push_bit 16 (ucast b2) OR push_bit 24 (ucast b3)"

lemma length_u16_to_le_bytes [simp]: "length (u16_to_le_bytes w) = 2"
  by (simp add: u16_to_le_bytes_def)

lemma length_u32_to_le_bytes [simp]: "length (u32_to_le_bytes w) = 4"
  by (simp add: u32_to_le_bytes_def)

lemma u8_bit_beyond [simp]: "8 \<le> n \<Longrightarrow> bit (b :: u8) n = False"
  using bit_imp_le_length [of b n] by auto

lemma u8_bitD: "bit (b :: u8) n \<Longrightarrow> n < 8"
  using bit_imp_le_length [of b n] by simp

lemma u32_bitD: "bit (w :: u32) n \<Longrightarrow> n < 32"
  using bit_imp_le_length [of w n] by simp

lemma u16_of_le_to_le_bytes [simp]: "u16_of_le (ucast w) (ucast (drop_bit 8 w)) = w"
  by (rule bit_word_eqI) (auto simp: u16_of_le_def bit_simps)

lemma u32_of_le_to_le_bytes [simp]:
  "u32_of_le (ucast w) (ucast (drop_bit 8 w)) (ucast (drop_bit 16 w)) (ucast (drop_bit 24 w)) = w"
proof (rule bit_word_eqI)
  fix n :: nat
  assume "n < LENGTH(32)"
  then consider "n < 8" | "8 \<le> n \<and> n < 16" | "16 \<le> n \<and> n < 24" | "24 \<le> n \<and> n < 32"
    by fastforce
  then show "bit (u32_of_le (ucast w) (ucast (drop_bit 8 w)) (ucast (drop_bit 16 w))
       (ucast (drop_bit 24 w))) n \<longleftrightarrow> bit w n"
    by cases (auto simp: u32_of_le_def bit_simps)
qed

lemma u32_to_le_bytes_of_le [simp]: "u32_to_le_bytes (u32_of_le b0 b1 b2 b3) = [b0, b1, b2, b3]"
  by (auto intro!: bit_word_eqI simp: u32_of_le_def u32_to_le_bytes_def bit_simps)

lemma u16_to_le_bytes_inject [simp]: "u16_to_le_bytes v = u16_to_le_bytes w \<longleftrightarrow> v = w"
proof
  assume "u16_to_le_bytes v = u16_to_le_bytes w"
  then have "u16_of_le (ucast v) (ucast (drop_bit 8 v)) = u16_of_le (ucast w) (ucast (drop_bit 8 w))"
    by (simp add: u16_to_le_bytes_def del: u16_of_le_to_le_bytes)
  then show "v = w" by simp
qed simp

lemma u32_to_le_bytes_inject [simp]: "u32_to_le_bytes v = u32_to_le_bytes w \<longleftrightarrow> v = w"
proof
  assume "u32_to_le_bytes v = u32_to_le_bytes w"
  then have "u32_of_le (ucast v) (ucast (drop_bit 8 v)) (ucast (drop_bit 16 v)) (ucast (drop_bit 24 v))
      = u32_of_le (ucast w) (ucast (drop_bit 8 w)) (ucast (drop_bit 16 w)) (ucast (drop_bit 24 w))"
    by (simp add: u32_to_le_bytes_def del: u32_of_le_to_le_bytes)
  then show "v = w" by simp
qed simp

section \<open>Reading from a byte buffer\<close>

text \<open>
  A \<open>Bytes\<close> buffer is represented by its remaining contents. The checked reads consume
  from the front and report how many bytes were asked for and how many were left.
\<close>

datatype TryGetError = TryGetError (requested: nat) (available: nat)

definition try_get_u8 :: "bytes \<Rightarrow> TryGetError + (u8 \<times> bytes)" where
  "try_get_u8 data = (case data of [] \<Rightarrow> Inl (TryGetError 1 0) | b # rest \<Rightarrow> Inr (b, rest))"

definition try_get_u32_le :: "bytes \<Rightarrow> TryGetError + (u32 \<times> bytes)" where
  "try_get_u32_le data =
     (case data of
        b0 # b1 # b2 # b3 # rest \<Rightarrow> Inr (u32_of_le b0 b1 b2 b3, rest)
      | _ \<Rightarrow> Inl (TryGetError 4 (length data)))"

lemma try_get_u8_Cons [simp, codec_simps]: "try_get_u8 (b # rest) = Inr (b, rest)"
  by (simp add: try_get_u8_def)

lemma try_get_u8_Nil [simp]: "try_get_u8 [] = Inl (TryGetError 1 0)"
  by (simp add: try_get_u8_def)

lemma try_get_u8_Inr_iff: "try_get_u8 data = Inr (b, rest) \<longleftrightarrow> data = b # rest"
  by (auto simp: try_get_u8_def split: list.splits)

lemma try_get_u32_le_append [simp, codec_simps]:
  "try_get_u32_le (u32_to_le_bytes w @ rest) = Inr (w, rest)"
  by (simp add: try_get_u32_le_def u32_to_le_bytes_def)

lemma try_get_u32_le_exact [simp, codec_simps]: "try_get_u32_le (u32_to_le_bytes w) = Inr (w, [])"
  using try_get_u32_le_append [of w "[]"] by simp

lemma try_get_u32_le_short:
  "length data < 4 \<Longrightarrow> try_get_u32_le data = Inl (TryGetError 4 (length data))"
  by (auto simp: try_get_u32_le_def split: list.splits)

lemma try_get_u32_le_Inr_iff:
  "try_get_u32_le data = Inr (w, rest) \<longleftrightarrow> data = u32_to_le_bytes w @ rest"
proof
  assume "try_get_u32_le data = Inr (w, rest)"
  then show "data = u32_to_le_bytes w @ rest"
    by (auto simp: try_get_u32_le_def split: list.splits)
qed simp

end
