(* ===== verification/Rolling_Chunker.thy ===== *)
theory Rolling_Chunker
  imports Prelude
begin

text \<open>
  The content-defined chunker of \<open>src/src/chunker.rs\<close>: the polynomial rolling hash
  \<open>RabinKarpHash\<close> with its circular window, and the iterator \<open>Chunker\<close> that cuts a
  byte slice where the rolling hash, started after byte 512, has eleven zero bits. The lemmas show
  that the incremental hash is the polynomial of the window alone, that the window index
  read without a bounds check is always in range, where exactly a cut is made, that the
  chunks concatenate to the input within their size limits, and that cuts are local:
  data appended at the end leaves every chunk but the last as it is.
\<close>

unbundle bit_operations_syntax

section \<open>The rolling hash\<close>

definition RK_OFFSET :: u32 where
  "RK_OFFSET = 31"

definition RK_MULT :: u32 where
  "RK_MULT = 0x08104225"

definition RK_WINDOW_SIZE :: nat where
  "RK_WINDOW_SIZE = 32"

definition RK_WINDOW_MULT :: u32 where
  "RK_WINDOW_MULT = RK_MULT ^ (RK_WINDOW_SIZE + 1)"

record RabinKarpHash =
  rk_hash :: u32
  rk_window :: "u32 list"
  rk_window_pos :: nat

definition RabinKarpHash_new :: RabinKarpHash where
  "RabinKarpHash_new =
     \<lparr>rk_hash = 0, rk_window = replicate RK_WINDOW_SIZE 0, rk_window_pos = 0\<rparr>"

definition RabinKarpHash_update :: "RabinKarpHash \<Rightarrow> u8 \<Rightarrow> u32 \<times> RabinKarpHash" where
  "RabinKarpHash_update self added_byte =
     (let added = ucast added_byte + RK_OFFSET;
          removed = rk_window self ! rk_window_pos self * RK_WINDOW_MULT;
          hash = (rk_hash self + added) * RK_MULT - removed;
          self' = self\<lparr>rk_hash := hash,
                       rk_window := (rk_window self)[rk_window_pos self := added],
                       rk_window_pos := (rk_window_pos self + 1) mod RK_WINDOW_SIZE\<rparr>
      in (hash, self'))"

definition RabinKarpHash_reset :: "RabinKarpHash \<Rightarrow> RabinKarpHash" where
  "RabinKarpHash_reset self =
     self\<lparr>rk_hash := 0, rk_window := replicate (length (rk_window self)) 0, rk_window_pos := 0\<rparr>"

section \<open>The chunker\<close>

definition MIN_CHUNK_SIZE :: nat where
  "MIN_CHUNK_SIZE = 2 ^ 9"

definition MAX_CHUNK_SIZE :: nat where
  "MAX_CHUNK_SIZE = 2 ^ 12"

definition CHUNK_MASK :: u32 where
  "CHUNK_MASK = 2 ^ 11 - 1"

record Chunker =
  ck_rolling_hash :: RabinKarpHash
  ck_data :: bytes

definition Chunker_new :: "bytes \<Rightarrow> Chunker" where
  "Chunker_new data = \<lparr>ck_rolling_hash = RabinKarpHash_new, ck_data = data\<rparr>"

text \<open>The \<open>for\<close> loop of \<open>next\<close>: the chunk size grows until the loop breaks or the data ends.\<close>

fun Chunker_scan :: "RabinKarpHash \<Rightarrow> bytes \<Rightarrow> nat \<Rightarrow> nat \<times> RabinKarpHash" where
  "Chunker_scan rh [] chunk_size = (chunk_size, rh)"
| "Chunker_scan rh (byte # data) chunk_size =
     (let (hash, rh') = RabinKarpHash_update rh byte;
          chunk_size' = chunk_size + 1
      in if hash AND CHUNK_MASK = 0 \<or> MAX_CHUNK_SIZE \<le> chunk_size'
         then (chunk_size', rh')
         else Chunker_scan rh' data chunk_size')"

definition Chunker_next :: "Chunker \<Rightarrow> bytes option \<times> Chunker" where
  "Chunker_next self =
     (if ck_data self = [] then (None, self)
      else
        let start = min MIN_CHUNK_SIZE (length (ck_data self));
            (chunk_size, rh) = Chunker_scan (ck_rolling_hash self) (drop start (ck_data self)) start;
            chunk = take chunk_size (ck_data self)
        in (Some chunk,
            \<lparr>ck_rolling_hash = RabinKarpHash_reset rh, ck_data = drop chunk_size (ck_data self)\<rparr>))"

lemma Chunker_scan_bounds:
  "Chunker_scan rh data n = (m, rh') \<Longrightarrow>
     n \<le> m \<and> m \<le> n + length data \<and> (data \<noteq> [] \<longrightarrow> n < m) \<and> (n < MAX_CHUNK_SIZE \<longrightarrow> m \<le> MAX_CHUNK_SIZE)"
proof (induction rh data n arbitrary: m rh' rule: Chunker_scan.induct)
  case (2 rh byte data n)
  then show ?case
    by (fastforce simp: Let_def split: prod.splits if_splits)
qed simp

lemma Chunker_next_shrinks:
  "Chunker_next c = (Some chunk, c') \<Longrightarrow> length (ck_data c') < length (ck_data c)"
  using Chunker_scan_bounds
  by (fastforce simp: Chunker_next_def Let_def MIN_CHUNK_SIZE_def split: if_splits prod.splits)

text \<open>The chunks a \<open>for chunk in chunker\<close> loop sees.\<close>

function Chunker_collect :: "Chunker \<Rightarrow> bytes list" where
  "Chunker_collect c =
     (case Chunker_next c of
        (None, _) \<Rightarrow> []
      | (Some chunk, c') \<Rightarrow> chunk # Chunker_collect c')"
  by pat_completeness auto
termination
  by (relation "measure (\<lambda>c. length (ck_data c))") (auto dest: Chunker_next_shrinks [OF sym])

declare Chunker_collect.simps [simp del]

section \<open>The rolling hash is the polynomial of its window\<close>

text \<open>
  The reference: the polynomial hash of a list of window entries, computed from scratch,
  and the state after a list of bytes. The history of a hash is the list of entries it was
  updated with.
\<close>

definition rk_entry :: "u8 \<Rightarrow> u32" where
  "rk_entry b = ucast b + RK_OFFSET"

fun window_poly :: "u32 \<Rightarrow> u32 list \<Rightarrow> u32" where
  "window_poly h [] = h"
| "window_poly h (a # as) = window_poly ((h + a) * RK_MULT) as"

definition last_n :: "nat \<Rightarrow> 'a list \<Rightarrow> 'a list" where
  "last_n n xs = drop (length xs - n) xs"

fun rk_feed :: "RabinKarpHash \<Rightarrow> bytes \<Rightarrow> RabinKarpHash" where
  "rk_feed h [] = h"
| "rk_feed h (b # bs) = rk_feed (snd (RabinKarpHash_update h b)) bs"

definition rk_wf :: "RabinKarpHash \<Rightarrow> bool" where
  "rk_wf h \<longleftrightarrow> length (rk_window h) = RK_WINDOW_SIZE \<and> rk_window_pos h < RK_WINDOW_SIZE"

definition rk_tracks :: "RabinKarpHash \<Rightarrow> u32 list \<Rightarrow> bool" where
  "rk_tracks h hist \<longleftrightarrow>
     rk_wf h
     \<and> rotate (rk_window_pos h) (rk_window h)
         = last_n RK_WINDOW_SIZE (replicate RK_WINDOW_SIZE 0 @ hist)
     \<and> rk_hash h = window_poly 0 (last_n RK_WINDOW_SIZE (replicate RK_WINDOW_SIZE 0 @ hist))"

lemma window_poly_append: "window_poly h (xs @ ys) = window_poly (window_poly h xs) ys"
  by (induction xs arbitrary: h) auto

lemma window_poly_shift: "window_poly h xs = h * RK_MULT ^ length xs + window_poly 0 xs"
proof (induction xs arbitrary: h)
  case (Cons a xs)
  show ?case
    using Cons.IH [of "(h + a) * RK_MULT"] Cons.IH [of "a * RK_MULT"]
    by (simp add: algebra_simps)
qed simp

lemma window_poly_zeros: "window_poly 0 (replicate n 0 @ xs) = window_poly 0 xs"
  by (induction n) auto

lemma last_n_snoc: "length xs \<ge> n \<Longrightarrow> 0 < n \<Longrightarrow> last_n n (xs @ [x]) = tl (last_n n xs) @ [x]"
  by (simp add: last_n_def Suc_diff_le tl_drop drop_Suc)

lemma length_last_n [simp]: "length (last_n n xs) = min n (length xs)"
  by (auto simp: last_n_def)

lemma window_poly_last_n_zeros:
  "window_poly 0 (last_n n (replicate n 0 @ xs)) = window_poly 0 (last_n n xs)"
proof (cases "length xs \<le> n")
  case True
  then have "last_n n (replicate n 0 @ xs) = replicate (n - length xs) 0 @ xs" "last_n n xs = xs"
    by (simp_all add: last_n_def)
  then show ?thesis by (simp add: window_poly_zeros)
next
  case False
  then show ?thesis by (simp add: last_n_def)
qed

lemma rotate_overwrite:
  assumes "p < length xs"
  shows "rotate (Suc p mod length xs) (xs[p := a]) = tl (rotate p xs) @ [a]"
proof (cases "Suc p < length xs")
  case True
  with assms show ?thesis
    by (simp add: rotate_drop_take tl_drop take_Suc_conv_app_nth flip: drop_Suc)
next
  case False
  with assms have p: "Suc p = length xs" by simp
  then have "drop p xs = [xs ! p]"
    using Cons_nth_drop_Suc [OF assms] by simp
  moreover have "xs[p := a] = take p xs @ [a]"
    using p assms upd_conv_take_nth_drop [of p xs a] by simp
  ultimately show ?thesis
    using p assms by (simp add: rotate_drop_take)
qed

lemma rk_tracks_new: "rk_tracks RabinKarpHash_new []"
  using window_poly_zeros [of RK_WINDOW_SIZE "[]"]
  by (simp add: rk_tracks_def rk_wf_def RabinKarpHash_new_def last_n_def RK_WINDOW_SIZE_def)

lemma rk_tracks_update:
  assumes "rk_tracks h hist"
  shows "rk_tracks (snd (RabinKarpHash_update h b)) (hist @ [rk_entry b])"
proof -
  let ?w = "rotate (rk_window_pos h) (rk_window h)"
  let ?h' = "snd (RabinKarpHash_update h b)"
  from assms have wf: "length (rk_window h) = 32" "rk_window_pos h < 32"
    and w: "?w = last_n 32 (replicate 32 0 @ hist)" and hash: "rk_hash h = window_poly 0 ?w"
    by (auto simp: rk_tracks_def rk_wf_def RK_WINDOW_SIZE_def)
  have w': "last_n 32 (replicate 32 0 @ hist @ [rk_entry b]) = tl ?w @ [rk_entry b]"
    using last_n_snoc [of 32 "replicate 32 0 @ hist"] by (simp add: w)
  have rot: "rotate (rk_window_pos ?h') (rk_window ?h') = tl ?w @ [rk_entry b]"
    using rotate_overwrite [of "rk_window_pos h" "rk_window h"] wf
    by (simp add: RabinKarpHash_update_def Let_def rk_entry_def RK_WINDOW_SIZE_def)
  have "?w = rk_window h ! rk_window_pos h # tl ?w"
    using wf hd_rotate_conv_nth [of "rk_window h" "rk_window_pos h"]
    by (metis hd_Cons_tl length_0_conv length_rotate mod_less zero_neq_numeral)
  then have "window_poly 0 (?w @ [rk_entry b])
      = window_poly 0 ((rk_window h ! rk_window_pos h # tl ?w) @ [rk_entry b])" by simp
  also have "\<dots> = rk_window h ! rk_window_pos h * RK_MULT ^ 33
      + window_poly 0 (tl ?w @ [rk_entry b])"
    using window_poly_shift [of "rk_window h ! rk_window_pos h * RK_MULT" "tl ?w @ [rk_entry b]"] wf
    by (simp add: mult.assoc flip: power_Suc)
  finally have "rk_hash ?h' = window_poly 0 (tl ?w @ [rk_entry b])"
    by (simp add: RabinKarpHash_update_def Let_def hash window_poly_append rk_entry_def
        RK_WINDOW_MULT_def RK_WINDOW_SIZE_def)
  then show ?thesis
    using rot w' wf
    by (simp add: rk_tracks_def rk_wf_def RK_WINDOW_SIZE_def)
      (simp add: RabinKarpHash_update_def Let_def RK_WINDOW_SIZE_def)
qed

lemma rk_tracks_feed: "rk_tracks h hist \<Longrightarrow> rk_tracks (rk_feed h bs) (hist @ map rk_entry bs)"
proof (induction bs arbitrary: h hist)
  case (Cons b bs)
  then show ?case using Cons.IH [OF rk_tracks_update [OF Cons.prems]] by simp
qed simp

lemma rk_tracks_hash: "rk_tracks h hist \<Longrightarrow> rk_hash h = window_poly 0 (last_n RK_WINDOW_SIZE hist)"
  by (simp add: rk_tracks_def window_poly_last_n_zeros)

lemma fst_RabinKarpHash_update: "fst (RabinKarpHash_update h b) = rk_hash (snd (RabinKarpHash_update h b))"
  by (simp add: RabinKarpHash_update_def Let_def)

lemma rk_tracks_update_hash:
  assumes "rk_tracks h hist"
  shows "fst (RabinKarpHash_update h b) = window_poly 0 (last_n RK_WINDOW_SIZE (hist @ [rk_entry b]))"
  using rk_tracks_hash [OF rk_tracks_update [OF assms]] by (simp add: fst_RabinKarpHash_update)

lemma RabinKarpHash_reset_new: "rk_wf h \<Longrightarrow> RabinKarpHash_reset h = RabinKarpHash_new"
  by (simp add: RabinKarpHash_reset_def RabinKarpHash_new_def rk_wf_def)

section \<open>Where the chunker cuts\<close>

text \<open>
  The reference for a cut after \<open>k\<close> bytes: the hash of the last 32 bytes seen after the
  first 512 has its low eleven bits zero, or the chunk has reached its maximal size.
\<close>

definition cut_hash :: "bytes \<Rightarrow> u32" where
  "cut_hash seen = window_poly 0 (last_n RK_WINDOW_SIZE (map rk_entry seen))"

definition cut_at :: "bytes \<Rightarrow> nat \<Rightarrow> bool" where
  "cut_at data k \<longleftrightarrow>
     cut_hash (drop MIN_CHUNK_SIZE (take k data)) AND CHUNK_MASK = 0 \<or> MAX_CHUNK_SIZE \<le> k"

text \<open>
  What a scan returns, over the bytes \<open>seen\<close> since the minimal size: no cut strictly
  before the result, and a cut at the result unless the data ended there.
\<close>

definition scan_cut :: "bytes \<Rightarrow> nat \<Rightarrow> bool" where
  "scan_cut seen k \<longleftrightarrow> cut_hash seen AND CHUNK_MASK = 0 \<or> MAX_CHUNK_SIZE \<le> k"

lemma Chunker_scan_cut:
  assumes "rk_tracks rh (map rk_entry seen)" and "Chunker_scan rh data n = (m, rh')"
  shows "(\<forall>k. n < k \<and> k < m \<longrightarrow> \<not> scan_cut (seen @ take (k - n) data) k)
       \<and> (m = n + length data \<or> scan_cut (seen @ take (m - n) data) m)
       \<and> rk_wf rh'"
  using assms
proof (induction data arbitrary: rh n seen)
  case Nil
  then show ?case by (auto simp: rk_tracks_def)
next
  case (Cons b data)
  let ?u = "RabinKarpHash_update rh b"
  have hash: "fst ?u = cut_hash (seen @ [b])"
    using rk_tracks_update_hash [OF Cons.prems(1), of b] by (simp add: cut_hash_def)
  have tracks: "rk_tracks (snd ?u) (map rk_entry (seen @ [b]))"
    using rk_tracks_update [OF Cons.prems(1), of b] by simp
  show ?case
  proof (cases "scan_cut (seen @ [b]) (n + 1)")
    case True
    with Cons.prems(2) hash have "m = n + 1" "rh' = snd ?u"
      by (auto simp: scan_cut_def Let_def split: prod.splits if_splits)
    with True tracks show ?thesis by (auto simp: rk_tracks_def)
  next
    case False
    with Cons.prems(2) hash have rec: "Chunker_scan (snd ?u) data (n + 1) = (m, rh')"
      by (auto simp: scan_cut_def Let_def split: prod.splits if_splits)
    have m: "n + 1 \<le> m" using Chunker_scan_bounds [OF rec] by simp
    note IH = Cons.IH [OF tracks rec]
    have "\<not> scan_cut (seen @ take (k - n) (b # data)) k" if "n < k" "k < m" for k
    proof (cases "k = n + 1")
      case True
      with False show ?thesis by simp
    next
      case False
      with that have "k - n = Suc (k - (n + 1))" "n + 1 < k" by auto
      with IH that show ?thesis by simp
    qed
    moreover have "m = n + length (b # data) \<or> scan_cut (seen @ take (m - n) (b # data)) m"
    proof -
      from m have "m - n = Suc (m - (n + 1))" by simp
      with IH show ?thesis by auto
    qed
    ultimately show ?thesis using IH by blast
  qed
qed

text \<open>A scan that stopped before the end of its data does not look at what follows it.\<close>

lemma Chunker_scan_append:
  "Chunker_scan rh data n = (m, rh') \<Longrightarrow> m < n + length data \<Longrightarrow> Chunker_scan rh (data @ extra) n = (m, rh')"
  by (induction rh data n rule: Chunker_scan.induct) (auto simp: Let_def split: prod.splits if_splits)

section \<open>The chunks of a byte slice\<close>

text \<open>The size of the first chunk of nonempty data, and the chunks of a whole slice.\<close>

definition cut_size :: "bytes \<Rightarrow> nat" where
  "cut_size data =
     fst (Chunker_scan RabinKarpHash_new (drop (min MIN_CHUNK_SIZE (length data)) data)
       (min MIN_CHUNK_SIZE (length data)))"

definition chunk_list :: "bytes \<Rightarrow> bytes list" where
  "chunk_list data = Chunker_collect (Chunker_new data)"

lemma Chunker_next_new:
  assumes "data \<noteq> []"
  shows "Chunker_next (Chunker_new data)
       = (Some (take (cut_size data) data), Chunker_new (drop (cut_size data) data))"
proof -
  let ?s = "min MIN_CHUNK_SIZE (length data)"
  obtain m rh where scan: "Chunker_scan RabinKarpHash_new (drop ?s data) ?s = (m, rh)"
    by fastforce
  have "rk_wf rh"
    using Chunker_scan_cut [OF _ scan, of "[]"] rk_tracks_new by simp
  with assms scan show ?thesis
    by (simp add: Chunker_next_def Chunker_new_def cut_size_def RabinKarpHash_reset_new)
qed

lemma chunk_list_Nil [simp]: "chunk_list [] = []"
  by (simp add: chunk_list_def Chunker_new_def Chunker_next_def Chunker_collect.simps)

lemma chunk_list_rec:
  "data \<noteq> [] \<Longrightarrow> chunk_list data = take (cut_size data) data # chunk_list (drop (cut_size data) data)"
  by (simp add: chunk_list_def Chunker_next_new Chunker_collect.simps [of "Chunker_new data"])

lemma cut_size_bounds:
  assumes "data \<noteq> []"
  shows "0 < cut_size data \<and> cut_size data \<le> length data \<and> cut_size data \<le> MAX_CHUNK_SIZE
       \<and> (MIN_CHUNK_SIZE < length data \<longrightarrow> MIN_CHUNK_SIZE < cut_size data)
       \<and> (length data \<le> MIN_CHUNK_SIZE \<longrightarrow> cut_size data = length data)"
proof -
  let ?s = "min MIN_CHUNK_SIZE (length data)"
  obtain m rh where scan: "Chunker_scan RabinKarpHash_new (drop ?s data) ?s = (m, rh)"
    by fastforce
  then have "cut_size data = m" by (simp add: cut_size_def)
  moreover have "0 < m"
    using Chunker_scan_bounds [OF scan] assms by (cases data) (auto simp: MIN_CHUNK_SIZE_def)
  ultimately show ?thesis
    using Chunker_scan_bounds [OF scan] by (auto simp: MIN_CHUNK_SIZE_def MAX_CHUNK_SIZE_def)
qed

lemma cut_size_cut:
  assumes "MIN_CHUNK_SIZE < length data"
  shows "(\<forall>k. MIN_CHUNK_SIZE < k \<and> k < cut_size data \<longrightarrow> \<not> cut_at data k)
       \<and> (cut_size data = length data \<or> cut_at data (cut_size data))"
proof -
  let ?d = "drop MIN_CHUNK_SIZE data"
  from assms have "min MIN_CHUNK_SIZE (length data) = MIN_CHUNK_SIZE" by simp
  then obtain m rh where scan: "Chunker_scan RabinKarpHash_new ?d MIN_CHUNK_SIZE = (m, rh)"
    and m: "cut_size data = m"
    by (metis cut_size_def prod.collapse)
  have "scan_cut ([] @ take (k - MIN_CHUNK_SIZE) ?d) k = cut_at data k" for k
    by (simp add: scan_cut_def cut_at_def drop_take)
  with Chunker_scan_cut [OF _ scan, of "[]"] rk_tracks_new m assms show ?thesis
    by auto
qed

lemma cut_size_append:
  assumes "cut_size data < length data"
  shows "cut_size (data @ extra) = cut_size data"
proof -
  from assms have "data \<noteq> []" by auto
  with assms have len: "MIN_CHUNK_SIZE < length data"
    using cut_size_bounds [of data] by force
  obtain m rh where scan: "Chunker_scan RabinKarpHash_new (drop MIN_CHUNK_SIZE data) MIN_CHUNK_SIZE = (m, rh)"
    by fastforce
  with len assms have "m < length data" by (simp add: cut_size_def)
  with len have "m < MIN_CHUNK_SIZE + length (drop MIN_CHUNK_SIZE data)" by simp
  from Chunker_scan_append [OF scan this, of extra] scan len show ?thesis
    by (simp add: cut_size_def)
qed

text \<open>Induction over the chunks of a slice.\<close>

lemma chunk_induct [case_names Nil Chunk]:
  assumes "P []" and "\<And>data. data \<noteq> [] \<Longrightarrow> P (drop (cut_size data) data) \<Longrightarrow> P data"
  shows "P data"
proof (induction data rule: length_induct)
  case (1 data)
  show ?case
  proof (cases "data = []")
    case True
    with assms(1) show ?thesis by simp
  next
    case False
    with cut_size_bounds [OF False] have "length (drop (cut_size data) data) < length data" by simp
    with 1 False assms(2) show ?thesis by blast
  qed
qed

lemma concat_chunk_list: "concat (chunk_list data) = data"
proof (induction data rule: chunk_induct)
  case (Chunk data)
  then show ?case by (simp add: chunk_list_rec [OF Chunk.hyps])
qed simp

lemma chunk_list_nonempty: "chunk_list data = [] \<longleftrightarrow> data = []"
  using chunk_list_rec [of data] by (cases "data = []") auto

lemma chunk_list_sizes:
  "\<forall>chunk \<in> set (chunk_list data). 0 < length chunk \<and> length chunk \<le> MAX_CHUNK_SIZE"
proof (induction data rule: chunk_induct)
  case (Chunk data)
  with cut_size_bounds [OF Chunk.hyps] show ?case by (auto simp: chunk_list_rec [OF Chunk.hyps])
qed simp

lemma chunk_list_min_size: "\<forall>chunk \<in> set (butlast (chunk_list data)). MIN_CHUNK_SIZE < length chunk"
proof (induction data rule: chunk_induct)
  case (Chunk data)
  show ?case
  proof (cases "cut_size data = length data")
    case True
    then show ?thesis by (simp add: chunk_list_rec [OF Chunk.hyps])
  next
    case False
    with cut_size_bounds [OF Chunk.hyps] have "MIN_CHUNK_SIZE < cut_size data" "cut_size data < length data"
      by force+
    with Chunk show ?thesis by (auto simp: chunk_list_rec [OF Chunk.hyps] chunk_list_nonempty)
  qed
qed simp

lemma chunk_list_append: "\<exists>rest. chunk_list (data @ extra) = butlast (chunk_list data) @ rest"
proof (induction data rule: chunk_induct)
  case (Chunk data)
  show ?case
  proof (cases "cut_size data < length data")
    case True
    then have "cut_size (data @ extra) = cut_size data" by (rule cut_size_append)
    with True Chunk.hyps have "chunk_list (data @ extra)
        = take (cut_size data) data # chunk_list (drop (cut_size data) data @ extra)"
      using chunk_list_rec [of "data @ extra"] by simp
    with Chunk True show ?thesis
      by (auto simp: chunk_list_rec [OF Chunk.hyps] chunk_list_nonempty)
  next
    case False
    then show ?thesis by (simp add: chunk_list_rec [OF Chunk.hyps])
  qed
qed simp

lemma chunk_list_suffix:
  "chunk_list data = front @ back \<Longrightarrow> back = chunk_list (drop (length (concat front)) data)"
proof (induction front arbitrary: data)
  case (Cons c front)
  then have ne: "data \<noteq> []" by auto
  with Cons.prems have c: "c = take (cut_size data) data"
    and tl: "chunk_list (drop (cut_size data) data) = front @ back"
    by (auto simp: chunk_list_rec [OF ne])
  from Cons.IH [OF tl] c cut_size_bounds [OF ne] show ?case by (simp add: add.commute)
qed simp

section \<open>Properties\<close>

text \<open>
  C24. The value \<open>update\<close> returns, computed in constant time from the previous hash, is the
  polynomial hash of the last 32 bytes alone, computed from scratch, for every history
  since \<open>new\<close>: what the circular window removes is exactly what left the window.
\<close>

theorem rolling_hash_is_window_poly:
  "fst (RabinKarpHash_update (rk_feed RabinKarpHash_new bs) b)
     = window_poly 0 (last_n RK_WINDOW_SIZE (map rk_entry (bs @ [b])))"
  using rk_tracks_update_hash [OF rk_tracks_feed [OF rk_tracks_new]] by simp

text \<open>
  C34. The unchecked reads and writes of \<open>update\<close> (\<open>get_unchecked\<close>, \<open>get_unchecked_mut\<close>)
  are always in range: after any sequence of updates from \<open>new\<close>, and again after
  \<open>reset\<close>, the window has 32 entries and its position is below 32; \<open>reset\<close> restores
  exactly the initial state.
\<close>

theorem rolling_hash_window_in_range:
  "rk_window_pos (rk_feed RabinKarpHash_new bs) < length (rk_window (rk_feed RabinKarpHash_new bs))
   \<and> length (rk_window (rk_feed RabinKarpHash_new bs)) = RK_WINDOW_SIZE
   \<and> RabinKarpHash_reset (rk_feed RabinKarpHash_new bs) = RabinKarpHash_new"
proof -
  have "rk_wf (rk_feed RabinKarpHash_new bs)"
    using rk_tracks_feed [OF rk_tracks_new] by (simp add: rk_tracks_def)
  then show ?thesis by (simp add: RabinKarpHash_reset_new) (simp add: rk_wf_def)
qed

text \<open>
  C15. The chunks of a slice, in order, are a partition of it: they concatenate to the
  slice, none is empty, none is longer than 4096 bytes, and all but the last are longer
  than 512 bytes. The iterator always ends (\<open>Chunker_collect\<close> is total).
\<close>

theorem chunker_partitions:
  "concat (Chunker_collect (Chunker_new data)) = data
   \<and> length ` set (Chunker_collect (Chunker_new data)) \<subseteq> {1..MAX_CHUNK_SIZE}
   \<and> length ` set (butlast (Chunker_collect (Chunker_new data))) \<subseteq> {MIN_CHUNK_SIZE<..}"
  using concat_chunk_list [of data] chunk_list_sizes [of data] chunk_list_min_size [of data]
  unfolding chunk_list_def by (fastforce simp: Suc_le_eq)

text \<open>
  C30. Where \<open>next\<close> cuts data of more than 512 bytes: at the first position after byte 512 where the
  rolling hash has its low eleven bits zero or the chunk reaches 4096 bytes, and at the end of
  the data if there is no such position. The hash starts at byte 512: at a position it is that of
  the last 32 of the bytes after byte 512, or of all of them as long as they are fewer.
  Shorter data is one chunk. The chunker then starts afresh on the rest.
\<close>

theorem chunker_cuts_at_first_boundary:
  assumes "data \<noteq> []"
  shows "\<exists>n. Chunker_next (Chunker_new data) = (Some (take n data), Chunker_new (drop n data))
     \<and> n \<le> length data
     \<and> (if length data \<le> MIN_CHUNK_SIZE then n = length data
        else MIN_CHUNK_SIZE < n \<and> \<not> (\<exists>k. MIN_CHUNK_SIZE < k \<and> k < n \<and> cut_at data k)
          \<and> (n = length data \<or> cut_at data n))"
proof (intro exI conjI)
  show "Chunker_next (Chunker_new data)
      = (Some (take (cut_size data) data), Chunker_new (drop (cut_size data) data))"
    by (rule Chunker_next_new [OF assms])
qed (use cut_size_bounds [OF assms] cut_size_cut [of data] in auto)

lemma cut_size_example: "cut_size (replicate 512 0 @ [6, 136, 1, 2, 3]) = 514"
  by (simp add: cut_size_def MIN_CHUNK_SIZE_def MAX_CHUNK_SIZE_def CHUNK_MASK_def Let_def
      RabinKarpHash_new_def RabinKarpHash_update_def RK_OFFSET_def RK_MULT_def RK_WINDOW_SIZE_def)

text \<open>The hash of the two bytes after byte 512 is a cut, that of the first of them is none.\<close>

theorem chunker_cuts_at_first_boundary_witness:
  "Chunker_next (Chunker_new (replicate 512 0 @ [6, 136, 1, 2, 3]))
     = (Some (replicate 512 0 @ [6, 136]), Chunker_new [1, 2, 3])
   \<and> \<not> cut_at (replicate 512 0 @ [6, 136, 1, 2, 3]) 513 \<and> cut_at (replicate 512 0 @ [6, 136, 1, 2, 3]) 514"
proof -
  define d where "d = replicate 512 0 @ [6, 136, 1, 2, 3 :: u8]"
  have ne: "d \<noteq> []" and len: "length d = 517" by (simp_all add: d_def)
  from chunker_cuts_at_first_boundary [OF ne] obtain n where
    cut_off: "Chunker_next (Chunker_new d) = (Some (take n d), Chunker_new (drop n d))" and "n \<le> 517"
    and cut: "\<not> (\<exists>k. MIN_CHUNK_SIZE < k \<and> k < n \<and> cut_at d k) \<and> (n = 517 \<or> cut_at d n)"
    unfolding len by (auto simp: MIN_CHUNK_SIZE_def)
  moreover have "Chunker_next (Chunker_new d) = (Some (take 514 d), Chunker_new (drop 514 d))"
    using Chunker_next_new [OF ne] cut_size_example by (simp add: d_def)
  ultimately have "take n d = take 514 d" by simp
  then have "length (take n d) = length (take 514 d)" by (rule arg_cong)
  then have "n = 514" using \<open>n \<le> 517\<close> len by simp
  with cut have "\<not> cut_at d 513" "cut_at d 514" by (auto simp: MIN_CHUNK_SIZE_def)
  moreover have "take 514 d = replicate 512 0 @ [6, 136]" "drop 514 d = [1, 2, 3]" by (simp_all add: d_def)
  ultimately show ?thesis using cut_off \<open>n = 514\<close> by (simp add: d_def)
qed

text \<open>
  Appending data changes only the last chunk: every chunk but the last of a slice is
  also a chunk, at the same place, of the longer slice.
\<close>

theorem chunker_append_stable:
  "\<exists>rest. Chunker_collect (Chunker_new (data @ extra))
     = butlast (Chunker_collect (Chunker_new data)) @ rest"
  using chunk_list_append [of data extra] by (simp add: chunk_list_def)

text \<open>
  C31. An insertion, deletion or replacement before a common tail stops mattering as soon as
  both versions are cut at the start of that tail: from there on their chunks are the same.
\<close>

theorem chunker_resynchronises:
  assumes "Chunker_collect (Chunker_new (p @ tail)) = ps @ rest" and "concat ps = p"
    and "Chunker_collect (Chunker_new (q @ tail)) = qs @ rest'" and "concat qs = q"
  shows "rest = rest'"
  using chunk_list_suffix [of "p @ tail" ps rest] chunk_list_suffix [of "q @ tail" qs rest'] assms
  by (simp add: chunk_list_def)

lemma chunk_list_short: "data \<noteq> [] \<Longrightarrow> length data \<le> MIN_CHUNK_SIZE \<Longrightarrow> chunk_list data = [data]"
  using cut_size_bounds [of data] by (simp add: chunk_list_rec)

lemma chunk_list_example:
  "chunk_list (replicate 512 0 @ [6, 136, 1, 2, 3]) = [replicate 512 0 @ [6, 136], [1, 2, 3]]"
  by (simp add: chunk_list_rec [of "replicate 512 0 @ [6, 136, 1, 2, 3]"] cut_size_example
      chunk_list_short MIN_CHUNK_SIZE_def)

theorem chunker_resynchronises_witness:
  "Chunker_collect (Chunker_new ((replicate 512 0 @ [6, 136]) @ [1, 2, 3]))
     = [replicate 512 0 @ [6, 136]] @ [[1, 2, 3]]
   \<and> Chunker_collect (Chunker_new ([] @ [1, 2, 3])) = [] @ [[1, 2, 3]]
   \<and> [[1, 2, 3 :: u8]] = [[1, 2, 3]]"
proof -
  have p: "Chunker_collect (Chunker_new ((replicate 512 0 @ [6, 136]) @ [1, 2, 3]))
     = [replicate 512 0 @ [6, 136]] @ [[1, 2, 3]]"
    using chunk_list_example by (simp add: chunk_list_def)
  have q: "Chunker_collect (Chunker_new ([] @ [1, 2, 3])) = [] @ [[1, 2, 3]]"
    using chunk_list_short [of "[1, 2, 3]"] by (simp add: chunk_list_def MIN_CHUNK_SIZE_def)
  have "concat [replicate 512 0 @ [6, 136]] = replicate 512 0 @ [6, 136 :: u8]" by simp
  from chunker_resynchronises [OF p this q] p q show ?thesis by simp
qed

end
