(* ===== verification/Reverse_CRC.thy ===== *)
theory Reverse_CRC
  imports Prelude
begin

text \<open>
  The reverse CRC of \<open>src/src/rev_crc.rs\<close>: the reverse lookup table, the digest that runs
  a CRC-32 backwards from a wanted value, and \<open>forge_crc\<close>, which computes the four bytes
  that give a byte sequence a chosen CRC. The forward CRC is the \<open>crc\<close> crate's: a
  parameter of the model (record \<open>Crc\<close>) whose documented behaviour is the locale
  \<open>crc_crate\<close>, interpreted on CRC-32/ISO-HDLC.
\<close>

unbundle bit_operations_syntax

section \<open>The interface of the CRC crate\<close>

text \<open>
  What the sources use of a \<open>crc::Crc<u32>\<close> value: \<open>crc.algorithm.xorout\<close>, the 256-entry
  table \<open>crc.table()[0]\<close>, \<open>checksum\<close>, and the incremental \<open>Digest\<close>, whose state is the
  CRC register: the register of a fresh digest, \<open>update\<close> and \<open>finalize\<close>.
\<close>

record Crc =
  crc_xorout :: u32
  crc_table :: "u32 list"
  crc_digest :: u32
  crc_update :: "u32 \<Rightarrow> bytes \<Rightarrow> u32"
  crc_finalize :: "u32 \<Rightarrow> u32"
  crc_checksum :: "bytes \<Rightarrow> u32"

text \<open>
  The bit-serial definition of a reflected 32-bit CRC: one shift of the register, eight
  shifts for a byte.
\<close>

definition crc_bit :: "u32 \<Rightarrow> u32 \<Rightarrow> u32" where
  "crc_bit poly v = drop_bit 1 v XOR (if bit v 0 then poly else 0)"

definition crc_byte :: "u32 \<Rightarrow> u32 \<Rightarrow> u8 \<Rightarrow> u32" where
  "crc_byte poly v b = (crc_bit poly ^^ 8) (v XOR ucast b)"

locale crc_crate =
  fixes crc :: Crc and poly :: u32
  assumes poly_reflected: "bit poly 31"
    and table: "crc_table crc = map (\<lambda>n. (crc_bit poly ^^ 8) (of_nat n)) [0..<256]"
    and update_eq: "crc_update crc v bs = foldl (crc_byte poly) v bs"
    and finalize: "crc_finalize crc v = v XOR crc_xorout crc"
    and checksum: "crc_checksum crc bs = crc_finalize crc (crc_update crc (crc_digest crc) bs)"

section \<open>The reverse CRC\<close>

record RevCRC =
  rc_xorout :: u32
  rc_reverse_table :: "u32 list"

text \<open>The \<open>while\<close> loop of \<open>RevCRC::new\<close>, over the entries of the table from index \<open>n\<close>.\<close>

fun RevCRC_fill :: "u32 list \<Rightarrow> nat \<Rightarrow> u32 list \<Rightarrow> u32 list" where
  "RevCRC_fill [] n reverse_table = reverse_table"
| "RevCRC_fill (t # table) n reverse_table =
     RevCRC_fill table (n + 1)
       (reverse_table[unat (drop_bit 24 t) := push_bit 8 t XOR of_nat n])"

definition RevCRC_new :: "Crc \<Rightarrow> RevCRC" where
  "RevCRC_new crc =
     \<lparr>rc_xorout = crc_xorout crc, rc_reverse_table = RevCRC_fill (crc_table crc) 0 (replicate 256 0)\<rparr>"

fun RevCRC_update_loop :: "RevCRC \<Rightarrow> u32 \<Rightarrow> bytes \<Rightarrow> u32" where
  "RevCRC_update_loop self value [] = value"
| "RevCRC_update_loop self value (byte # bytes) =
     RevCRC_update_loop self
       (push_bit 8 value XOR rc_reverse_table self ! unat (drop_bit 24 value) XOR ucast byte) bytes"

definition RevCRC_update :: "RevCRC \<Rightarrow> u32 \<Rightarrow> bytes \<Rightarrow> u32" where
  "RevCRC_update self value data = RevCRC_update_loop self value (rev data)"

record RevDigest =
  rd_crc :: RevCRC
  rd_value :: u32

definition RevCRC_digest :: "RevCRC \<Rightarrow> u32 \<Rightarrow> RevDigest" where
  "RevCRC_digest self initial_value = \<lparr>rd_crc = self, rd_value = initial_value XOR rc_xorout self\<rparr>"

definition RevDigest_update :: "RevDigest \<Rightarrow> bytes \<Rightarrow> RevDigest" where
  "RevDigest_update self data = self\<lparr>rd_value := RevCRC_update (rd_crc self) (rd_value self) data\<rparr>"

definition RevDigest_finalize :: "RevDigest \<Rightarrow> u32" where
  "RevDigest_finalize self = rd_value self"

definition forge_crc :: "u32 \<Rightarrow> RevDigest \<Rightarrow> bytes" where
  "forge_crc before_digest after_digest =
     (let before_digest = before_digest XOR rc_xorout (rd_crc after_digest);
          after_digest = RevDigest_update after_digest (u32_to_le_bytes before_digest)
      in u32_to_le_bytes (RevDigest_finalize after_digest))"

section \<open>The register of a reflected CRC\<close>

lemma bit_crc_bit:
  "bit (crc_bit poly v) i \<longleftrightarrow> bit v (Suc i) \<noteq> (bit v 0 \<and> bit poly i)"
  by (simp add: crc_bit_def bit_simps)

lemma crc_bit_xor: "crc_bit poly (v XOR w) = crc_bit poly v XOR crc_bit poly w"
  by (rule bit_word_eqI) (auto simp: bit_crc_bit bit_simps)

lemma crc_bits_xor: "(crc_bit poly ^^ k) (v XOR w) = (crc_bit poly ^^ k) v XOR (crc_bit poly ^^ k) w"
  by (induction k) (auto simp: crc_bit_xor)

lemma crc_bits_low_zero:
  "(\<forall>i < k. \<not> bit v i) \<Longrightarrow> (crc_bit poly ^^ k) v = drop_bit k v"
proof (induction k)
  case (Suc k)
  then have IH: "(crc_bit poly ^^ k) v = drop_bit k v" by simp
  have "\<not> bit (drop_bit k v) 0" using Suc.prems by (simp add: bit_simps)
  then have "crc_bit poly (drop_bit k v) = drop_bit (Suc k) v"
    by (simp add: crc_bit_def)
  with IH show ?case by simp
qed simp

text \<open>
  With the top coefficient of the polynomial set, a register whose top \<open>k\<close> bits are zero
  after \<open>k\<close> shifts had its low \<open>k\<close> bits zero before: nothing was ever fed back.
\<close>

lemma crc_bits_top_zero:
  assumes "bit poly 31" and "k \<le> 32" and "\<forall>i. 32 - k \<le> i \<longrightarrow> \<not> bit ((crc_bit poly ^^ k) v) i"
  shows "\<forall>i < k. \<not> bit v i"
  using assms(2,3)
proof (induction k)
  case (Suc k)
  let ?w = "(crc_bit poly ^^ k) v"
  have "\<not> bit (crc_bit poly ?w) 31" using Suc.prems by simp
  moreover have "\<not> bit ?w 32" using bit_imp_le_length [of ?w 32] by auto
  ultimately have w0: "\<not> bit ?w 0"
    using assms(1) by (auto simp: bit_crc_bit)
  have "\<not> bit ?w i" if "32 - k \<le> i" for i
  proof (cases i)
    case (Suc j)
    with that Suc.prems w0 show ?thesis by (auto simp: bit_crc_bit)
  qed (use w0 in simp)
  then have low: "\<forall>i < k. \<not> bit v i" using Suc.IH Suc.prems by simp
  with w0 have "\<not> bit v k" by (simp add: crc_bits_low_zero bit_simps)
  with low show ?case by (auto simp: less_Suc_eq)
qed simp

lemma crc_byte_table:
  "crc_byte poly v b = (crc_bit poly ^^ 8) (take_bit 8 (v XOR ucast b)) XOR drop_bit 8 v"
proof -
  let ?x = "v XOR ucast b"
  let ?hi = "push_bit 8 (drop_bit 8 v)"
  have bound: "bit v (8 + n) \<Longrightarrow> n < 24" for n
    using u32_bitD [of v "8 + n"] by simp
  have hi: "(crc_bit poly ^^ 8) ?hi = drop_bit 8 v"
    by (subst crc_bits_low_zero) (auto intro!: bit_word_eqI dest: bound simp: bit_simps)
  have "?x = take_bit 8 ?x XOR ?hi"
    by (rule bit_word_eqI) (auto simp: bit_simps)
  then have "crc_byte poly v b = (crc_bit poly ^^ 8) (take_bit 8 ?x XOR ?hi)"
    unfolding crc_byte_def by (rule arg_cong)
  also have "\<dots> = (crc_bit poly ^^ 8) (take_bit 8 ?x) XOR drop_bit 8 v"
    by (simp only: crc_bits_xor hi)
  finally show ?thesis .
qed

text \<open>Four bytes enter the register together: only their exclusive or with it matters.\<close>

lemma crc_four_bytes:
  "foldl (crc_byte poly) v [b0, b1, b2, b3] = (crc_bit poly ^^ 32) (v XOR u32_of_le b0 b1 b2 b3)"
proof -
  have lift: "crc_byte poly ((crc_bit poly ^^ k) x) b = (crc_bit poly ^^ (8 + k)) (x XOR push_bit k (ucast b))"
    if "k \<le> 24" for k x b
  proof -
    have "(crc_bit poly ^^ k) (push_bit k (ucast b)) = ucast b"
      using that by (subst crc_bits_low_zero) (auto intro!: bit_word_eqI dest!: u8_bitD simp: bit_simps)
    then show ?thesis by (simp add: crc_byte_def crc_bits_xor funpow_add)
  qed
  have "u32_of_le b0 b1 b2 b3
      = ucast b0 XOR push_bit 8 (ucast b1) XOR push_bit 16 (ucast b2) XOR push_bit 24 (ucast b3)"
    by (rule bit_word_eqI) (auto simp: u32_of_le_def bit_simps)
  then show ?thesis
    using lift [of 0 v b0] lift [of 8 _ b1] lift [of 16 _ b2] lift [of 24 _ b3]
    by (simp add: xor.assoc)
qed


section \<open>Running the CRC backwards\<close>

lemma u32_top_byte: "unat (drop_bit 24 (t :: u32)) < 256"
proof -
  have "unat t < 2 ^ 32" by (rule order.strict_trans2 [OF unsigned_less]) simp
  then have "unat t div 2 ^ 24 < 256" by simp
  then show ?thesis by (subst unat_drop_bit_eq) (simp only: drop_bit_eq_div)
qed

lemma unat_take_bit_less: "unat (take_bit n (v :: u32)) < 2 ^ n"
  by (simp add: unsigned_take_bit_eq)

lemma xor_left_cancel: "(a :: u32) XOR (a XOR b) = b"
  by (simp flip: xor.assoc)

lemma RevCRC_fill_length [simp]: "length (RevCRC_fill ts n rt) = length rt"
  by (induction ts n rt rule: RevCRC_fill.induct) auto

lemma RevCRC_fill_other:
  "i \<notin> (\<lambda>t. unat (drop_bit 24 t)) ` set ts \<Longrightarrow> RevCRC_fill ts n rt ! i = rt ! i"
  by (induction ts n rt rule: RevCRC_fill.induct) auto

lemma RevCRC_fill_nth:
  assumes "k < length ts" and "distinct (map (\<lambda>t. unat (drop_bit 24 t)) ts)"
    and "(\<lambda>t. unat (drop_bit 24 t)) ` set ts \<subseteq> {..<length rt}"
  shows "RevCRC_fill ts n rt ! unat (drop_bit 24 (ts ! k)) = push_bit 8 (ts ! k) XOR of_nat (n + k)"
  using assms
proof (induction ts n rt arbitrary: k rule: RevCRC_fill.induct)
  case (2 t ts n rt)
  then show ?case
  proof (cases k)
    case 0
    with "2.prems" show ?thesis by (auto simp: RevCRC_fill_other)
  next
    case (Suc j)
    with "2.prems" "2.IH" [of j] show ?thesis by auto
  qed
qed simp

context crc_crate
begin

text \<open>The table, entry by entry; distinct entries have distinct top bytes.\<close>

lemma length_table: "length (crc_table crc) = 256"
  by (simp add: table)

lemma table_nth: "n < 256 \<Longrightarrow> crc_table crc ! n = (crc_bit poly ^^ 8) (of_nat n)"
  by (simp add: table)

lemma table_top_inj:
  assumes "m < 256" and "n < 256"
    and top: "drop_bit 24 (crc_table crc ! m) = drop_bit 24 (crc_table crc ! n)"
  shows "m = n"
proof -
  let ?x = "of_nat m XOR of_nat n :: u32"
  have "drop_bit 24 ((crc_bit poly ^^ 8) ?x) = 0"
    using top assms(1,2) by (simp add: table_nth crc_bits_xor drop_bit_xor)
  then have "\<not> bit (drop_bit 24 ((crc_bit poly ^^ 8) ?x)) i" for i by simp
  then have "\<forall>i. 24 \<le> i \<longrightarrow> \<not> bit ((crc_bit poly ^^ 8) ?x) i"
    by (metis bit_drop_bit_eq comp_apply le_add_diff_inverse)
  with crc_bits_top_zero [OF poly_reflected, of 8 ?x] have low: "\<forall>i < 8. \<not> bit ?x i" by simp
  have "bit (of_nat k :: u32) i \<Longrightarrow> i < 8" if "k < 256" for k i
  proof -
    have "take_bit 8 k = k" using that by (simp add: take_bit_nat_eq_self_iff)
    then have "bit k i \<Longrightarrow> i < 8" by (metis bit_take_bit_iff)
    then show "bit (of_nat k :: u32) i \<Longrightarrow> i < 8" by (simp add: bit_simps)
  qed
  with low assms(1,2) have "of_nat m = (of_nat n :: u32)"
    by (intro bit_word_eqI) (metis bit_xor_iff)
  then have "unat (of_nat m :: u32) = unat (of_nat n :: u32)" by simp
  with assms(1,2) show ?thesis by (simp add: unat_of_nat)
qed

lemma reverse_table_nth:
  assumes "n < 256"
  shows "rc_reverse_table (RevCRC_new crc) ! unat (drop_bit 24 (crc_table crc ! n))
       = push_bit 8 (crc_table crc ! n) XOR of_nat n"
proof -
  let ?top = "\<lambda>t :: u32. unat (drop_bit 24 t)"
  have "distinct (map ?top (crc_table crc))"
    using table_top_inj by (auto simp: distinct_conv_nth length_table dest!: unsigned_word_eqI)
  moreover have "?top ` set (crc_table crc) \<subseteq> {..<256}" using u32_top_byte by auto
  ultimately show ?thesis
    using RevCRC_fill_nth [of n "crc_table crc" "replicate 256 0" 0] assms
    by (simp add: RevCRC_new_def length_table)
qed

text \<open>One reverse step undoes one byte.\<close>

lemma reverse_step:
  "push_bit 8 (crc_byte poly v b)
     XOR rc_reverse_table (RevCRC_new crc) ! unat (drop_bit 24 (crc_byte poly v b)) XOR ucast b = v"
proof -
  let ?i = "take_bit 8 (v XOR ucast b) :: u32"
  have i: "unat ?i < 256" and tb: "crc_byte poly v b = crc_table crc ! unat ?i XOR drop_bit 8 v"
    using unat_take_bit_less [of 8 "v XOR ucast b"] by (simp_all add: table_nth crc_byte_table)
  have "drop_bit 24 (crc_byte poly v b) = drop_bit 24 (crc_table crc ! unat ?i)"
    by (simp add: tb drop_bit_xor)
  with i have "push_bit 8 (crc_byte poly v b)
      XOR rc_reverse_table (RevCRC_new crc) ! unat (drop_bit 24 (crc_byte poly v b)) XOR ucast b
      = push_bit 8 (drop_bit 8 v) XOR ?i XOR ucast b"
    by (simp add: reverse_table_nth tb push_bit_xor xor_left_cancel ac_simps)
  also have "\<dots> = v"
  proof (rule bit_word_eqI)
    fix n :: nat
    assume "n < LENGTH(32)"
    then show "bit (push_bit 8 (drop_bit 8 v) XOR ?i XOR ucast b) n = bit v n"
      by (cases "n < 8") (auto simp: bit_simps)
  qed
  finally show ?thesis .
qed

lemma RevCRC_update_undoes: "RevCRC_update (RevCRC_new crc) (foldl (crc_byte poly) v bs) bs = v"
proof (induction bs arbitrary: v rule: rev_induct)
  case (snoc b bs)
  then show ?case using reverse_step [of "foldl (crc_byte poly) v bs" b] by (simp add: RevCRC_update_def)
qed (simp add: RevCRC_update_def)

text \<open>The byte steps permute the registers, so the reverse run is also a right inverse.\<close>

lemma RevCRC_update_redoes: "foldl (crc_byte poly) (RevCRC_update (RevCRC_new crc) v bs) bs = v"
proof -
  have "inj (\<lambda>v. foldl (crc_byte poly) v bs)"
    by (rule inj_on_inverseI [where g = "\<lambda>v. RevCRC_update (RevCRC_new crc) v bs"])
      (rule RevCRC_update_undoes)
  then have "surj (\<lambda>v. foldl (crc_byte poly) v bs)" by (simp add: finite_UNIV_inj_surj)
  then obtain u where "v = foldl (crc_byte poly) u bs" by blast
  then show ?thesis by (simp add: RevCRC_update_undoes)
qed

lemma four_bytes_symmetric:
  "foldl (crc_byte poly) v (u32_to_le_bytes w) = foldl (crc_byte poly) w (u32_to_le_bytes v)"
  by (simp add: u32_to_le_bytes_def crc_four_bytes xor.commute del: foldl_Cons)

text \<open>The forged bytes lead the register from where the front left it to where the tail needs it.\<close>

lemma forge_crc_register:
  "crc_update crc s (forge_crc (crc_finalize crc s) (RevDigest_update (RevCRC_digest (RevCRC_new crc) target) after)
     @ after) = target XOR crc_xorout crc"
proof -
  let ?v = "RevCRC_update (RevCRC_new crc) (target XOR crc_xorout crc) after"
  let ?r = "RevCRC_update (RevCRC_new crc) ?v (u32_to_le_bytes s)"
  have "forge_crc (crc_finalize crc s) (RevDigest_update (RevCRC_digest (RevCRC_new crc) target) after)
      = u32_to_le_bytes ?r"
    by (simp add: forge_crc_def RevDigest_update_def RevDigest_finalize_def RevCRC_digest_def
        RevCRC_new_def finalize xor.assoc)
  moreover have "foldl (crc_byte poly) s (u32_to_le_bytes ?r) = ?v"
    using RevCRC_update_redoes [of ?v "u32_to_le_bytes s"] by (simp add: four_bytes_symmetric)
  ultimately show ?thesis
    using RevCRC_update_redoes [of "target XOR crc_xorout crc" after] by (simp add: update_eq)
qed

lemma update_append: "crc_update crc v (bs @ cs) = crc_update crc (crc_update crc v bs) cs"
  by (simp add: update_eq)

lemma forge_crc_checksum:
  "crc_checksum crc (before
     @ forge_crc (crc_checksum crc before) (RevDigest_update (RevCRC_digest (RevCRC_new crc) target) after)
     @ after) = target"
  using forge_crc_register [of "crc_update crc (crc_digest crc) before" target after]
  by (simp add: checksum update_append) (simp add: finalize xor.assoc)

end

text \<open>Reverse updates compose: the later data comes first in the byte order.\<close>

lemma RevCRC_update_loop_append:
  "RevCRC_update_loop self v (bs @ cs) = RevCRC_update_loop self (RevCRC_update_loop self v bs) cs"
  by (induction self v bs rule: RevCRC_update_loop.induct) auto

lemma RevDigest_update_update:
  "RevDigest_update (RevDigest_update d later) earlier = RevDigest_update d (earlier @ later)"
  by (simp add: RevDigest_update_def RevCRC_update_def RevCRC_update_loop_append)

lemma length_forge_crc [simp]: "length (forge_crc b d) = 4"
  by (simp add: forge_crc_def Let_def)

section \<open>CRC-32/ISO-HDLC\<close>

text \<open>
  The algorithm both constants of the sources name (\<open>crc::CRC_32_ISO_HDLC\<close>): polynomial
  \<open>0x04C11DB7\<close> (reflected \<open>0xEDB88320\<close>), initial register and final exclusive or all ones.
  Its catalogued check value is that of the digits one to nine.
\<close>

definition crc32_iso_hdlc :: Crc where
  "crc32_iso_hdlc =
     \<lparr>crc_xorout = 0xFFFFFFFF,
      crc_table = map (\<lambda>n. (crc_bit 0xEDB88320 ^^ 8) (of_nat n)) [0..<256],
      crc_digest = 0xFFFFFFFF,
      crc_update = foldl (crc_byte 0xEDB88320),
      crc_finalize = (\<lambda>v. v XOR 0xFFFFFFFF),
      crc_checksum = (\<lambda>bs. foldl (crc_byte 0xEDB88320) 0xFFFFFFFF bs XOR 0xFFFFFFFF)\<rparr>"

interpretation iso_hdlc: crc_crate crc32_iso_hdlc "0xEDB88320"
  by unfold_locales (simp_all add: crc32_iso_hdlc_def)

lemma crc_byte_unrolled:
  "crc_byte p v b = crc_bit p (crc_bit p (crc_bit p (crc_bit p (crc_bit p (crc_bit p (crc_bit p
     (crc_bit p (v XOR ucast b))))))))"
  by (simp add: crc_byte_def numeral_eq_Suc)

lemma crc32_iso_hdlc_check:
  "crc_checksum crc32_iso_hdlc [0x31, 0x32, 0x33, 0x34, 0x35, 0x36, 0x37, 0x38, 0x39] = 0xCBF43926"
  by (simp add: crc32_iso_hdlc_def crc_byte_unrolled crc_bit_def)

section \<open>Properties\<close>

text \<open>
  C14. \<open>forge_crc\<close> does what it promises: given the CRC of what comes before and a reverse
  digest that started at the wanted CRC and ran backwards over what comes after, the four
  bytes it returns, put between the two, make the CRC of the whole the wanted one.
\<close>

theorem forge_crc_hits_target:
  assumes "crc_crate crc poly"
  shows "crc_checksum crc (before
     @ forge_crc (crc_checksum crc before) (RevDigest_update (RevCRC_digest (RevCRC_new crc) target) after)
     @ after) = target"
  using assms by (rule crc_crate.forge_crc_checksum)

theorem forge_crc_hits_target_witness:
  "crc_crate crc32_iso_hdlc 0xEDB88320
   \<and> crc_checksum crc32_iso_hdlc ([0x50, 0x4B]
       @ forge_crc (crc_checksum crc32_iso_hdlc [0x50, 0x4B])
           (RevDigest_update (RevCRC_digest (RevCRC_new crc32_iso_hdlc) 0xDEADBEEF) [1, 2, 3])
       @ [1, 2, 3]) = 0xDEADBEEF"
  using iso_hdlc.crc_crate_axioms
    forge_crc_hits_target [OF iso_hdlc.crc_crate_axioms, of "[0x50, 0x4B]" "0xDEADBEEF" "[1, 2, 3]"]
  by blast

text \<open>
  C33. The reverse digest runs the CRC register backwards: over any data, the reverse update
  undoes the forward update and the forward update undoes the reverse one. The reverse
  table has 256 entries, so its index, a byte, is in range.
\<close>

theorem reverse_crc_inverts_crc:
  assumes "crc_crate crc poly"
  shows "RevCRC_update (RevCRC_new crc) (crc_update crc v data) data = v
     \<and> crc_update crc (RevCRC_update (RevCRC_new crc) v data) data = v
     \<and> unat (drop_bit 24 v) < length (rc_reverse_table (RevCRC_new crc))"
proof -
  have "length (rc_reverse_table (RevCRC_new crc)) = 256" by (simp add: RevCRC_new_def)
  then show ?thesis
    using crc_crate.RevCRC_update_undoes [OF assms] crc_crate.RevCRC_update_redoes [OF assms] u32_top_byte
    by (simp add: crc_crate.update_eq [OF assms])
qed

theorem reverse_crc_inverts_crc_witness:
  "crc_crate crc32_iso_hdlc 0xEDB88320
   \<and> RevCRC_update (RevCRC_new crc32_iso_hdlc) (crc_update crc32_iso_hdlc 7 [1, 2]) [1, 2] = 7"
  using iso_hdlc.crc_crate_axioms
    reverse_crc_inverts_crc [OF iso_hdlc.crc_crate_axioms, of 7 "[1, 2]"] by blast

end
