(* ===== verification/Zip_Writer.thy ===== *)
theory Zip_Writer
  imports Reverse_CRC "HOL-Library.Monad_Syntax"
begin

text \<open>
  The streaming ZIP writer of \<open>src/src/zip_writer.rs\<close>. A file name is the byte sequence of
  the Rust string; sizes and offsets in memory (\<open>usize\<close>) are natural numbers, and every
  conversion to a narrower field (\<open>try_into().expect(...)\<close>) is a branch that panics. The
  lemmas relate the writer to an independent reader of the ZIP format: the archive it
  produces, with any padding before the central directory, reads back as the files that
  were written.
\<close>

section \<open>The writer\<close>

record ZipEntryMetadata =
  ze_start_offset :: nat
  ze_file_name :: bytes
  ze_file_name_size :: u16
  ze_data_size :: u32
  ze_data_crc :: u32

record ZipWriter =
  zw_current_offset :: nat
  zw_entries :: "ZipEntryMetadata list"

definition CENTRAL_DIRECTORY_ENTRY_SIZE :: nat where
  "CENTRAL_DIRECTORY_ENTRY_SIZE = 46"

definition END_OF_CENTRAL_DIRECTORY_SIZE :: nat where
  "END_OF_CENTRAL_DIRECTORY_SIZE = 22"

definition ZipWriter_new :: ZipWriter where
  "ZipWriter_new = \<lparr>zw_current_offset = 0, zw_entries = []\<rparr>"

text \<open>\<open>try_into().expect(msg)\<close> from \<open>usize\<close> to a narrower type.\<close>

definition expect_u32 :: "string \<Rightarrow> nat \<Rightarrow> u32 outcome" where
  "expect_u32 msg n = (if n < 2 ^ 32 then Inr (of_nat n) else Inl (Panic msg))"

definition expect_u16 :: "string \<Rightarrow> nat \<Rightarrow> u16 outcome" where
  "expect_u16 msg n = (if n < 2 ^ 16 then Inr (of_nat n) else Inl (Panic msg))"

definition encode_file_header :: "Crc \<Rightarrow> ZipWriter \<Rightarrow> bytes \<Rightarrow> bytes \<Rightarrow> (bytes \<times> ZipWriter) outcome" where
  "encode_file_header ZIP_CRC self file_name file_data =
     (let data_crc = crc_checksum ZIP_CRC file_data in
      case expect_u32 ''Zip entry size didn't fit in u32'' (length file_data) of
        Inl e \<Rightarrow> Inl e
      | Inr data_size \<Rightarrow>
     (case expect_u16 ''File name length didn't fit in u16'' (length file_name) of
        Inl e \<Rightarrow> Inl e
      | Inr file_name_size \<Rightarrow>
          let buf =
            u32_to_le_bytes 0x04034b50
            @ u16_to_le_bytes 45
            @ u16_to_le_bytes 0
            @ u16_to_le_bytes 0
            @ u16_to_le_bytes 0
            @ u16_to_le_bytes 0
            @ u32_to_le_bytes data_crc
            @ u32_to_le_bytes data_size
            @ u32_to_le_bytes data_size
            @ u16_to_le_bytes file_name_size
            @ u16_to_le_bytes 0
            @ file_name;
            entry = \<lparr>ze_start_offset = zw_current_offset self, ze_file_name = file_name,
                     ze_file_name_size = file_name_size, ze_data_size = data_size,
                     ze_data_crc = data_crc\<rparr>
          in Inr (buf,
               self\<lparr>zw_entries := zw_entries self @ [entry],
                    zw_current_offset := zw_current_offset self + length buf + length file_data\<rparr>)))"

definition advance_offset :: "ZipWriter \<Rightarrow> nat \<Rightarrow> ZipWriter" where
  "advance_offset self offset = self\<lparr>zw_current_offset := zw_current_offset self + offset\<rparr>"

text \<open>The loop of \<open>encode_central_directory\<close> over the entries.\<close>

fun encode_central_entries :: "ZipEntryMetadata list \<Rightarrow> bytes \<Rightarrow> bytes outcome" where
  "encode_central_entries [] buf = Inr buf"
| "encode_central_entries (entry # entries) buf =
     (case expect_u32 ''Entry offset didn't fit in u32'' (ze_start_offset entry) of
        Inl e \<Rightarrow> Inl e
      | Inr offset \<Rightarrow>
          encode_central_entries entries
            (buf
             @ u32_to_le_bytes 0x02014b50
             @ u16_to_le_bytes 45
             @ u16_to_le_bytes 45
             @ u16_to_le_bytes 0
             @ u16_to_le_bytes 0
             @ u16_to_le_bytes 0
             @ u16_to_le_bytes 0
             @ u32_to_le_bytes (ze_data_crc entry)
             @ u32_to_le_bytes (ze_data_size entry)
             @ u32_to_le_bytes (ze_data_size entry)
             @ u16_to_le_bytes (ze_file_name_size entry)
             @ u16_to_le_bytes 0
             @ u16_to_le_bytes 0
             @ u16_to_le_bytes 0
             @ u16_to_le_bytes 0
             @ u32_to_le_bytes 0
             @ u32_to_le_bytes offset
             @ ze_file_name entry))"

definition encode_central_directory :: "ZipWriter \<Rightarrow> bytes outcome" where
  "encode_central_directory self =
     (case expect_u32 ''Central directory offset didn't fit in u32'' (zw_current_offset self) of
        Inl e \<Rightarrow> Inl e
      | Inr central_directory_offset \<Rightarrow>
     (case expect_u16 ''Entry count did not fit in u16'' (length (zw_entries self)) of
        Inl e \<Rightarrow> Inl e
      | Inr entry_count \<Rightarrow>
     (case encode_central_entries (zw_entries self) [] of
        Inl e \<Rightarrow> Inl e
      | Inr buf \<Rightarrow>
     (case expect_u32 ''Central directory size didn't fit in u32'' (length buf) of
        Inl e \<Rightarrow> Inl e
      | Inr central_directory_size \<Rightarrow>
          Inr (buf
            @ u32_to_le_bytes 0x06054b50
            @ u16_to_le_bytes 0
            @ u16_to_le_bytes 0
            @ u16_to_le_bytes entry_count
            @ u16_to_le_bytes entry_count
            @ u32_to_le_bytes central_directory_size
            @ u32_to_le_bytes central_directory_offset
            @ u16_to_le_bytes 0)))))"

fun central_directory_size_loop :: "ZipEntryMetadata list \<Rightarrow> nat \<Rightarrow> nat" where
  "central_directory_size_loop [] sz = sz"
| "central_directory_size_loop (entry # entries) sz =
     central_directory_size_loop entries
       (sz + (CENTRAL_DIRECTORY_ENTRY_SIZE + length (ze_file_name entry)))"

definition central_directory_size :: "ZipWriter \<Rightarrow> nat" where
  "central_directory_size self =
     central_directory_size_loop (zw_entries self) 0 + END_OF_CENTRAL_DIRECTORY_SIZE"

definition current_size :: "ZipWriter \<Rightarrow> nat" where
  "current_size self = zw_current_offset self"

section \<open>A reader of the ZIP format\<close>

text \<open>
  The reference: a reader written from the format, not from the writer. It finds the end of
  central directory record at the end of the archive (no comment), walks the central
  directory, follows each entry to its local header, and checks that the two agree, that
  the entry is stored without compression and that the data has the recorded CRC.
\<close>

definition read_u16 :: "bytes \<Rightarrow> (u16 \<times> bytes) option" where
  "read_u16 bs = (case bs of b0 # b1 # rest \<Rightarrow> Some (u16_of_le b0 b1, rest) | _ \<Rightarrow> None)"

definition read_u32 :: "bytes \<Rightarrow> (u32 \<times> bytes) option" where
  "read_u32 bs = (case bs of b0 # b1 # b2 # b3 # rest \<Rightarrow> Some (u32_of_le b0 b1 b2 b3, rest) | _ \<Rightarrow> None)"

definition read_take :: "nat \<Rightarrow> bytes \<Rightarrow> (bytes \<times> bytes) option" where
  "read_take n bs = (if n \<le> length bs then Some (take n bs, drop n bs) else None)"

definition guard :: "bool \<Rightarrow> unit option" where
  "guard b = (if b then Some () else None)"

definition read_local :: "bytes \<Rightarrow> (bytes \<times> u32 \<times> bytes) option" where
  "read_local bs = do {
     (sig, bs) \<leftarrow> read_u32 bs; guard (sig = 0x04034b50);
     (ver, bs) \<leftarrow> read_u16 bs; (flags, bs) \<leftarrow> read_u16 bs; (meth, bs) \<leftarrow> read_u16 bs; guard (meth = 0);
     (mtime, bs) \<leftarrow> read_u16 bs; (mdate, bs) \<leftarrow> read_u16 bs;
     (crc, bs) \<leftarrow> read_u32 bs; (csize, bs) \<leftarrow> read_u32 bs; (usize, bs) \<leftarrow> read_u32 bs; guard (csize = usize);
     (nlen, bs) \<leftarrow> read_u16 bs; (xlen, bs) \<leftarrow> read_u16 bs;
     (name, bs) \<leftarrow> read_take (unat nlen) bs; (extra, bs) \<leftarrow> read_take (unat xlen) bs;
     (data, bs) \<leftarrow> read_take (unat csize) bs;
     Some (name, crc, data) }"

definition read_central_entry :: "bytes \<Rightarrow> ((bytes \<times> u32 \<times> u32 \<times> u32) \<times> bytes) option" where
  "read_central_entry bs = do {
     (sig, bs) \<leftarrow> read_u32 bs; guard (sig = 0x02014b50);
     (made, bs) \<leftarrow> read_u16 bs; (ver, bs) \<leftarrow> read_u16 bs; (flags, bs) \<leftarrow> read_u16 bs;
     (meth, bs) \<leftarrow> read_u16 bs; guard (meth = 0);
     (mtime, bs) \<leftarrow> read_u16 bs; (mdate, bs) \<leftarrow> read_u16 bs;
     (crc, bs) \<leftarrow> read_u32 bs; (csize, bs) \<leftarrow> read_u32 bs; (usize, bs) \<leftarrow> read_u32 bs; guard (csize = usize);
     (nlen, bs) \<leftarrow> read_u16 bs; (xlen, bs) \<leftarrow> read_u16 bs; (clen, bs) \<leftarrow> read_u16 bs;
     (disk, bs) \<leftarrow> read_u16 bs; guard (disk = 0);
     (iattr, bs) \<leftarrow> read_u16 bs; (eattr, bs) \<leftarrow> read_u32 bs; (offset, bs) \<leftarrow> read_u32 bs;
     (name, bs) \<leftarrow> read_take (unat nlen) bs; (extra, bs) \<leftarrow> read_take (unat xlen) bs;
     (comment, bs) \<leftarrow> read_take (unat clen) bs;
     Some ((name, crc, csize, offset), bs) }"

fun read_central :: "nat \<Rightarrow> bytes \<Rightarrow> ((bytes \<times> u32 \<times> u32 \<times> u32) list \<times> bytes) option" where
  "read_central 0 bs = Some ([], bs)"
| "read_central (Suc n) bs = do {
     (e, bs) \<leftarrow> read_central_entry bs; (es, bs) \<leftarrow> read_central n bs; Some (e # es, bs) }"

definition read_file :: "Crc \<Rightarrow> bytes \<Rightarrow> (bytes \<times> u32 \<times> u32 \<times> u32) \<Rightarrow> (bytes \<times> bytes) option" where
  "read_file crc archive e = (case e of (name, c, sz, offset) \<Rightarrow> do {
     (name', c', data) \<leftarrow> read_local (drop (unat offset) archive);
     guard (name' = name \<and> c' = c \<and> length data = unat sz \<and> crc_checksum crc data = c);
     Some (name, data) })"

fun read_files :: "Crc \<Rightarrow> bytes \<Rightarrow> (bytes \<times> u32 \<times> u32 \<times> u32) list \<Rightarrow> (bytes \<times> bytes) list option" where
  "read_files crc archive [] = Some []"
| "read_files crc archive (e # es) = do {
     f \<leftarrow> read_file crc archive e; fs \<leftarrow> read_files crc archive es; Some (f # fs) }"

definition zip_read :: "Crc \<Rightarrow> bytes \<Rightarrow> (bytes \<times> bytes) list option" where
  "zip_read crc archive = do {
     guard (22 \<le> length archive);
     (sig, bs) \<leftarrow> read_u32 (drop (length archive - 22) archive); guard (sig = 0x06054b50);
     (disk, bs) \<leftarrow> read_u16 bs; (cd_disk, bs) \<leftarrow> read_u16 bs; guard (disk = 0 \<and> cd_disk = 0);
     (n_here, bs) \<leftarrow> read_u16 bs; (n, bs) \<leftarrow> read_u16 bs; guard (n_here = n);
     (sz, bs) \<leftarrow> read_u32 bs; (offset, bs) \<leftarrow> read_u32 bs;
     (clen, bs) \<leftarrow> read_u16 bs; guard (clen = 0);
     (entries, bs) \<leftarrow> read_central (unat n) (drop (unat offset) archive);
     guard (length (drop (unat offset) archive) - length bs = unat sz);
     read_files crc archive entries }"

lemma read_u16_le [simp]: "read_u16 (u16_to_le_bytes w @ rest) = Some (w, rest)"
  by (simp add: read_u16_def u16_to_le_bytes_def)

lemma read_u16_le_exact [simp]: "read_u16 (u16_to_le_bytes w) = Some (w, [])"
  using read_u16_le [of w "[]"] by simp

lemma read_u32_le [simp]: "read_u32 (u32_to_le_bytes w @ rest) = Some (w, rest)"
  by (simp add: read_u32_def u32_to_le_bytes_def)

lemma read_take_append [simp]: "length xs = n \<Longrightarrow> read_take n (xs @ rest) = Some (xs, rest)"
  by (auto simp: read_take_def)

lemma read_take_0 [simp]: "read_take 0 bs = Some ([], bs)"
  by (simp add: read_take_def)

lemma guard_True [simp]: "guard True = Some ()" "b \<Longrightarrow> guard b = Some ()"
  by (simp_all add: guard_def)

section \<open>The archive reads back\<close>

lemma unat_of_nat_u32: "n < 2 ^ 32 \<Longrightarrow> unat (of_nat n :: u32) = n"
  by (simp add: unat_of_nat)

lemma unat_of_nat_u16: "n < 2 ^ 16 \<Longrightarrow> unat (of_nat n :: u16) = n"
  by (simp add: unat_of_nat)

lemma expect_u32_Inr_iff: "expect_u32 msg n = Inr w \<longleftrightarrow> n < 2 ^ 32 \<and> w = of_nat n"
  by (auto simp: expect_u32_def)

lemma expect_u16_Inr_iff: "expect_u16 msg n = Inr w \<longleftrightarrow> n < 2 ^ 16 \<and> w = of_nat n"
  by (auto simp: expect_u16_def)

lemmas expect_simps = expect_u32_Inr_iff expect_u16_Inr_iff unat_of_nat_u32 unat_of_nat_u16

text \<open>
  An entry of the writer describes a file of the stream: sizes, CRC, and a local header at
  its offset from which the file is read, whatever is appended later.
\<close>

definition entry_at :: "Crc \<Rightarrow> bytes \<Rightarrow> ZipEntryMetadata \<Rightarrow> bytes \<times> bytes \<Rightarrow> bool" where
  "entry_at crc out e f \<longleftrightarrow>
     ze_file_name e = fst f \<and> unat (ze_file_name_size e) = length (fst f)
     \<and> unat (ze_data_size e) = length (snd f) \<and> ze_data_crc e = crc_checksum crc (snd f)
     \<and> ze_start_offset e \<le> length out
     \<and> (\<forall>rest. read_local (drop (ze_start_offset e) out @ rest) = Some (fst f, ze_data_crc e, snd f))"

definition zip_inv :: "Crc \<Rightarrow> ZipWriter \<Rightarrow> bytes \<Rightarrow> (bytes \<times> bytes) list \<Rightarrow> bool" where
  "zip_inv crc w out files \<longleftrightarrow>
     zw_current_offset w = length out \<and> list_all2 (entry_at crc out) (zw_entries w) files
     \<and> length out = (\<Sum>f\<leftarrow>files. 30 + length (fst f) + length (snd f))"

lemma entry_at_append: "entry_at crc out e f \<Longrightarrow> entry_at crc (out @ more_out) e f"
  by (auto simp: entry_at_def)

lemma zip_inv_new: "zip_inv crc ZipWriter_new [] []"
  by (simp add: zip_inv_def ZipWriter_new_def)

lemma encode_file_header_eq:
  "encode_file_header crc w name data = Inr (hdr, w') \<longleftrightarrow>
     length data < 2 ^ 32 \<and> length name < 2 ^ 16
     \<and> hdr = u32_to_le_bytes 0x04034b50 @ u16_to_le_bytes 45 @ u16_to_le_bytes 0 @ u16_to_le_bytes 0
          @ u16_to_le_bytes 0 @ u16_to_le_bytes 0 @ u32_to_le_bytes (crc_checksum crc data)
          @ u32_to_le_bytes (of_nat (length data)) @ u32_to_le_bytes (of_nat (length data))
          @ u16_to_le_bytes (of_nat (length name)) @ u16_to_le_bytes 0 @ name
     \<and> w' = w\<lparr>zw_entries := zw_entries w @ [\<lparr>ze_start_offset = zw_current_offset w, ze_file_name = name,
               ze_file_name_size = of_nat (length name), ze_data_size = of_nat (length data),
               ze_data_crc = crc_checksum crc data\<rparr>],
             zw_current_offset := zw_current_offset w + length hdr + length data\<rparr>"
  by (auto simp: encode_file_header_def Let_def case_Inr_iff expect_u32_Inr_iff expect_u16_Inr_iff)

lemma zip_inv_encode_file_header:
  assumes "zip_inv crc w out files" and "encode_file_header crc w name data = Inr (hdr, w')"
  shows "zip_inv crc w' (out @ hdr @ data) (files @ [(name, data)])"
proof -
  note hdr = assms(2) [unfolded encode_file_header_eq]
  from assms(1) have off: "zw_current_offset w = length out"
    and ents: "list_all2 (entry_at crc (out @ hdr @ data)) (zw_entries w) files"
    and len: "length out = (\<Sum>f\<leftarrow>files. 30 + length (fst f) + length (snd f))"
    by (auto simp: zip_inv_def entry_at_append elim: list_all2_mono)
  have "read_local (hdr @ data @ rest) = Some (name, crc_checksum crc data, data)" for rest
    using hdr by (simp add: read_local_def unat_of_nat_u32 unat_of_nat_u16)
  with hdr off have "entry_at crc (out @ hdr @ data)
      \<lparr>ze_start_offset = zw_current_offset w, ze_file_name = name,
       ze_file_name_size = of_nat (length name), ze_data_size = of_nat (length data),
       ze_data_crc = crc_checksum crc data\<rparr> (name, data)"
    by (simp add: entry_at_def unat_of_nat_u32 unat_of_nat_u16)
  moreover have "length hdr = 30 + length name" using hdr by simp
  ultimately show ?thesis using hdr off ents len
    by (simp add: zip_inv_def list_all2_appendI)
qed

text \<open>The central directory: what the reader sees of an entry, and the size computed ahead.\<close>

definition central_view :: "ZipEntryMetadata \<Rightarrow> bytes \<times> u32 \<times> u32 \<times> u32" where
  "central_view e = (ze_file_name e, ze_data_crc e, ze_data_size e, of_nat (ze_start_offset e))"

lemma central_directory_size_loop_eq:
  "central_directory_size_loop es sz = sz + (\<Sum>e\<leftarrow>es. 46 + length (ze_file_name e))"
  by (induction es sz rule: central_directory_size_loop.induct)
    (auto simp: CENTRAL_DIRECTORY_ENTRY_SIZE_def)

text \<open>The size of an archive of given files, without padding.\<close>

definition zip_size :: "(bytes \<times> bytes) list \<Rightarrow> nat" where
  "zip_size files = 22 + (\<Sum>f\<leftarrow>files. 76 + 2 * length (fst f) + length (snd f))"

lemma zip_inv_size:
  assumes "zip_inv crc w out files"
  shows "length out + central_directory_size w = zip_size files"
proof -
  have "(\<Sum>e\<leftarrow>zw_entries w. 46 + length (ze_file_name e)) = (\<Sum>f\<leftarrow>files. 46 + length (fst f))"
    using assms by (auto simp: zip_inv_def list_all2_conv_all_nth entry_at_def intro!: arg_cong [of _ _ sum_list]
        nth_equalityI)
  moreover have "(\<Sum>f\<leftarrow>fs. 30 + length (fst f) + length (snd f)) + (\<Sum>f\<leftarrow>fs. 46 + length (fst f))
      = (\<Sum>f\<leftarrow>fs. 76 + 2 * length (fst f) + length (snd f))" for fs :: "(bytes \<times> bytes) list"
    by (induction fs) auto
  ultimately show ?thesis using assms
    by (simp add: zip_size_def zip_inv_def central_directory_size_def central_directory_size_loop_eq
        END_OF_CENTRAL_DIRECTORY_SIZE_def)
qed

lemma encode_central_entries_spec:
  assumes "encode_central_entries es buf = Inr buf'"
  shows "\<exists>dir. buf' = buf @ dir \<and> length dir = (\<Sum>e\<leftarrow>es. 46 + length (ze_file_name e))
     \<and> list_all (\<lambda>e. ze_start_offset e < 2 ^ 32) es
     \<and> (list_all (\<lambda>e. unat (ze_file_name_size e) = length (ze_file_name e)) es \<longrightarrow>
          (\<forall>rest. read_central (length es) (dir @ rest) = Some (map central_view es, rest)))"
  using assms
proof (induction es buf arbitrary: buf' rule: encode_central_entries.induct)
  case (2 e es buf)
  define one where "one = u32_to_le_bytes 0x02014b50 @ u16_to_le_bytes 45 @ u16_to_le_bytes 45
    @ u16_to_le_bytes 0 @ u16_to_le_bytes 0 @ u16_to_le_bytes 0 @ u16_to_le_bytes 0
    @ u32_to_le_bytes (ze_data_crc e) @ u32_to_le_bytes (ze_data_size e) @ u32_to_le_bytes (ze_data_size e)
    @ u16_to_le_bytes (ze_file_name_size e) @ u16_to_le_bytes 0 @ u16_to_le_bytes 0 @ u16_to_le_bytes 0
    @ u16_to_le_bytes 0 @ u32_to_le_bytes 0 @ u32_to_le_bytes (of_nat (ze_start_offset e)) @ ze_file_name e"
  from "2.prems" have off: "expect_u32 ''Entry offset didn't fit in u32'' (ze_start_offset e)
      = Inr (of_nat (ze_start_offset e))" "ze_start_offset e < 2 ^ 32"
    and rec: "encode_central_entries es (buf @ one) = Inr buf'"
    by (auto simp: case_Inr_iff expect_u32_Inr_iff one_def)
  obtain dir where dir: "buf' = (buf @ one) @ dir" "length dir = (\<Sum>e\<leftarrow>es. 46 + length (ze_file_name e))"
    "list_all (\<lambda>e. ze_start_offset e < 2 ^ 32) es"
    "list_all (\<lambda>e. unat (ze_file_name_size e) = length (ze_file_name e)) es \<Longrightarrow>
       read_central (length es) (dir @ rest) = Some (map central_view es, rest)" for rest
    using "2.IH" [OF off(1)] rec unfolding one_def by auto
  have "read_central_entry (one @ rest) = Some (central_view e, rest)"
    if "unat (ze_file_name_size e) = length (ze_file_name e)" for rest
    using that by (simp add: read_central_entry_def central_view_def one_def)
  moreover have "length one = 46 + length (ze_file_name e)" by (simp add: one_def)
  ultimately show ?case
    using dir off by (intro exI [of _ "one @ dir"]) auto
qed simp

lemma zip_inv_names:
  "zip_inv crc w out files \<Longrightarrow> list_all (\<lambda>e. unat (ze_file_name_size e) = length (ze_file_name e)) (zw_entries w)"
  by (auto simp: zip_inv_def list_all2_conv_all_nth list_all_length entry_at_def)

lemma read_files_spec:
  assumes "list_all2 (entry_at crc out) es files" and "list_all (\<lambda>e. ze_start_offset e < 2 ^ 32) es"
  shows "read_files crc (out @ rest) (map central_view es) = Some files"
  using assms
proof (induction es files rule: list_all2_induct)
  case (Cons e es f files)
  then have "read_file crc (out @ rest) (central_view e) = Some f"
    by (auto simp: read_file_def central_view_def entry_at_def unat_of_nat_u32)
  with Cons show ?case by simp
qed simp

lemma length_encode_central_directory:
  "encode_central_directory w = Inr footer \<Longrightarrow> length footer = central_directory_size w"
  by (auto simp: encode_central_directory_def case_Inr_iff central_directory_size_def
      central_directory_size_loop_eq END_OF_CENTRAL_DIRECTORY_SIZE_def dest!: encode_central_entries_spec)

lemma zip_read_archive:
  assumes inv: "zip_inv crc w out files"
    and footer: "encode_central_directory (advance_offset w (length pad)) = Inr footer"
  shows "zip_read crc (out @ pad @ footer) = Some files"
proof -
  let ?n = "length (zw_entries w)"
  let ?off = "length out + length pad"
  from footer inv obtain dir where
    off: "?off < 2 ^ 32" and n: "?n < 2 ^ 16" and dir: "encode_central_entries (zw_entries w) [] = Inr dir"
    and sz: "length dir < 2 ^ 32"
    and ft: "footer = dir @ u32_to_le_bytes 0x06054b50 @ u16_to_le_bytes 0 @ u16_to_le_bytes 0
        @ u16_to_le_bytes (of_nat ?n) @ u16_to_le_bytes (of_nat ?n)
        @ u32_to_le_bytes (of_nat (length dir)) @ u32_to_le_bytes (of_nat ?off) @ u16_to_le_bytes 0"
    by (auto simp: encode_central_directory_def advance_offset_def case_Inr_iff expect_u32_Inr_iff
        expect_u16_Inr_iff zip_inv_def)
  from encode_central_entries_spec [OF dir] zip_inv_names [OF inv]
  have offs: "list_all (\<lambda>e. ze_start_offset e < 2 ^ 32) (zw_entries w)"
    and rd: "read_central ?n (dir @ rest) = Some (map central_view (zw_entries w), rest)" for rest
    by auto
  have "read_files crc (out @ pad @ footer) (map central_view (zw_entries w)) = Some files"
    using inv offs by (intro read_files_spec) (auto simp: zip_inv_def)
  moreover have "unat (of_nat (length out) + of_nat (length pad) :: u32) = ?off"
    using unat_of_nat_u32 [OF off] by simp
  ultimately show ?thesis
    using n sz rd by (simp add: zip_read_def ft unat_of_nat_u32 unat_of_nat_u16 drop_append)
qed

text \<open>The central directory is encoded unless something does not fit its field.\<close>

lemma encode_central_entries_ok:
  "list_all (\<lambda>e. ze_start_offset e < 2 ^ 32) es \<Longrightarrow> \<exists>buf'. encode_central_entries es buf = Inr buf'"
  by (induction es buf rule: encode_central_entries.induct) (auto simp: expect_u32_def)

lemma zip_inv_encode_central:
  assumes "zip_inv crc w out files" and "length files < 2 ^ 16"
    and "length out + n + central_directory_size w < 2 ^ 32"
  shows "\<exists>footer. encode_central_directory (advance_offset w n) = Inr footer"
proof -
  from assms(1) have "zw_current_offset w = length out" "length (zw_entries w) = length files"
    and "list_all (\<lambda>e. ze_start_offset e < 2 ^ 32) (zw_entries w)"
    using assms(3) by (auto simp: zip_inv_def list_all2_conv_all_nth list_all_length entry_at_def
        dest: order.strict_trans1)
  moreover from this(3) obtain dir where "encode_central_entries (zw_entries w) [] = Inr dir"
    using encode_central_entries_ok by blast
  moreover from this have "length dir < 2 ^ 32"
    using encode_central_entries_spec assms(3)
    by (fastforce simp: central_directory_size_def central_directory_size_loop_eq)
  ultimately show ?thesis
    using assms(2,3) by (simp add: encode_central_directory_def advance_offset_def expect_u32_def expect_u16_def)
qed

section \<open>Writing a list of files\<close>

text \<open>The stream a client of the writer emits: for each file its header and then its data.\<close>

fun write_files :: "Crc \<Rightarrow> ZipWriter \<Rightarrow> (bytes \<times> bytes) list \<Rightarrow> (bytes \<times> ZipWriter) outcome" where
  "write_files crc w [] = Inr ([], w)"
| "write_files crc w ((name, data) # files) =
     (case encode_file_header crc w name data of
        Inl e \<Rightarrow> Inl e
      | Inr (hdr, w') \<Rightarrow>
     (case write_files crc w' files of
        Inl e \<Rightarrow> Inl e
      | Inr (out, w'') \<Rightarrow> Inr (hdr @ data @ out, w'')))"

lemma zip_inv_write_files:
  "zip_inv crc w out files \<Longrightarrow> write_files crc w new_files = Inr (new_out, w')
     \<Longrightarrow> zip_inv crc w' (out @ new_out) (files @ new_files)"
proof (induction crc w new_files arbitrary: out files new_out rule: write_files.induct)
  case (2 crc w name data new_files)
  then obtain hdr w1 rest where step: "encode_file_header crc w name data = Inr (hdr, w1)"
    and rec: "write_files crc w1 new_files = Inr (rest, w')" and out: "new_out = hdr @ data @ rest"
    by (auto simp: case_Inr_iff)
  from "2.IH" [OF step refl zip_inv_encode_file_header [OF "2.prems"(1) step] rec]
  show ?case by (simp add: out)
qed simp

section \<open>Properties\<close>

text \<open>
  C23. An archive reads back as the files written to it: the headers and data of any list of
  files, then any padding the writer was told of with \<open>advance_offset\<close>, then the central
  directory, is a ZIP archive from which an independent reader gets exactly those files,
  in order, each with the right name, contents and CRC.
\<close>

theorem zip_archive_reads_back:
  assumes "write_files ZIP_CRC ZipWriter_new files = Inr (out, w)"
    and "encode_central_directory (advance_offset w (length pad)) = Inr footer"
  shows "zip_read ZIP_CRC (out @ pad @ footer) = Some files"
proof -
  have "zip_inv ZIP_CRC w out files"
    using zip_inv_write_files [OF zip_inv_new assms(1)] by simp
  then show ?thesis using assms(2) by (rule zip_read_archive)
qed

theorem zip_archive_reads_back_witness:
  "\<exists>out w footer.
     write_files crc32_iso_hdlc ZipWriter_new [([0x61], [1, 2, 3]), ([0x62, 0x63], [])] = Inr (out, w)
     \<and> encode_central_directory (advance_offset w (length [0, 0, 7 :: u8])) = Inr footer
     \<and> zip_read crc32_iso_hdlc (out @ [0, 0, 7] @ footer) = Some [([0x61], [1, 2, 3]), ([0x62, 0x63], [])]"
proof -
  obtain out w where w: "write_files crc32_iso_hdlc ZipWriter_new [([0x61], [1, 2, 3]), ([0x62, 0x63], [])] = Inr (out, w)"
    by (auto simp: encode_file_header_def expect_u32_def expect_u16_def ZipWriter_new_def Let_def)
  then obtain footer where "encode_central_directory (advance_offset w (length [0, 0, 7 :: u8])) = Inr footer"
    by (auto simp: encode_file_header_def expect_u32_def expect_u16_def ZipWriter_new_def Let_def
        encode_central_directory_def advance_offset_def)
  with w zip_archive_reads_back [OF w this] show ?thesis by blast
qed

text \<open>
  The size the writer announces for its central directory before encoding it is the
  size of the encoding, whenever the encoding succeeds; what \<open>advance_offset\<close> adds does
  not change it. The writer's offset is the number of bytes it has emitted, and together they
  make 22 bytes and, for each file, its data, twice its name and 76 bytes.
\<close>

theorem zip_sizes_are_exact:
  assumes "write_files ZIP_CRC ZipWriter_new files = Inr (out, w)"
    and "encode_central_directory (advance_offset w n) = Inr footer"
  shows "length footer = central_directory_size w \<and> current_size w = length out
     \<and> current_size (advance_offset w n) = length out + n
     \<and> current_size w + central_directory_size w = zip_size files"
proof -
  have inv: "zip_inv ZIP_CRC w out files"
    using zip_inv_write_files [OF zip_inv_new assms(1)] by simp
  then have "current_size w = length out" by (simp add: zip_inv_def current_size_def)
  moreover have "central_directory_size (advance_offset w n) = central_directory_size w"
    by (simp add: central_directory_size_def advance_offset_def)
  ultimately show ?thesis
    using length_encode_central_directory [OF assms(2)] zip_inv_size [OF inv]
    by (simp add: current_size_def advance_offset_def)
qed

theorem zip_sizes_are_exact_witness:
  "\<exists>out w footer.
     write_files crc32_iso_hdlc ZipWriter_new [([0x61], [1, 2, 3])] = Inr (out, w)
     \<and> encode_central_directory (advance_offset w 5) = Inr footer
     \<and> length footer = central_directory_size w \<and> current_size (advance_offset w 5) = length out + 5"
proof -
  obtain out w where w: "write_files crc32_iso_hdlc ZipWriter_new [([0x61], [1, 2, 3])] = Inr (out, w)"
    by (auto simp: encode_file_header_def expect_u32_def expect_u16_def ZipWriter_new_def Let_def)
  then obtain footer where "encode_central_directory (advance_offset w 5) = Inr footer"
    by (auto simp: encode_file_header_def expect_u32_def expect_u16_def ZipWriter_new_def Let_def
        encode_central_directory_def advance_offset_def)
  with w zip_sizes_are_exact [OF w this] show ?thesis by blast
qed

end
