(* ===== verification/Factorio_Protocol.thy ===== *)
theory Factorio_Protocol
  imports Prelude
begin

text \<open>
  The Factorio wire format of \<open>src/src/factorio_protocol.rs\<close> and the variable-length
  integer of \<open>src/src/utils.rs\<close>: packet header, transfer block request and transfer block,
  server heartbeat and the world metadata of its \<open>MapReadyForDownload\<close> action. An encoder
  takes the buffer it appends to; a decoder takes the remaining bytes and returns the
  value with the bytes left over, or the \<open>TryGetError\<close> of the read that failed.
\<close>

unbundle bit_operations_syntax

section \<open>Definitions\<close>

definition TRANSFER_BLOCK_SIZE :: u32 where
  "TRANSFER_BLOCK_SIZE = 503"

datatype PacketType =
    ServerToClientHeartbeat
  | TransferBlockRequest
  | TransferBlock
  | Unknown u8

definition PacketType_from :: "u8 \<Rightarrow> PacketType" where
  "PacketType_from val =
     (if val = 7 then ServerToClientHeartbeat
      else if val = 12 then TransferBlockRequest
      else if val = 13 then TransferBlock
      else Unknown val)"

fun PacketType_into :: "PacketType \<Rightarrow> u8" where
  "PacketType_into ServerToClientHeartbeat = 7"
| "PacketType_into TransferBlockRequest = 12"
| "PacketType_into TransferBlock = 13"
| "PacketType_into (Unknown val) = val"

record FactorioPacketHeader =
  packet_type :: PacketType
  is_fragmented :: bool
  is_last_fragment :: bool

definition FactorioPacketHeader_new_unfragmented :: "PacketType \<Rightarrow> FactorioPacketHeader" where
  "FactorioPacketHeader_new_unfragmented ty =
     \<lparr>packet_type = ty, is_fragmented = False, is_last_fragment = False\<rparr>"

definition FactorioPacketHeader_decode :: "bytes \<Rightarrow> TryGetError + (FactorioPacketHeader \<times> bytes)" where
  "FactorioPacketHeader_decode data =
     (case try_get_u8 data of
        Inl e \<Rightarrow> Inl e
      | Inr (flags, data) \<Rightarrow>
          Inr (\<lparr>packet_type = PacketType_from (flags AND 0b00011111),
                is_fragmented = (flags AND 0b01000000 \<noteq> 0),
                is_last_fragment = (flags AND 0b10000000 \<noteq> 0)\<rparr>, data))"

definition FactorioPacketHeader_encode :: "FactorioPacketHeader \<Rightarrow> bytes \<Rightarrow> bytes" where
  "FactorioPacketHeader_encode self buf =
     (let flags = PacketType_into (packet_type self);
          flags = (if is_fragmented self then flags OR 0b01000000 else flags);
          flags = (if is_last_fragment self then flags OR 0b10000000 else flags)
      in buf @ [flags])"

text \<open>
  The provided method of the trait \<open>FactorioPacket\<close>, over the associated packet type and
  the packet's own encoder.
\<close>

definition encode_full_packet :: "PacketType \<Rightarrow> ('p \<Rightarrow> bytes \<Rightarrow> bytes) \<Rightarrow> 'p \<Rightarrow> bytes" where
  "encode_full_packet PACKET_TYPE encode self =
     encode self
       (FactorioPacketHeader_encode (FactorioPacketHeader_new_unfragmented PACKET_TYPE) [])"

record TransferBlockRequestPacket =
  req_block_id :: u32

definition TransferBlockRequestPacket_decode ::
    "bytes \<Rightarrow> TryGetError + TransferBlockRequestPacket" where
  "TransferBlockRequestPacket_decode data =
     (case try_get_u32_le data of
        Inl e \<Rightarrow> Inl e
      | Inr (block_id, _) \<Rightarrow> Inr \<lparr>req_block_id = block_id\<rparr>)"

definition TransferBlockRequestPacket_encode :: "TransferBlockRequestPacket \<Rightarrow> bytes \<Rightarrow> bytes" where
  "TransferBlockRequestPacket_encode self buf = buf @ u32_to_le_bytes (req_block_id self)"

definition request_full_packet :: "TransferBlockRequestPacket \<Rightarrow> bytes" where
  "request_full_packet = encode_full_packet TransferBlockRequest TransferBlockRequestPacket_encode"

record TransferBlockPacket =
  blk_block_id :: u32
  blk_data :: bytes

definition TransferBlockPacket_decode :: "bytes \<Rightarrow> TryGetError + TransferBlockPacket" where
  "TransferBlockPacket_decode data =
     (case try_get_u32_le data of
        Inl e \<Rightarrow> Inl e
      | Inr (block_id, data) \<Rightarrow> Inr \<lparr>blk_block_id = block_id, blk_data = data\<rparr>)"

definition TransferBlockPacket_encode :: "TransferBlockPacket \<Rightarrow> bytes \<Rightarrow> bytes" where
  "TransferBlockPacket_encode self buf = buf @ u32_to_le_bytes (blk_block_id self) @ blk_data self"

definition block_full_packet :: "TransferBlockPacket \<Rightarrow> bytes" where
  "block_full_packet = encode_full_packet TransferBlock TransferBlockPacket_encode"

definition HasSynchronizerActions :: u8 where
  "HasSynchronizerActions = 0x10"

record ServerToClientHeartbeatPacket =
  hb_flags :: u8
  hb_data :: bytes

definition MAP_READY_FOR_DOWNLOAD_ACTION_ID :: u8 where
  "MAP_READY_FOR_DOWNLOAD_ACTION_ID = 5"

definition ServerToClientHeartbeatPacket_decode ::
    "bytes \<Rightarrow> TryGetError + ServerToClientHeartbeatPacket" where
  "ServerToClientHeartbeatPacket_decode data =
     (case try_get_u8 data of
        Inl e \<Rightarrow> Inl e
      | Inr (flags, data) \<Rightarrow>
          (case try_get_u32_le data of
             Inl e \<Rightarrow> Inl e
           | Inr (_, data) \<Rightarrow> Inr \<lparr>hb_flags = flags, hb_data = data\<rparr>))"

text \<open>\<open>BufExt::try_get_factorio_varint32\<close>: one byte, or \<open>0xFF\<close> and four bytes.\<close>

definition try_get_factorio_varint32 :: "bytes \<Rightarrow> TryGetError + (u32 \<times> bytes)" where
  "try_get_factorio_varint32 data =
     (case try_get_u8 data of
        Inl e \<Rightarrow> Inl e
      | Inr (byte, data) \<Rightarrow>
          if byte = 0xFF then try_get_u32_le data else Inr (ucast byte, data))"

record FactorioWorldMetadata =
  world_size :: u32
  no_idea1 :: u32
  aux_size :: u32
  no_idea2 :: u32
  world_crc :: u32

definition FactorioWorldMetadata_decode :: "bytes \<Rightarrow> TryGetError + (FactorioWorldMetadata \<times> bytes)" where
  "FactorioWorldMetadata_decode data =
     (case try_get_u32_le data of Inl e \<Rightarrow> Inl e | Inr (ws, data) \<Rightarrow>
     (case try_get_u32_le data of Inl e \<Rightarrow> Inl e | Inr (n1, data) \<Rightarrow>
     (case try_get_u32_le data of Inl e \<Rightarrow> Inl e | Inr (as, data) \<Rightarrow>
     (case try_get_u32_le data of Inl e \<Rightarrow> Inl e | Inr (n2, data) \<Rightarrow>
     (case try_get_u32_le data of Inl e \<Rightarrow> Inl e | Inr (wc, data) \<Rightarrow>
        Inr (\<lparr>world_size = ws, no_idea1 = n1, aux_size = as, no_idea2 = n2, world_crc = wc\<rparr>, data))))))"

definition FactorioWorldMetadata_encode :: "FactorioWorldMetadata \<Rightarrow> bytes \<Rightarrow> bytes" where
  "FactorioWorldMetadata_encode self buf =
     buf @ u32_to_le_bytes (world_size self) @ u32_to_le_bytes (no_idea1 self)
       @ u32_to_le_bytes (aux_size self) @ u32_to_le_bytes (no_idea2 self)
       @ u32_to_le_bytes (world_crc self)"

definition try_decode_map_ready ::
    "ServerToClientHeartbeatPacket \<Rightarrow> TryGetError + FactorioWorldMetadata option" where
  "try_decode_map_ready self =
     (if hb_flags self = HasSynchronizerActions then
        (case try_get_factorio_varint32 (hb_data self) of
           Inl e \<Rightarrow> Inl e
         | Inr (action_count, data) \<Rightarrow>
             if action_count > 0 then
               (case try_get_u8 data of
                  Inl e \<Rightarrow> Inl e
                | Inr (action_type, data) \<Rightarrow>
                    if action_type = MAP_READY_FOR_DOWNLOAD_ACTION_ID then
                      (case FactorioWorldMetadata_decode data of
                         Inl e \<Rightarrow> Inl e
                       | Inr (info, _) \<Rightarrow> Inr (Some info))
                    else Inr None)
             else Inr None)
      else Inr None)"

section \<open>The packet header\<close>

lemma PacketType_from_into: "PacketType_into (PacketType_from v) = v"
  by (simp add: PacketType_from_def)

text \<open>The headers the wire can carry: five type bits, and no second name for a known type.\<close>

definition header_wf :: "FactorioPacketHeader \<Rightarrow> bool" where
  "header_wf h \<longleftrightarrow> PacketType_from (PacketType_into (packet_type h) AND 31) = packet_type h"

lemma u8_and_31: "(w :: u8) AND 31 = take_bit 5 w"
  by (simp add: take_bit_eq_mask mask_numeral)

lemma u8_and_64: "(w :: u8) AND 64 = 0 \<longleftrightarrow> \<not> bit w 6"
  using and_exp_eq_0_iff_not_bit [of w 6] by simp

lemma u8_and_128: "(w :: u8) AND 128 = 0 \<longleftrightarrow> \<not> bit w 7"
  using and_exp_eq_0_iff_not_bit [of w 7] by simp

lemma u8_bit_64: "bit (64 :: u8) n \<longleftrightarrow> n = 6"
proof -
  have "bit (2 ^ 6 :: u8) n \<longleftrightarrow> n = 6" by (simp only: bit_exp_iff) auto
  then show ?thesis by simp
qed

lemma u8_bit_128: "bit (128 :: u8) n \<longleftrightarrow> n = 7"
proof -
  have "bit (2 ^ 7 :: u8) n \<longleftrightarrow> n = 7" by (simp only: bit_exp_iff) auto
  then show ?thesis by simp
qed

lemmas u8_flag_simps = u8_and_31 u8_and_64 u8_and_128 bit_or_iff u8_bit_64 u8_bit_128

lemma header_wf_type_bits:
  assumes "header_wf h"
  shows "take_bit 5 (PacketType_into (packet_type h)) = PacketType_into (packet_type h)"
  using assms PacketType_from_into [of "PacketType_into (packet_type h) AND 31"]
  by (simp add: header_wf_def u8_and_31)

lemma header_decode_encode:
  assumes "header_wf h"
  shows "FactorioPacketHeader_decode (FactorioPacketHeader_encode h [] @ rest) = Inr (h, rest)"
proof -
  let ?t = "PacketType_into (packet_type h)"
  have t: "take_bit 5 ?t = ?t" by (rule header_wf_type_bits [OF assms])
  have hi: "\<not> bit ?t n" if "5 \<le> n" for n
    using arg_cong [OF t, where f = "\<lambda>w. bit w n"] that by (simp add: bit_take_bit_iff)
  have "take_bit 5 (?t OR 64) = ?t" "take_bit 5 (?t OR 128) = ?t" "take_bit 5 (?t OR 64 OR 128) = ?t"
    by (simp_all add: t take_bit_or)
  with t hi assms show ?thesis
    by (simp add: FactorioPacketHeader_decode_def FactorioPacketHeader_encode_def Let_def
        u8_flag_simps header_wf_def)
qed

lemma header_encode_decode:
  assumes "FactorioPacketHeader_decode (flags # data) = Inr (h, rest)"
  shows "rest = data \<and> header_wf h \<and> FactorioPacketHeader_encode h [] = [flags AND 0b11011111]"
proof -
  have h: "h = \<lparr>packet_type = PacketType_from (take_bit 5 flags), is_fragmented = bit flags 6,
      is_last_fragment = bit flags 7\<rparr>" and rest: "rest = data"
    using assms by (auto simp: FactorioPacketHeader_decode_def u8_flag_simps)
  have "flags AND 64 = (if bit flags 6 then 64 else 0)" "flags AND 128 = (if bit flags 7 then 128 else 0)"
    by (auto intro!: bit_word_eqI simp only: bit_and_iff u8_bit_64 u8_bit_128 bit_0_eq split: if_splits)
  moreover have "(0b11011111 :: u8) = 31 OR (64 OR 128)" by simp
  then have "flags AND 0b11011111 = flags AND 31 OR (flags AND 64 OR flags AND 128)"
    by (simp only: word_ao_dist2)
  ultimately have "flags AND 0b11011111 = take_bit 5 flags OR (if bit flags 6 then 64 else 0)
      OR (if bit flags 7 then 128 else 0)"
    by (simp add: u8_and_31 or.assoc)
  then show ?thesis
    using h rest
    by (simp add: header_wf_def FactorioPacketHeader_encode_def Let_def PacketType_from_into u8_and_31 or.assoc)
qed

section \<open>Packets and the world metadata\<close>

lemma full_packet_header:
  "FactorioPacketHeader_decode (request_full_packet r)
     = Inr (FactorioPacketHeader_new_unfragmented TransferBlockRequest, u32_to_le_bytes (req_block_id r))"
  "FactorioPacketHeader_decode (block_full_packet b)
     = Inr (FactorioPacketHeader_new_unfragmented TransferBlock,
            u32_to_le_bytes (blk_block_id b) @ blk_data b)"
  using header_decode_encode [of "FactorioPacketHeader_new_unfragmented TransferBlockRequest"]
    header_decode_encode [of "FactorioPacketHeader_new_unfragmented TransferBlock"]
  by (simp_all add: request_full_packet_def block_full_packet_def encode_full_packet_def
      TransferBlockRequestPacket_encode_def TransferBlockPacket_encode_def header_wf_def
      FactorioPacketHeader_new_unfragmented_def PacketType_from_def)

lemma TransferBlockRequestPacket_decode_le [simp]:
  "TransferBlockRequestPacket_decode (u32_to_le_bytes i @ rest) = Inr \<lparr>req_block_id = i\<rparr>"
  by (simp add: TransferBlockRequestPacket_decode_def)

lemma TransferBlockPacket_decode_le [simp]:
  "TransferBlockPacket_decode (u32_to_le_bytes i @ rest) = Inr \<lparr>blk_block_id = i, blk_data = rest\<rparr>"
  by (simp add: TransferBlockPacket_decode_def)

lemma FactorioWorldMetadata_decode_iff:
  "FactorioWorldMetadata_decode data = Inr (m, rest) \<longleftrightarrow> data = FactorioWorldMetadata_encode m [] @ rest"
proof
  assume "FactorioWorldMetadata_decode data = Inr (m, rest)"
  then show "data = FactorioWorldMetadata_encode m [] @ rest"
    by (auto simp: FactorioWorldMetadata_decode_def FactorioWorldMetadata_encode_def
        try_get_u32_le_Inr_iff split: sum.splits prod.splits)
qed (simp add: FactorioWorldMetadata_decode_def FactorioWorldMetadata_encode_def)

lemma length_FactorioWorldMetadata_encode [simp]: "length (FactorioWorldMetadata_encode m buf) = length buf + 20"
  by (simp add: FactorioWorldMetadata_encode_def)

lemma FactorioWorldMetadata_decode_total:
  "20 \<le> length data \<Longrightarrow> \<exists>m rest. FactorioWorldMetadata_decode data = Inr (m, rest)"
  by (auto simp: FactorioWorldMetadata_decode_def try_get_u32_le_def split: list.splits)

lemma FactorioWorldMetadata_decode_short:
  assumes "length data < 20"
  shows "\<exists>e. FactorioWorldMetadata_decode data = Inl e"
proof (cases "FactorioWorldMetadata_decode data")
  case (Inr r)
  then have "data = FactorioWorldMetadata_encode (fst r) [] @ snd r"
    by (simp flip: FactorioWorldMetadata_decode_iff)
  then have "20 \<le> length data" by simp
  with assms show ?thesis by simp
qed simp

text \<open>The encodings of a count the variable-length integer read accepts.\<close>

definition varint32_encodes :: "bytes \<Rightarrow> u32 \<Rightarrow> bool" where
  "varint32_encodes bs n \<longleftrightarrow> (\<exists>b. bs = [b] \<and> b \<noteq> 0xFF \<and> n = ucast b) \<or> bs = 0xFF # u32_to_le_bytes n"

lemma try_get_factorio_varint32_iff:
  "try_get_factorio_varint32 data = Inr (n, rest) \<longleftrightarrow> (\<exists>bs. varint32_encodes bs n \<and> data = bs @ rest)"
  by (cases data)
    (auto simp: try_get_factorio_varint32_def varint32_encodes_def try_get_u32_le_Inr_iff)

lemma heartbeat_decode_iff:
  "ServerToClientHeartbeatPacket_decode body = Inr hb
     \<longleftrightarrow> (\<exists>seq. body = hb_flags hb # u32_to_le_bytes seq @ hb_data hb)"
  by (cases hb)
    (fastforce simp: ServerToClientHeartbeatPacket_decode_def case_Inr_iff try_get_u8_Inr_iff try_get_u32_le_Inr_iff)

lemma try_decode_map_ready_iff:
  "try_decode_map_ready hb = Inr (Some info)
     \<longleftrightarrow> hb_flags hb = HasSynchronizerActions
        \<and> (\<exists>bs count rest. varint32_encodes bs count \<and> count > 0
             \<and> hb_data hb = bs @ MAP_READY_FOR_DOWNLOAD_ACTION_ID # FactorioWorldMetadata_encode info [] @ rest)"
proof -
  have "try_decode_map_ready hb = Inr (Some info)
     \<longleftrightarrow> hb_flags hb = HasSynchronizerActions
        \<and> (\<exists>count data rest. try_get_factorio_varint32 (hb_data hb)
                = Inr (count, MAP_READY_FOR_DOWNLOAD_ACTION_ID # data) \<and> count > 0
             \<and> FactorioWorldMetadata_decode data = Inr (info, rest))"
    by (auto simp: try_decode_map_ready_def case_Inr_iff try_get_u8_Inr_iff split: if_splits)
  then show ?thesis
    by (auto simp: try_get_factorio_varint32_iff FactorioWorldMetadata_decode_iff)
qed

section \<open>Properties\<close>

text \<open>
  The header byte, both ways. A header whose type fits the five type bits under its
  proper name is read back exactly as it was written, with the rest of the buffer
  untouched; a header read from any byte has that form, and writing it gives the byte
  again with the unused bit \<open>0x20\<close> cleared. Only the empty buffer is refused.
\<close>

theorem header_roundtrip:
  "(header_wf h \<longrightarrow> FactorioPacketHeader_decode (FactorioPacketHeader_encode h [] @ rest) = Inr (h, rest))
   \<and> (\<exists>h'. FactorioPacketHeader_decode (flags # data) = Inr (h', data) \<and> header_wf h'
        \<and> FactorioPacketHeader_encode h' [] = [flags AND 0b11011111])
   \<and> FactorioPacketHeader_decode [] = Inl (TryGetError 1 0)"
proof (intro conjI impI)
  show "FactorioPacketHeader_decode (FactorioPacketHeader_encode h [] @ rest) = Inr (h, rest)" if "header_wf h"
    using that by (rule header_decode_encode)
  obtain h' rest' where "FactorioPacketHeader_decode (flags # data) = Inr (h', rest')"
    by (simp add: FactorioPacketHeader_decode_def)
  with header_encode_decode [OF this]
  show "\<exists>h'. FactorioPacketHeader_decode (flags # data) = Inr (h', data) \<and> header_wf h'
        \<and> FactorioPacketHeader_encode h' [] = [flags AND 0b11011111]" by auto
qed (simp add: FactorioPacketHeader_decode_def)

theorem header_roundtrip_witness:
  "header_wf \<lparr>packet_type = Unknown 3, is_fragmented = True, is_last_fragment = False\<rparr>
   \<and> FactorioPacketHeader_decode (FactorioPacketHeader_encode
        \<lparr>packet_type = Unknown 3, is_fragmented = True, is_last_fragment = False\<rparr> [] @ [9])
      = Inr (\<lparr>packet_type = Unknown 3, is_fragmented = True, is_last_fragment = False\<rparr>, [9])"
proof -
  have "header_wf \<lparr>packet_type = Unknown 3, is_fragmented = True, is_last_fragment = False\<rparr>"
    by (simp add: header_wf_def PacketType_from_def)
  with header_roundtrip
    [of "\<lparr>packet_type = Unknown 3, is_fragmented = True, is_last_fragment = False\<rparr>" "[9]" 0 "[]"]
  show ?thesis by blast
qed

text \<open>
  Block requests and transfer blocks survive the wire: decoding the header of a full
  packet and then its body gives the packet back, for every block id and every payload.
\<close>

theorem transfer_packets_roundtrip:
  "(\<exists>h body. FactorioPacketHeader_decode (request_full_packet r) = Inr (h, body)
       \<and> packet_type h = TransferBlockRequest \<and> \<not> is_fragmented h
       \<and> TransferBlockRequestPacket_decode body = Inr r)
   \<and> (\<exists>h body. FactorioPacketHeader_decode (block_full_packet b) = Inr (h, body)
       \<and> packet_type h = TransferBlock \<and> \<not> is_fragmented h
       \<and> TransferBlockPacket_decode body = Inr b)"
  using TransferBlockRequestPacket_decode_le [of "req_block_id r" "[]"]
  by (simp add: full_packet_header FactorioPacketHeader_new_unfragmented_def)

text \<open>
  World metadata: a buffer decodes to some metadata and a rest exactly when it is the
  encoding of that metadata followed by that rest; decoding succeeds on every buffer of
  at least 20 bytes and fails on every shorter one.
\<close>

theorem world_metadata_roundtrip:
  "(FactorioWorldMetadata_decode data = Inr (m, rest) \<longleftrightarrow> data = FactorioWorldMetadata_encode m [] @ rest)
   \<and> ((\<exists>r. FactorioWorldMetadata_decode data = Inr r) \<longleftrightarrow> 20 \<le> length data)"
  using FactorioWorldMetadata_decode_iff [of data m rest] FactorioWorldMetadata_decode_short [of data]
    FactorioWorldMetadata_decode_total [of data] by (cases "20 \<le> length data") auto

text \<open>
  C29. What the server proxy takes for \<open>MapReadyForDownload\<close>: the body of a heartbeat
  yields world metadata exactly when its flags are \<open>HasSynchronizerActions\<close> alone, its
  action count is at least one in either encoding of the count, and its first action has
  id 5 and carries that metadata. Whatever follows is ignored.
\<close>

theorem map_ready_detection:
  "(\<exists>hb. ServerToClientHeartbeatPacket_decode body = Inr hb \<and> try_decode_map_ready hb = Inr (Some info))
   \<longleftrightarrow> (\<exists>seq count bs rest. varint32_encodes bs count \<and> count > 0
        \<and> body = HasSynchronizerActions # u32_to_le_bytes seq @ bs
             @ MAP_READY_FOR_DOWNLOAD_ACTION_ID # FactorioWorldMetadata_encode info [] @ rest)"
proof -
  have "(\<exists>hb. ServerToClientHeartbeatPacket_decode body = Inr hb \<and> try_decode_map_ready hb = Inr (Some info))
     \<longleftrightarrow> (\<exists>data seq. body = HasSynchronizerActions # u32_to_le_bytes seq @ data
          \<and> try_decode_map_ready \<lparr>hb_flags = HasSynchronizerActions, hb_data = data\<rparr> = Inr (Some info))"
    by (simp add: heartbeat_decode_iff try_decode_map_ready_iff)
      (metis ServerToClientHeartbeatPacket.select_convs)
  also have "\<dots> \<longleftrightarrow> (\<exists>seq count bs rest. varint32_encodes bs count \<and> count > 0
        \<and> body = HasSynchronizerActions # u32_to_le_bytes seq @ bs
             @ MAP_READY_FOR_DOWNLOAD_ACTION_ID # FactorioWorldMetadata_encode info [] @ rest)"
    by (simp add: try_decode_map_ready_iff) blast
  finally show ?thesis .
qed

end
