(* ===== verification/World_Dedup.thy ===== *)
theory World_Dedup
  imports Rolling_Chunker Zip_Writer Factorio_Protocol
begin

text \<open>
  Deduplication of a world, \<open>src/src/dedup.rs\<close>: taking the world ZIP apart into file
  descriptions and content-addressed chunks on the server side (\<open>deconstruct_world\<close>,
  \<open>decode_factorio_file\<close>, \<open>chunk_file\<close>), and putting a world ZIP of a given size and CRC
  together again on the client side (\<open>WorldReconstructor\<close>). Third-party code is a
  parameter: the CRC (\<open>Crc\<close>), and in the record \<open>Libs\<close> the BLAKE3 hash, zlib and the ZIP
  reader. Both CRC constants of the sources are built from the same algorithm
  (\<open>program_crcs\<close>), so one parameter stands for both.
\<close>

section \<open>Data\<close>

datatype ChunkKey = ChunkKey bytes

text \<open>
  Its \<open>Serialize\<close> and \<open>Deserialize\<close> implementations, over those of the byte strings of a
  format; \<open>deserialize_32\<close> is \<open>serde_bytes::deserialize\<close> at \<open>[u8; 32]\<close>.
\<close>

definition ChunkKey_serialize :: "(bytes \<Rightarrow> 'r) \<Rightarrow> ChunkKey \<Rightarrow> 'r" where
  "ChunkKey_serialize serialize_bytes self = (case self of ChunkKey data \<Rightarrow> serialize_bytes data)"

definition ChunkKey_deserialize :: "('d \<Rightarrow> bytes outcome) \<Rightarrow> 'd \<Rightarrow> ChunkKey outcome" where
  "ChunkKey_deserialize deserialize_32 deserializer =
     (case deserialize_32 deserializer of Inl e \<Rightarrow> Inl e | Inr data \<Rightarrow> Inr (ChunkKey data))"

lemma ChunkKey_serde:
  assumes "\<And>data. length data = 32 \<Longrightarrow> deserialize_32 (serialize_bytes data) = Inr data"
    and "key = ChunkKey data" and "length data = 32"
  shows "ChunkKey_deserialize deserialize_32 (ChunkKey_serialize serialize_bytes key) = Inr key"
  using assms by (simp add: ChunkKey_serialize_def ChunkKey_deserialize_def)

text \<open>The CRCs of the program: that of the archive members and that of the game, with its reverse.\<close>

definition ZIP_CRC :: Crc where
  "ZIP_CRC = crc32_iso_hdlc"

definition FACTORIO_CRC :: Crc where
  "FACTORIO_CRC = crc32_iso_hdlc"

definition FACTORIO_REV_CRC :: RevCRC where
  "FACTORIO_REV_CRC = RevCRC_new FACTORIO_CRC"

lemma program_crcs: "ZIP_CRC = FACTORIO_CRC" "crc_crate FACTORIO_CRC 0xEDB88320"
  by (simp_all add: ZIP_CRC_def FACTORIO_CRC_def iso_hdlc.crc_crate_axioms)

datatype FactorioFileType = Normal | Zlib

record FactorioFileDescription =
  fd_file_type :: FactorioFileType
  fd_file_name :: bytes
  fd_content_size :: u64
  fd_content_chunks :: "ChunkKey list"

record FactorioWorldDescription =
  wd_files :: "FactorioFileDescription list"
  wd_aux_data :: bytes

record FactorioFile =
  ff_file_type :: FactorioFileType
  ff_data :: bytes

type_synonym chunk_map = "ChunkKey \<rightharpoonup> bytes"

text \<open>
  Third-party functions: \<open>blake3::hash\<close>, \<open>decompress_to_vec_zlib_with_limit\<close> and
  \<open>compress_to_vec_zlib\<close> of \<open>miniz_oxide\<close>, and \<open>zip::ZipArchive\<close>. An archive opens to its
  members in index order or fails; looking a member up may fail, and so may reading it.
\<close>

record Libs =
  blake3_hash :: "bytes \<Rightarrow> bytes"
  inflate_zlib :: "bytes \<Rightarrow> nat \<Rightarrow> bytes outcome"
  deflate_zlib :: "bytes \<Rightarrow> u8 \<Rightarrow> bytes"
  zip_archive :: "bytes \<Rightarrow> (bytes \<times> bytes outcome) outcome list outcome"

definition RECONSTRUCT_DEFLATE_LEVEL :: u8 where
  "RECONSTRUCT_DEFLATE_LEVEL = 1"

section \<open>Files\<close>

text \<open>\<open>rsplit_once('/')\<close> with the whole name as default: what follows the last slash.\<close>

definition base_name :: "bytes \<Rightarrow> bytes" where
  "base_name file_name = rev (takeWhile (\<lambda>b. b \<noteq> 0x2F) (rev file_name))"

text \<open>The bytes of \<open>level.dat\<close>, and the test of a name against \<open>level.dat\<close> and digits.\<close>

definition LEVEL_DAT :: bytes where
  "LEVEL_DAT = [0x6C, 0x65, 0x76, 0x65, 0x6C, 0x2E, 0x64, 0x61, 0x74]"

definition is_level_dat :: "bytes \<Rightarrow> bool" where
  "is_level_dat name \<longleftrightarrow>
     take (length LEVEL_DAT) name = LEVEL_DAT
     \<and> list_all (\<lambda>c. 0x30 \<le> c \<and> c \<le> 0x39) (drop (length LEVEL_DAT) name)"

definition decode_factorio_file :: "Libs \<Rightarrow> bytes \<Rightarrow> bytes \<Rightarrow> FactorioFile outcome" where
  "decode_factorio_file libs file_name file_data =
     (if is_level_dat (base_name file_name) then
        (case inflate_zlib libs file_data 20000000 of
           Inl e \<Rightarrow> Inl e
         | Inr uncompressed_data \<Rightarrow> Inr \<lparr>ff_file_type = Zlib, ff_data = uncompressed_data\<rparr>)
      else Inr \<lparr>ff_file_type = Normal, ff_data = file_data\<rparr>)"

definition encode_factorio_file :: "Libs \<Rightarrow> FactorioFile \<Rightarrow> bytes" where
  "encode_factorio_file libs file =
     (case ff_file_type file of
        Normal \<Rightarrow> ff_data file
      | Zlib \<Rightarrow> deflate_zlib libs (ff_data file) RECONSTRUCT_DEFLATE_LEVEL)"

section \<open>Taking a world apart\<close>

text \<open>The loop of \<open>chunk_file\<close> over the chunks of the chunker.\<close>

fun chunk_file_loop :: "Libs \<Rightarrow> bytes list \<Rightarrow> ChunkKey list \<Rightarrow> chunk_map \<Rightarrow> ChunkKey list \<times> chunk_map" where
  "chunk_file_loop libs [] content_chunks chunks = (content_chunks, chunks)"
| "chunk_file_loop libs (chunk # rest) content_chunks chunks =
     (let hash = ChunkKey (blake3_hash libs chunk)
      in chunk_file_loop libs rest (content_chunks @ [hash]) (chunks(hash \<mapsto> chunk)))"

definition chunk_file ::
    "Libs \<Rightarrow> bytes \<Rightarrow> FactorioFile \<Rightarrow> chunk_map \<Rightarrow> (FactorioFileDescription \<times> chunk_map) outcome" where
  "chunk_file libs file_name file chunks =
     (let (content_chunks, chunks) =
            chunk_file_loop libs (Chunker_collect (Chunker_new (ff_data file))) [] chunks
      in Inr (\<lparr>fd_file_type = ff_file_type file, fd_file_name = file_name,
               fd_content_size = of_nat (length (ff_data file)),
               fd_content_chunks = content_chunks\<rparr>, chunks))"

fun deconstruct_files ::
    "Libs \<Rightarrow> (bytes \<times> bytes outcome) outcome list \<Rightarrow> FactorioFileDescription list \<Rightarrow> chunk_map
       \<Rightarrow> (FactorioFileDescription list \<times> chunk_map) outcome" where
  "deconstruct_files libs [] files chunks = Inr (files, chunks)"
| "deconstruct_files libs (member # members) files chunks =
     (case member of Inl e \<Rightarrow> Inl e | Inr (name, contents) \<Rightarrow>
     (case contents of Inl e \<Rightarrow> Inl e | Inr buf \<Rightarrow>
     (case decode_factorio_file libs name buf of Inl e \<Rightarrow> Inl e | Inr decoded_file \<Rightarrow>
     (case chunk_file libs name decoded_file chunks of Inl e \<Rightarrow> Inl e | Inr (desc, chunks) \<Rightarrow>
        deconstruct_files libs members (files @ [desc]) chunks))))"

definition deconstruct_world ::
    "Libs \<Rightarrow> bytes \<Rightarrow> bytes \<Rightarrow> (FactorioWorldDescription \<times> chunk_map) outcome" where
  "deconstruct_world libs world_data aux_data =
     (case zip_archive libs world_data of
        Inl e \<Rightarrow> Inl e
      | Inr members \<Rightarrow>
     (case deconstruct_files libs members [] Map.empty of
        Inl e \<Rightarrow> Inl e
      | Inr (files, chunks) \<Rightarrow> Inr (\<lparr>wd_files = files, wd_aux_data = aux_data\<rparr>, chunks)))"

section \<open>Putting a world together\<close>

text \<open>The CRC hasher is the register of the crate's digest.\<close>

record WorldReconstructor =
  wr_zip_writer :: ZipWriter
  wr_crc_hasher :: u32

definition WorldReconstructor_new :: "Crc \<Rightarrow> WorldReconstructor" where
  "WorldReconstructor_new crc = \<lparr>wr_zip_writer = ZipWriter_new, wr_crc_hasher = crc_digest crc\<rparr>"

text \<open>The loop that gathers the chunks of a file; \<open>None\<close> is the early \<open>Err(NeedsMoreData)\<close>.\<close>

fun gather_chunks :: "ChunkKey list \<Rightarrow> chunk_map \<Rightarrow> bytes \<Rightarrow> bytes option" where
  "gather_chunks [] chunks buf = Some buf"
| "gather_chunks (chunk_key # keys) chunks buf =
     (case chunks chunk_key of
        Some chunk \<Rightarrow> gather_chunks keys chunks (buf @ chunk)
      | None \<Rightarrow> None)"

text \<open>
  \<open>reconstruct_world_file\<close>: \<open>Inr None\<close> is \<open>Err(NeedsMoreData)\<close>, which leaves the
  reconstructor as it was; a success returns the two byte blocks and the new state. The
  buffer parameter of the source is scratch space the function clears first.
\<close>

definition reconstruct_world_file ::
    "Crc \<Rightarrow> Libs \<Rightarrow> WorldReconstructor \<Rightarrow> FactorioFileDescription \<Rightarrow> chunk_map
       \<Rightarrow> ((bytes \<times> bytes) \<times> WorldReconstructor) option outcome" where
  "reconstruct_world_file crc libs self file_desc chunks =
     (case gather_chunks (fd_content_chunks file_desc) chunks [] of
        None \<Rightarrow> Inr None
      | Some buf \<Rightarrow>
          let file = \<lparr>ff_file_type = fd_file_type file_desc, ff_data = buf\<rparr>;
              file_data = encode_factorio_file libs file
          in case encode_file_header crc (wr_zip_writer self) (fd_file_name file_desc) file_data of
               Inl e \<Rightarrow> Inl e
             | Inr (header, zip_writer) \<Rightarrow>
                 let hasher = crc_update crc (wr_crc_hasher self) header;
                     hasher = crc_update crc hasher file_data
                 in Inr (Some ((header, file_data),
                      \<lparr>wr_zip_writer = zip_writer, wr_crc_hasher = hasher\<rparr>)))"

text \<open>\<open>BytesMut::resize(n, 0)\<close>, and the wrapping \<open>usize\<close> arithmetic of its argument.\<close>

definition bytes_resize :: "bytes \<Rightarrow> nat \<Rightarrow> bytes outcome" where
  "bytes_resize buf n =
     (if n \<le> length buf then Inr (take n buf)
      else if n < 2 ^ 63 then Inr (buf @ replicate (n - length buf) 0)
      else Inl (Panic ''capacity overflow''))"

definition padded_length :: "nat \<Rightarrow> nat \<Rightarrow> nat \<Rightarrow> nat" where
  "padded_length aligned len buf_len = unat (of_nat aligned - of_nat len + of_nat buf_len :: u64)"

definition aligned_length :: "nat \<Rightarrow> nat" where
  "aligned_length len =
     (let block_count = (of_nat len + TRANSFER_BLOCK_SIZE - 1) div TRANSFER_BLOCK_SIZE
      in unat (block_count * TRANSFER_BLOCK_SIZE))"

definition finalize_world_file ::
    "Crc \<Rightarrow> WorldReconstructor \<Rightarrow> FactorioWorldDescription \<Rightarrow> nat \<Rightarrow> u32 \<Rightarrow> bytes outcome" where
  "finalize_world_file crc self world_desc target_world_size target_crc =
     (let current = current_size (wr_zip_writer self);
          zip_footer_size = central_directory_size (wr_zip_writer self);
          total_size = current + zip_footer_size + 4
      in if total_size > target_world_size
         then Inl (Error ''Reconstructed world size won't fit inside of estimated size'')
         else
      let output = replicate (target_world_size - total_size) 0;
          crc_hasher = crc_update crc (wr_crc_hasher self) output;
          zip_writer = advance_offset (wr_zip_writer self) (length output + 4)
      in case encode_central_directory zip_writer of Inl e \<Rightarrow> Inl e | Inr zip_footer \<Rightarrow>
      let forward_crc = crc_finalize crc crc_hasher;
          rev_crc_hasher = RevCRC_digest (RevCRC_new crc) target_crc;
          rev_crc_hasher = RevDigest_update rev_crc_hasher (wd_aux_data world_desc);
          rev_crc_hasher = RevDigest_update rev_crc_hasher zip_footer;
          forge_bytes = forge_crc forward_crc rev_crc_hasher;
          output = output @ forge_bytes @ zip_footer
      in if current + length output \<noteq> target_world_size
         then Inl (Panic ''final world size is not equal to target world size'')
         else
      let crc_hasher = crc_update crc crc_hasher forge_bytes;
          crc_hasher = crc_update crc crc_hasher zip_footer;
          crc_hasher = crc_update crc crc_hasher (wd_aux_data world_desc);
          final_crc = crc_finalize crc crc_hasher
      in if final_crc \<noteq> target_crc then Inl (Panic ''Forging CRC failed'')
         else
      let world_aligned_length = aligned_length target_world_size;
          aux_aligned_length = aligned_length (length (wd_aux_data world_desc))
      in case bytes_resize output (padded_length world_aligned_length target_world_size (length output)) of
           Inl e \<Rightarrow> Inl e
         | Inr output \<Rightarrow>
      let output = output @ wd_aux_data world_desc
      in case bytes_resize output
             (padded_length aux_aligned_length (length (wd_aux_data world_desc)) (length output)) of
           Inl e \<Rightarrow> Inl e
         | Inr output \<Rightarrow>
      if (current + length output) mod unat TRANSFER_BLOCK_SIZE \<noteq> 0
      then Inl (Panic ''assertion failed: final data is aligned'')
      else Inr output)"

section \<open>Content-addressed stores\<close>

text \<open>
  A store of chunks is valid when every chunk is filed under its own hash, which is what
  the client checks of every chunk it takes in. BLAKE3 is injective on the data at hand:
  that is its collision resistance, stated for the finitely many chunks involved.
\<close>

definition chunk_key :: "Libs \<Rightarrow> bytes \<Rightarrow> ChunkKey" where
  "chunk_key libs chunk = ChunkKey (blake3_hash libs chunk)"

definition store_valid :: "Libs \<Rightarrow> chunk_map \<Rightarrow> bool" where
  "store_valid libs m \<longleftrightarrow> (\<forall>k d. m k = Some d \<longrightarrow> k = chunk_key libs d)"

fun store_all :: "Libs \<Rightarrow> bytes list \<Rightarrow> chunk_map \<Rightarrow> chunk_map" where
  "store_all libs [] m = m"
| "store_all libs (c # cs) m = store_all libs cs (m(chunk_key libs c \<mapsto> c))"

lemma store_all_append: "store_all libs (xs @ ys) m = store_all libs ys (store_all libs xs m)"
  by (induction xs arbitrary: m) auto

lemma FactorioFile_eta [simp]: "\<lparr>ff_file_type = ff_file_type f, ff_data = ff_data f\<rparr> = (f :: FactorioFile)"
  by (cases f) simp

lemma store_valid_empty [simp]: "store_valid libs Map.empty"
  by (simp add: store_valid_def)

lemma store_valid_update [simp]: "store_valid libs m \<Longrightarrow> store_valid libs (m(chunk_key libs d \<mapsto> d))"
  by (simp add: store_valid_def)

lemma gather_chunks_eq:
  "gather_chunks keys m buf
     = (if set keys \<subseteq> dom m then Some (buf @ concat (map (\<lambda>k. the (m k)) keys)) else None)"
  by (induction keys m buf rule: gather_chunks.induct) (auto split: option.splits)

lemma chunk_file_loop_eq:
  "chunk_file_loop libs cs keys m
     = (keys @ map (chunk_key libs) cs, store_all libs cs m)"
  by (induction cs arbitrary: keys m) (simp_all add: Let_def flip: chunk_key_def)

lemma dom_store_all:
  "dom (store_all libs cs m) = dom m \<union> chunk_key libs ` set cs"
  by (induction cs arbitrary: m) auto

lemma valid_store_all:
  "store_valid libs m \<Longrightarrow> store_valid libs (store_all libs cs m)"
  by (induction cs arbitrary: m) auto

lemma ran_update_subset: "ran (m(k \<mapsto> v)) \<subseteq> insert v (ran m)"
  by (auto simp: ran_def)

lemma ran_store_all: "ran (store_all libs cs m) \<subseteq> ran m \<union> set cs"
proof (induction cs arbitrary: m)
  case (Cons c cs)
  show ?case
    using Cons.IH [of "m(chunk_key libs c \<mapsto> c)"] ran_update_subset [of m "chunk_key libs c" c]
    by (auto simp del: fun_upd_apply)
qed simp

lemma store_lookup:
  assumes "store_valid libs m" and "inj_on (blake3_hash libs) (insert c (ran m))"
    and "chunk_key libs c \<in> dom m"
  shows "m (chunk_key libs c) = Some c"
proof -
  from assms(3) obtain d where d: "m (chunk_key libs c) = Some d" by auto
  with assms(1) have "blake3_hash libs c = blake3_hash libs d"
    by (auto simp: store_valid_def chunk_key_def)
  with assms(2) d have "c = d" by (auto simp: inj_on_def ran_def)
  with d show ?thesis by simp
qed

lemma gather_valid_store:
  assumes "store_valid libs m" and "inj_on (blake3_hash libs) (set cs \<union> ran m)"
    and "chunk_key libs ` set cs \<subseteq> dom m"
  shows "gather_chunks (map (chunk_key libs) cs) m buf = Some (buf @ concat cs)"
proof -
  have "m (chunk_key libs c) = Some c" if "c \<in> set cs" for c
    using assms that inj_on_subset [OF assms(2), of "insert c (ran m)"] by (intro store_lookup) auto
  then have "map ((\<lambda>k. the (m k)) \<circ> chunk_key libs) cs = cs" by (simp add: map_idI)
  with assms(3) show ?thesis by (simp add: gather_chunks_eq)
qed

lemma chunk_file_spec:
  assumes "chunk_file libs name file m = Inr (desc, m')"
  shows "fd_content_chunks desc = map (chunk_key libs) (chunk_list (ff_data file))
    \<and> fd_file_type desc = ff_file_type file \<and> fd_file_name desc = name
    \<and> m' = store_all libs (chunk_list (ff_data file)) m"
  using assms by (auto simp: chunk_file_def chunk_file_loop_eq chunk_list_def)

section \<open>Alignment arithmetic\<close>

lemma aligned_length_eq:
  assumes "n + 502 < 2 ^ 32"
  shows "aligned_length n = (n + 502) div 503 * 503"
proof -
  have sum: "of_nat n + TRANSFER_BLOCK_SIZE - 1 = (of_nat (n + 502) :: u32)"
    by (simp add: TRANSFER_BLOCK_SIZE_def)
  have "unat (of_nat (n + 502) div TRANSFER_BLOCK_SIZE) = (n + 502) div 503"
    using assms by (subst unat_div_distrib)
      (simp_all add: TRANSFER_BLOCK_SIZE_def unat_of_nat_u32 del: of_nat_add)
  moreover have "(n + 502) div 503 * 503 < 2 ^ 32"
    using assms div_times_less_eq_dividend [of "n + 502" 503] by linarith
  ultimately show ?thesis
    unfolding aligned_length_def Let_def sum
    by (simp add: unat_word_ariths TRANSFER_BLOCK_SIZE_def del: of_nat_add)
qed

lemma aligned_length_bounds:
  assumes "n + 502 < 2 ^ 32"
  shows "n \<le> aligned_length n \<and> aligned_length n < 2 ^ 32 \<and> aligned_length n mod 503 = 0"
proof -
  have eq: "(n + 502) div 503 * 503 + (n + 502) mod 503 = n + 502" by (rule div_mult_mod_eq)
  have "(n + 502) mod 503 < 503" by simp
  with eq have "n \<le> (n + 502) div 503 * 503" by linarith
  moreover from eq assms have "(n + 502) div 503 * 503 < 2 ^ 32" by linarith
  ultimately show ?thesis by (simp only: aligned_length_eq [OF assms]) simp
qed

lemma padded_length_eq:
  assumes "len \<le> aligned" and "aligned < 2 ^ 32" and "buf_len < 2 ^ 33"
  shows "padded_length aligned len buf_len = aligned - len + buf_len"
proof -
  have "of_nat aligned - of_nat len + of_nat buf_len = (of_nat (aligned - len + buf_len) :: u64)"
    using assms(1) by (simp add: of_nat_diff)
  moreover have "unat (of_nat (aligned - len + buf_len) :: u64) = aligned - len + buf_len"
    using assms by (subst unat_of_nat) simp
  ultimately show ?thesis by (simp add: padded_length_def)
qed

lemma bytes_resize_padded:
  assumes "len \<le> aligned" and "aligned < 2 ^ 32" and "length buf < 2 ^ 33"
  shows "bytes_resize buf (padded_length aligned len (length buf)) = Inr (buf @ replicate (aligned - len) 0)"
  using assms by (auto simp: padded_length_eq bytes_resize_def)

section \<open>The reconstructor\<close>

text \<open>
  The state of a reconstructor after it emitted the stream \<open>out\<close>, which holds \<open>files\<close>:
  its ZIP writer describes them and its hasher has seen exactly \<open>out\<close>.
\<close>

definition wr_inv :: "Crc \<Rightarrow> WorldReconstructor \<Rightarrow> bytes \<Rightarrow> (bytes \<times> bytes) list \<Rightarrow> bool" where
  "wr_inv crc r out files \<longleftrightarrow>
     zip_inv crc (wr_zip_writer r) out files
     \<and> wr_crc_hasher r = crc_update crc (crc_digest crc) out"

context crc_crate
begin

lemma wr_inv_new: "wr_inv crc (WorldReconstructor_new crc) [] []"
  by (simp add: wr_inv_def WorldReconstructor_new_def zip_inv_new update_eq)

lemma wr_inv_reconstruct:
  assumes "wr_inv crc r out files"
    and "reconstruct_world_file crc libs r desc m = Inr (Some ((hdr, data), r'))"
  shows "wr_inv crc r' (out @ hdr @ data) (files @ [(fd_file_name desc, data)])
    \<and> (\<exists>buf. gather_chunks (fd_content_chunks desc) m [] = Some buf
         \<and> data = encode_factorio_file libs \<lparr>ff_file_type = fd_file_type desc, ff_data = buf\<rparr>)"
proof -
  from assms(2) obtain buf w' where buf: "gather_chunks (fd_content_chunks desc) m [] = Some buf"
    and data: "data = encode_factorio_file libs \<lparr>ff_file_type = fd_file_type desc, ff_data = buf\<rparr>"
    and enc: "encode_file_header crc (wr_zip_writer r) (fd_file_name desc) data = Inr (hdr, w')"
    and r': "r' = \<lparr>wr_zip_writer = w', wr_crc_hasher = crc_update crc (crc_update crc (wr_crc_hasher r) hdr) data\<rparr>"
    by (auto simp: reconstruct_world_file_def Let_def case_Inr_iff split: option.splits)
  with assms(1) zip_inv_encode_file_header [OF _ enc] show ?thesis
    by (simp add: wr_inv_def update_append)
qed

text \<open>The CRC over padding, forged bytes, footer and auxiliary data is the target.\<close>

lemma forged_stream_crc:
  "crc_finalize crc (crc_update crc (crc_update crc (crc_update crc h
      (forge_crc (crc_finalize crc h)
        (RevDigest_update (RevDigest_update (RevCRC_digest (RevCRC_new crc) target) aux) footer)))
      footer) aux) = target"
  using forge_crc_register [of h target "footer @ aux"]
  by (simp add: RevDigest_update_update update_append) (simp add: finalize xor.assoc)

text \<open>
  The whole of \<open>finalize_world_file\<close>: it refuses a target that is too small, and otherwise
  returns padding, forged bytes, central directory, alignment, auxiliary data, alignment;
  none of its assertions fails.
\<close>

lemma finalize_world_file_spec:
  assumes inv: "wr_inv crc r out files"
    and target: "target + 502 < 2 ^ 32" and aux: "length (wd_aux_data desc) + 502 < 2 ^ 32"
    and count: "length files < 2 ^ 16"
    and fits: "length out + central_directory_size (wr_zip_writer r) + 4 \<le> target"
  shows "\<exists>pad forge footer.
     finalize_world_file crc r desc target target_crc
       = Inr (pad @ forge @ footer @ replicate (aligned_length target - target) 0 @ wd_aux_data desc
           @ replicate (aligned_length (length (wd_aux_data desc)) - length (wd_aux_data desc)) 0)
     \<and> length (out @ pad @ forge @ footer) = target \<and> length forge = 4
     \<and> pad = replicate (target - (length out + central_directory_size (wr_zip_writer r) + 4)) 0
     \<and> encode_central_directory (advance_offset (wr_zip_writer r) (length (pad @ forge))) = Inr footer
     \<and> crc_checksum crc (out @ pad @ forge @ footer @ wd_aux_data desc) = target_crc"
proof -
  let ?zw = "wr_zip_writer r" and ?aux = "wd_aux_data desc"
  define pad :: bytes where "pad = replicate (target - (length out + central_directory_size ?zw + 4)) 0"
  define h where "h = crc_update crc (wr_crc_hasher r) pad"
  from inv have zinv: "zip_inv crc ?zw out files" by (simp add: wr_inv_def)
  then have cur: "current_size ?zw = length out" by (simp add: zip_inv_def current_size_def)
  have off: "length out + (length pad + 4) + central_directory_size ?zw = target"
    using fits by (simp add: pad_def)
  obtain footer where footer: "encode_central_directory (advance_offset ?zw (length pad + 4)) = Inr footer"
    using zip_inv_encode_central [OF zinv, of "length pad + 4"] off target count by auto
  define forge where "forge = forge_crc (crc_finalize crc h)
      (RevDigest_update (RevDigest_update (RevCRC_digest (RevCRC_new crc) target_crc) ?aux) footer)"
  have flen: "length forge = 4" by (simp add: forge_def)
  have len: "length footer = central_directory_size ?zw"
    using length_encode_central_directory [OF footer]
    by (simp add: central_directory_size_def advance_offset_def)
  have crc_ok: "crc_finalize crc (crc_update crc (crc_update crc (crc_update crc h forge) footer) ?aux) = target_crc"
    unfolding forge_def by (rule forged_stream_crc)
  note al = aligned_length_bounds [OF target] aligned_length_bounds [OF aux]
  have total: "length out + length (pad @ forge @ footer) = target"
    using off len flen by simp
  have rs1: "bytes_resize (pad @ forge @ footer)
      (padded_length (aligned_length target) target (length (pad @ forge @ footer)))
      = Inr ((pad @ forge @ footer) @ replicate (aligned_length target - target) 0)"
    using al total target by (intro bytes_resize_padded) auto
  let ?out2 = "((pad @ forge @ footer) @ replicate (aligned_length target - target) 0) @ ?aux"
  have rs2: "bytes_resize ?out2 (padded_length (aligned_length (length ?aux)) (length ?aux) (length ?out2))
      = Inr (?out2 @ replicate (aligned_length (length ?aux) - length ?aux) 0)"
    using al total target aux by (intro bytes_resize_padded) auto
  have "length out + length (?out2 @ replicate (aligned_length (length ?aux) - length ?aux) 0)
      = aligned_length target + aligned_length (length ?aux)"
    using al total unfolding length_append length_replicate by linarith
  with al have "(length out + length (?out2 @ replicate (aligned_length (length ?aux) - length ?aux) 0)) mod 503 = 0"
    by (simp only: mod_eq_0_iff_dvd dvd_add)
  then have "finalize_world_file crc r desc target target_crc
      = Inr (?out2 @ replicate (aligned_length (length ?aux) - length ?aux) 0)"
    using fits footer crc_ok rs1 rs2 total
    unfolding finalize_world_file_def Let_def cur pad_def [symmetric] h_def [symmetric] footer
    by (simp add: TRANSFER_BLOCK_SIZE_def flip: forge_def h_def pad_def)
  moreover have "crc_checksum crc (out @ pad @ forge @ footer @ ?aux) = target_crc"
    using crc_ok inv by (simp add: checksum update_append h_def wr_inv_def)
  ultimately show ?thesis
    using footer flen total by (intro exI [of _ pad] exI [of _ forge] exI [of _ footer]) (simp add: pad_def)
qed

end

section \<open>From one archive to the other\<close>

text \<open>
  The description the server makes of one file of the archive, the chunks it files for it,
  and the file the client writes into the new archive for it.
\<close>

definition describes :: "Libs \<Rightarrow> bytes \<times> bytes \<Rightarrow> FactorioFileDescription \<Rightarrow> bool" where
  "describes libs f d \<longleftrightarrow>
     (\<exists>file. decode_factorio_file libs (fst f) (snd f) = Inr file
        \<and> d = \<lparr>fd_file_type = ff_file_type file, fd_file_name = fst f,
                fd_content_size = of_nat (length (ff_data file)),
                fd_content_chunks = map (chunk_key libs) (chunk_list (ff_data file))\<rparr>)"

definition file_chunks :: "Libs \<Rightarrow> bytes \<times> bytes \<Rightarrow> bytes list" where
  "file_chunks libs f =
     (case decode_factorio_file libs (fst f) (snd f) of Inl e \<Rightarrow> [] | Inr file \<Rightarrow> chunk_list (ff_data file))"

definition recoded :: "Libs \<Rightarrow> bytes \<times> bytes \<Rightarrow> bytes \<times> bytes" where
  "recoded libs f =
     (fst f, case decode_factorio_file libs (fst f) (snd f) of
               Inl e \<Rightarrow> snd f | Inr file \<Rightarrow> encode_factorio_file libs file)"

lemma deconstruct_files_spec:
  assumes "deconstruct_files libs members acc m = Inr (descs, m')"
  shows "\<exists>files ds. members = map (\<lambda>(n, c). Inr (n, Inr c)) files \<and> descs = acc @ ds
     \<and> list_all2 (describes libs) files ds
     \<and> m' = store_all libs (concat (map (file_chunks libs) files)) m"
  using assms
proof (induction libs members acc m rule: deconstruct_files.induct)
  case (2 libs member members acc m)
  then obtain n c ff desc m1 where member: "member = Inr (n, Inr c)"
    and dec: "decode_factorio_file libs n c = Inr ff"
    and chunk: "chunk_file libs n ff m = Inr (desc, m1)"
    and rec: "deconstruct_files libs members (acc @ [desc]) m1 = Inr (descs, m')"
    by (auto simp: case_Inr_iff)
  note IH = "2.IH" [OF member refl refl dec chunk refl rec]
  then obtain files ds where IH: "members = map (\<lambda>(n, c). Inr (n, Inr c)) files" "descs = acc @ desc # ds"
    "list_all2 (describes libs) files ds"
    "m' = store_all libs (concat (map (file_chunks libs) files)) m1" by auto
  have "describes libs (n, c) desc"
    using chunk dec by (auto simp: describes_def chunk_file_def chunk_file_loop_eq chunk_list_def)
  moreover have "file_chunks libs (n, c) = chunk_list (ff_data ff)" using dec by (simp add: file_chunks_def)
  ultimately show ?case using IH member chunk_file_spec [OF chunk]
    by (intro exI [of _ "(n, c) # files"] exI [of _ "desc # ds"]) (simp add: store_all_append)
qed simp

text \<open>The client's loop over the file descriptions, with every chunk at hand.\<close>

fun reconstruct_files ::
    "Crc \<Rightarrow> Libs \<Rightarrow> WorldReconstructor \<Rightarrow> FactorioFileDescription list \<Rightarrow> chunk_map
       \<Rightarrow> (bytes \<times> WorldReconstructor) option outcome" where
  "reconstruct_files crc libs r [] m = Inr (Some ([], r))"
| "reconstruct_files crc libs r (d # ds) m =
     (case reconstruct_world_file crc libs r d m of
        Inl e \<Rightarrow> Inl e
      | Inr None \<Rightarrow> Inr None
      | Inr (Some ((header, data), r')) \<Rightarrow>
          (case reconstruct_files crc libs r' ds m of
             Inl e \<Rightarrow> Inl e
           | Inr None \<Rightarrow> Inr None
           | Inr (Some (out, r'')) \<Rightarrow> Inr (Some (header @ data @ out, r''))))"

lemma gather_described:
  assumes "describes libs f d" and "store_valid libs m"
    and "inj_on (blake3_hash libs) (set (file_chunks libs f) \<union> ran m)"
    and "set (fd_content_chunks d) \<subseteq> dom m"
  shows "\<exists>ff. decode_factorio_file libs (fst f) (snd f) = Inr ff
     \<and> gather_chunks (fd_content_chunks d) m [] = Some (ff_data ff)
     \<and> fd_file_type d = ff_file_type ff \<and> fd_file_name d = fst f"
proof -
  from assms(1) obtain ff where dec: "decode_factorio_file libs (fst f) (snd f) = Inr ff"
    and d: "d = \<lparr>fd_file_type = ff_file_type ff, fd_file_name = fst f,
        fd_content_size = of_nat (length (ff_data ff)),
        fd_content_chunks = map (chunk_key libs) (chunk_list (ff_data ff))\<rparr>"
    by (auto simp: describes_def)
  with assms have "gather_chunks (map (chunk_key libs) (chunk_list (ff_data ff))) m [] = Some (ff_data ff)"
    using gather_valid_store [of libs m "chunk_list (ff_data ff)" "[]"]
    by (simp add: file_chunks_def concat_chunk_list)
  with dec d show ?thesis by simp
qed

lemma reconstruct_described:
  assumes "describes libs f d" and "store_valid libs m"
    and "inj_on (blake3_hash libs) (set (file_chunks libs f) \<union> ran m)"
    and "set (fd_content_chunks d) \<subseteq> dom m"
    and "length (fst f) < 2 ^ 16" and "length (snd (recoded libs f)) < 2 ^ 32"
  shows "\<exists>hdr r'. reconstruct_world_file crc libs r d m = Inr (Some ((hdr, snd (recoded libs f)), r'))"
proof -
  from gather_described [OF assms(1-4)] obtain ff where
    "decode_factorio_file libs (fst f) (snd f) = Inr ff"
    "gather_chunks (fd_content_chunks d) m [] = Some (ff_data ff)"
    "fd_file_type d = ff_file_type ff" "fd_file_name d = fst f" by auto
  with assms(5,6) show ?thesis
    by (simp add: reconstruct_world_file_def recoded_def encode_file_header_def Let_def
        expect_u32_def expect_u16_def)
qed

lemma reconstruct_files_described:
  assumes "crc_crate crc poly" and "list_all2 (describes libs) files ds"
    and "store_valid libs m"
    and "inj_on (blake3_hash libs) (set (concat (map (file_chunks libs) files)) \<union> ran m)"
    and "set (concat (map fd_content_chunks ds)) \<subseteq> dom m"
    and "list_all (\<lambda>f. length (fst f) < 2 ^ 16 \<and> length (snd (recoded libs f)) < 2 ^ 32) files"
    and "wr_inv crc r out0 files0"
  shows "\<exists>out r'. reconstruct_files crc libs r ds m = Inr (Some (out, r'))
     \<and> wr_inv crc r' (out0 @ out) (files0 @ map (recoded libs) files)"
  using assms(2,4-7)
proof (induction files ds arbitrary: r out0 files0 rule: list_all2_induct)
  case (Cons f files d ds)
  from Cons.prems(1) have inj: "inj_on (blake3_hash libs) (set (file_chunks libs f) \<union> ran m)"
    "inj_on (blake3_hash libs) (set (concat (map (file_chunks libs) files)) \<union> ran m)"
    by (auto elim!: inj_on_subset)
  obtain hdr r1 where step: "reconstruct_world_file crc libs r d m = Inr (Some ((hdr, snd (recoded libs f)), r1))"
    using reconstruct_described [OF Cons.hyps(1) assms(3) inj(1), of crc r] Cons.prems by auto
  have name: "fd_file_name d = fst (recoded libs f)"
    using Cons.hyps(1) by (auto simp: describes_def recoded_def)
  have "wr_inv crc r1 (out0 @ hdr @ snd (recoded libs f)) (files0 @ [recoded libs f])"
    using crc_crate.wr_inv_reconstruct [OF assms(1) Cons.prems(4) step] by (simp add: name)
  from Cons.IH [OF inj(2) _ _ this] Cons.prems step show ?case by auto
qed simp

lemma deconstruct_world_spec:
  assumes "deconstruct_world libs world aux = Inr (desc, store)"
  shows "\<exists>files. zip_archive libs world = Inr (map (\<lambda>(n, c). Inr (n, Inr c)) files)
     \<and> list_all2 (describes libs) files (wd_files desc) \<and> wd_aux_data desc = aux
     \<and> store = store_all libs (concat (map (file_chunks libs) files)) Map.empty"
  using assms by (auto simp: deconstruct_world_def case_Inr_iff dest!: deconstruct_files_spec)

lemma described_keys:
  "list_all2 (describes libs) files ds \<Longrightarrow>
     concat (map fd_content_chunks ds) = map (chunk_key libs) (concat (map (file_chunks libs) files))"
  by (induction files ds rule: list_all2_induct) (auto simp: describes_def file_chunks_def)

lemma members_inject:
  "map (\<lambda>(n, c). Inr (n, Inr c)) fs = map (\<lambda>(n, c). Inr (n, Inr c)) gs \<longleftrightarrow> fs = gs"
  by (rule inj_map_eq_map) (auto simp: inj_def)

text \<open>The stream of a reconstruction: archive, alignment, auxiliary data, alignment.\<close>

lemma finalized_stream:
  assumes "crc_crate crc poly" and inv: "wr_inv crc r out files"
    and target: "target + 502 < 2 ^ 32" and aux: "length (wd_aux_data desc) + 502 < 2 ^ 32"
    and count: "length files < 2 ^ 16"
    and fits: "length out + central_directory_size (wr_zip_writer r) + 4 \<le> target"
  shows "\<exists>last. finalize_world_file crc r desc target target_crc = Inr last
     \<and> length (out @ last) = aligned_length target + aligned_length (length (wd_aux_data desc))
     \<and> zip_read crc (take target (out @ last)) = Some files
     \<and> take (length (wd_aux_data desc)) (drop (aligned_length target) (out @ last)) = wd_aux_data desc
     \<and> crc_checksum crc (take target (out @ last) @ wd_aux_data desc) = target_crc"
proof -
  from crc_crate.finalize_world_file_spec [OF assms] obtain pad forge footer where
    fin: "finalize_world_file crc r desc target target_crc
       = Inr (pad @ forge @ footer @ replicate (aligned_length target - target) 0 @ wd_aux_data desc
           @ replicate (aligned_length (length (wd_aux_data desc)) - length (wd_aux_data desc)) 0)"
    and len: "length (out @ pad @ forge @ footer) = target"
    and dir: "encode_central_directory (advance_offset (wr_zip_writer r) (length (pad @ forge))) = Inr footer"
    and crc: "crc_checksum crc (out @ pad @ forge @ footer @ wd_aux_data desc) = target_crc"
    by blast
  let ?last = "pad @ forge @ footer @ replicate (aligned_length target - target) 0 @ wd_aux_data desc
           @ replicate (aligned_length (length (wd_aux_data desc)) - length (wd_aux_data desc)) 0"
  note al = aligned_length_bounds [OF target] aligned_length_bounds [OF aux]
  define archive where "archive = out @ pad @ forge @ footer"
  have stream: "out @ ?last = archive @ replicate (aligned_length target - target) 0 @ wd_aux_data desc
           @ replicate (aligned_length (length (wd_aux_data desc)) - length (wd_aux_data desc)) 0"
    and alen: "length archive = target" using len by (simp_all add: archive_def)
  have "zip_read crc archive = Some files"
    using zip_read_archive [OF _ dir] inv by (simp add: archive_def wr_inv_def)
  moreover have "crc_checksum crc (archive @ wd_aux_data desc) = target_crc"
    using crc by (simp add: archive_def)
  ultimately show ?thesis
    using fin al by (intro exI [of _ ?last] conjI) (simp_all add: stream alen del: append_assoc)
qed

section \<open>Properties\<close>

text \<open>
  A concrete instance of the third-party functions, used where a property is applied to an
  example: zlib as the identity under its limit, and an archive of two members.
\<close>

definition example_files :: "(bytes \<times> bytes) list" where
  "example_files = [([0x61], [1, 2, 3]), (LEVEL_DAT @ [0x30], [4, 5])]"

definition example_libs :: Libs where
  "example_libs =
     \<lparr>blake3_hash = (\<lambda>bs. take 32 (bs @ replicate 32 0)),
      inflate_zlib = (\<lambda>bs limit. if length bs \<le> limit then Inr bs else Inl (Error ''limit'')),
      deflate_zlib = (\<lambda>bs level. bs),
      zip_archive = (\<lambda>world. Inr (map (\<lambda>(n, c). Inr (n, Inr c)) example_files))\<rparr>"

definition example_desc :: FactorioWorldDescription where
  "example_desc =
     \<lparr>wd_files =
        [\<lparr>fd_file_type = Normal, fd_file_name = [0x61], fd_content_size = 3,
          fd_content_chunks = [chunk_key example_libs [1, 2, 3]]\<rparr>,
         \<lparr>fd_file_type = Zlib, fd_file_name = LEVEL_DAT @ [0x30], fd_content_size = 2,
          fd_content_chunks = [chunk_key example_libs [4, 5]]\<rparr>],
      wd_aux_data = [9, 9]\<rparr>"

definition example_store :: chunk_map where
  "example_store = store_all example_libs [[1, 2, 3], [4, 5]] Map.empty"

lemma example_decode:
  "decode_factorio_file example_libs [0x61] [1, 2, 3] = Inr \<lparr>ff_file_type = Normal, ff_data = [1, 2, 3]\<rparr>"
  "decode_factorio_file example_libs (LEVEL_DAT @ [0x30]) [4, 5] = Inr \<lparr>ff_file_type = Zlib, ff_data = [4, 5]\<rparr>"
  by (simp_all add: decode_factorio_file_def is_level_dat_def base_name_def LEVEL_DAT_def example_libs_def)

lemma example_chunks: "chunk_list [1, 2, 3] = [[1, 2, 3]]" "chunk_list [4, 5] = [[4, 5]]"
  by (simp_all add: chunk_list_short MIN_CHUNK_SIZE_def)

lemma example_deconstruct:
  "deconstruct_world example_libs world [9, 9] = Inr (example_desc, example_store)"
proof -
  have "zip_archive example_libs world
      = Inr [Inr ([0x61], Inr [1, 2, 3]), Inr (LEVEL_DAT @ [0x30], Inr [4, 5])]"
    by (simp add: example_libs_def example_files_def)
  then show ?thesis
    by (simp add: deconstruct_world_def example_decode chunk_file_def chunk_file_loop_eq
        example_chunks example_desc_def example_store_def flip: chunk_list_def)
qed

lemma example_file_chunks:
  "file_chunks example_libs ([0x61], [1, 2, 3]) = [[1, 2, 3]]"
  "file_chunks example_libs (LEVEL_DAT @ [0x30], [4, 5]) = [[4, 5]]"
  by (simp_all add: file_chunks_def example_decode example_chunks)

lemma example_recoded:
  "recoded example_libs ([0x61], [1, 2, 3]) = ([0x61], [1, 2, 3])"
  "recoded example_libs (LEVEL_DAT @ [0x30], [4, 5]) = (LEVEL_DAT @ [0x30], [4, 5])"
  by (simp_all add: recoded_def example_decode encode_factorio_file_def) (simp_all add: example_libs_def)

text \<open>
  C8. A world survives deduplication. The server takes a world archive apart; the client
  holds a store of chunks, each filed under its hash, that has the chunks the description
  names, some fetched, some cached long ago; BLAKE3 has no collision among them. Then the
  client's reconstruction of all files succeeds and, unless the announced size is too
  small for the archive, so does the final step: the bytes it hands to the game are
  an archive of exactly the announced size that holds the same files in the same order,
  followed at a block boundary by the auxiliary data; the announced CRC is the CRC of
  archive and auxiliary data; and the whole is a multiple of the block size.
\<close>

theorem world_survives_dedup:
  assumes crc: "crc_crate crc poly"
    and dec: "deconstruct_world libs world aux = Inr (desc, store)"
    and files: "zip_archive libs world = Inr (map (\<lambda>(n, c). Inr (n, Inr c)) files)"
    and valid: "store_valid libs m"
    and complete: "set (concat (map fd_content_chunks (wd_files desc))) \<subseteq> dom m"
    and hash: "inj_on (blake3_hash libs) (set (concat (map (file_chunks libs) files)) \<union> ran m)"
    and fields: "list_all (\<lambda>f. length (fst f) < 2 ^ 16 \<and> length (snd (recoded libs f)) < 2 ^ 32) files"
    and count: "length files < 2 ^ 16"
    and target: "target + 502 < 2 ^ 32" and aux: "length aux + 502 < 2 ^ 32"
  shows "\<exists>out r. reconstruct_files crc libs (WorldReconstructor_new crc) (wd_files desc) m = Inr (Some (out, r))
     \<and> (if target < length out + central_directory_size (wr_zip_writer r) + 4
        then finalize_world_file crc r desc target target_crc
               = Inl (Error ''Reconstructed world size won't fit inside of estimated size'')
        else \<exists>last. finalize_world_file crc r desc target target_crc = Inr last
          \<and> length (out @ last) = aligned_length target + aligned_length (length aux)
          \<and> zip_read crc (take target (out @ last)) = Some (map (recoded libs) files)
          \<and> take (length aux) (drop (aligned_length target) (out @ last)) = aux
          \<and> crc_checksum crc (take target (out @ last) @ aux) = target_crc)"
proof -
  from deconstruct_world_spec [OF dec] files have desc: "list_all2 (describes libs) files (wd_files desc)"
    "wd_aux_data desc = aux"
    by (auto simp: members_inject)
  from reconstruct_files_described [OF crc desc(1) valid hash complete fields crc_crate.wr_inv_new [OF crc]]
  obtain out r where run: "reconstruct_files crc libs (WorldReconstructor_new crc) (wd_files desc) m
      = Inr (Some (out, r))" and inv: "wr_inv crc r out (map (recoded libs) files)"
    by auto
  have "current_size (wr_zip_writer r) = length out"
    using inv by (simp add: wr_inv_def zip_inv_def current_size_def)
  then have small: "finalize_world_file crc r desc target target_crc
      = Inl (Error ''Reconstructed world size won't fit inside of estimated size'')"
    if "target < length out + central_directory_size (wr_zip_writer r) + 4"
    using that by (simp add: finalize_world_file_def Let_def)
  show ?thesis
    using run small finalized_stream [OF crc inv target _ _, of desc target_crc] count aux desc(2) by auto
qed

theorem world_survives_dedup_witness:
  "deconstruct_world example_libs [] [9, 9] = Inr (example_desc, example_store)
   \<and> (\<exists>out r. reconstruct_files crc32_iso_hdlc example_libs (WorldReconstructor_new crc32_iso_hdlc)
           (wd_files example_desc) example_store = Inr (Some (out, r))
     \<and> (if 700 < length out + central_directory_size (wr_zip_writer r) + 4
        then finalize_world_file crc32_iso_hdlc r example_desc 700 0xCAFE
               = Inl (Error ''Reconstructed world size won't fit inside of estimated size'')
        else \<exists>last. finalize_world_file crc32_iso_hdlc r example_desc 700 0xCAFE = Inr last
          \<and> length (out @ last) = aligned_length 700 + aligned_length (length [9 :: u8, 9])
          \<and> zip_read crc32_iso_hdlc (take 700 (out @ last)) = Some (map (recoded example_libs) example_files)
          \<and> take (length [9 :: u8, 9]) (drop (aligned_length 700) (out @ last)) = [9, 9]
          \<and> crc_checksum crc32_iso_hdlc (take 700 (out @ last) @ [9, 9]) = 0xCAFE))"
proof -
  note chunks = example_file_chunks
  have valid: "store_valid example_libs example_store"
    unfolding example_store_def by (rule valid_store_all) simp
  have complete: "set (concat (map fd_content_chunks (wd_files example_desc))) \<subseteq> dom example_store"
    unfolding example_store_def dom_store_all by (simp add: example_desc_def)
  have "ran example_store \<subseteq> {[1, 2, 3], [4, 5]}"
    using ran_store_all [of example_libs "[[1, 2, 3], [4, 5]]" Map.empty] by (simp add: example_store_def)
  moreover have "inj_on (blake3_hash example_libs) {[1, 2, 3], [4, 5]}"
    by (simp add: inj_on_def example_libs_def)
  moreover have "set (concat (map (file_chunks example_libs) example_files)) = {[1, 2, 3], [4, 5]}"
    by (simp add: example_files_def chunks)
  ultimately have hash: "inj_on (blake3_hash example_libs)
      (set (concat (map (file_chunks example_libs) example_files)) \<union> ran example_store)"
    by (metis Un_least inj_on_subset order_refl)
  have fields: "list_all (\<lambda>f. length (fst f) < 2 ^ 16 \<and> length (snd (recoded example_libs f)) < 2 ^ 32) example_files"
    by (simp add: example_files_def example_recoded) (simp add: LEVEL_DAT_def)
  have "zip_archive example_libs [] = Inr (map (\<lambda>(n, c). Inr (n, Inr c)) example_files)"
    by (simp add: example_libs_def)
  from world_survives_dedup [OF iso_hdlc.crc_crate_axioms example_deconstruct this valid complete hash fields,
      of 700 "0xCAFE"]
  show ?thesis using example_deconstruct [of "[]"] by (simp add: example_files_def)
qed

text \<open>
  C32. What the client writes for a file holds the same content: with a zlib that restores
  what it compressed and keeps to its limit, decoding the rewritten file gives what
  decoding the original file gave. Files that are not level data are byte for byte the same.
\<close>

theorem recoded_file_same_content:
  assumes "\<And>data level limit. length data \<le> limit \<Longrightarrow> inflate_zlib libs (deflate_zlib libs data level) limit = Inr data"
    and "\<And>data limit result. inflate_zlib libs data limit = Inr result \<Longrightarrow> length result \<le> limit"
    and "decode_factorio_file libs name content = Inr ff"
  shows "decode_factorio_file libs name (encode_factorio_file libs ff) = Inr ff
     \<and> (\<not> is_level_dat (base_name name) \<longrightarrow> encode_factorio_file libs ff = content)"
  using assms by (auto simp: decode_factorio_file_def encode_factorio_file_def case_Inr_iff)

theorem recoded_file_same_content_witness:
  "decode_factorio_file example_libs (LEVEL_DAT @ [0x30]) [4, 5] = Inr \<lparr>ff_file_type = Zlib, ff_data = [4, 5]\<rparr>
   \<and> decode_factorio_file example_libs (LEVEL_DAT @ [0x30])
        (encode_factorio_file example_libs \<lparr>ff_file_type = Zlib, ff_data = [4, 5]\<rparr>)
      = Inr \<lparr>ff_file_type = Zlib, ff_data = [4, 5]\<rparr>"
proof -
  note dec = example_decode(2)
  have "inflate_zlib example_libs (deflate_zlib example_libs data level) limit = Inr data" if "length data \<le> limit"
    for data level limit using that by (simp add: example_libs_def)
  moreover have "length result \<le> limit" if "inflate_zlib example_libs data limit = Inr result"
    for data limit result using that by (simp add: example_libs_def split: if_splits)
  ultimately show ?thesis
    using recoded_file_same_content [OF _ _ dec] dec by blast
qed

text \<open>
  The server can answer for every chunk it announces: the chunk map a deconstruction
  returns is valid and its keys are exactly the keys that occur in the description, so a
  request for keys of the description never meets a missing chunk.
\<close>

theorem deconstructed_store_complete:
  assumes "deconstruct_world libs world aux = Inr (desc, store)"
  shows "store_valid libs store
     \<and> dom store = set (concat (map fd_content_chunks (wd_files desc)))
     \<and> wd_aux_data desc = aux"
proof -
  from deconstruct_world_spec [OF assms] obtain files where
    "list_all2 (describes libs) files (wd_files desc)" "wd_aux_data desc = aux"
    "store = store_all libs (concat (map (file_chunks libs) files)) Map.empty" by blast
  then show ?thesis
    using described_keys [of libs files "wd_files desc"]
    by (simp only: dom_store_all valid_store_all store_valid_empty set_map) simp
qed

theorem deconstructed_store_complete_witness:
  "deconstruct_world example_libs [] [9, 9] = Inr (example_desc, example_store)
   \<and> store_valid example_libs example_store
   \<and> dom example_store = set (concat (map fd_content_chunks (wd_files example_desc)))"
  using deconstructed_store_complete [OF example_deconstruct] example_deconstruct [of "[]"] by blast

end
