(* ===== verification/Peer_Protocol.thy ===== *)
theory Peer_Protocol
  imports World_Dedup
begin

text \<open>
  The protocol between the two proxies, \<open>src/src/protocol.rs\<close>: datagrams that carry the
  packets of a peer over the QUIC connection, and length-prefixed messages (MessagePack
  under zstd) on the peer's stream. Third-party code is a parameter: quinn's \<open>VarInt\<close> codec,
  with its contract in the locale \<open>varint_codec\<close>; zstd and MessagePack in the record
  \<open>MessageLibs\<close>, with their contract in \<open>message_libs\<close>; the writing half of a stream is
  any function that appends to it or fails.
\<close>

section \<open>Datagrams\<close>

text \<open>A \<open>VarInt\<close> is an integer below \<open>2 ^ 62\<close>.\<close>

type_synonym VarInt = nat

record VarIntCodec =
  varint_encode :: "VarInt \<Rightarrow> bytes"
  varint_decode :: "bytes \<Rightarrow> (VarInt \<times> bytes) option"

record Datagram =
  dg_peer_id :: VarInt
  dg_data :: bytes

definition Datagram_new :: "VarInt \<Rightarrow> bytes \<Rightarrow> Datagram" where
  "Datagram_new peer_id data = \<lparr>dg_peer_id = peer_id, dg_data = data\<rparr>"

definition Datagram_decode :: "VarIntCodec \<Rightarrow> bytes \<Rightarrow> Datagram outcome" where
  "Datagram_decode vc data =
     (case varint_decode vc data of
        None \<Rightarrow> Inl (Error ''unexpected end of buffer'')
      | Some (peer_id, data) \<Rightarrow> Inr \<lparr>dg_peer_id = peer_id, dg_data = data\<rparr>)"

definition Datagram_encode :: "VarIntCodec \<Rightarrow> Datagram \<Rightarrow> bytes \<Rightarrow> bytes" where
  "Datagram_encode vc self buffer = buffer @ varint_encode vc (dg_peer_id self) @ dg_data self"

section \<open>Messages\<close>

definition ZSTD_COMPRESSION_LEVEL :: int where
  "ZSTD_COMPRESSION_LEVEL = 11"

definition MESSAGE_SIZE_LIMIT :: nat where
  "MESSAGE_SIZE_LIMIT = 20000000"

text \<open>
  \<open>zstd_encoder\<close> opens an encoder that turns all that is written into it into the
  compressed data; \<open>zstd_decoder\<close> opens a reader: the bytes it delivers and the failure it
  ends with, if any. \<open>rmp_write\<close> and \<open>rmp_from_read\<close> are MessagePack for one message type.
\<close>

type_synonym reader = "bytes \<times> fault option"

record 'm MessageLibs =
  zstd_encoder :: "int \<Rightarrow> (bytes \<Rightarrow> bytes outcome) outcome"
  zstd_decoder :: "bytes \<Rightarrow> reader outcome"
  rmp_write :: "'m \<Rightarrow> bytes outcome"
  rmp_from_read :: "reader \<Rightarrow> 'm outcome"

definition encode_message :: "'m MessageLibs \<Rightarrow> 'm \<Rightarrow> bytes outcome" where
  "encode_message ml message =
     (case zstd_encoder ml ZSTD_COMPRESSION_LEVEL of
        Inl e \<Rightarrow> Inl e
      | Inr finish \<Rightarrow>
     (case rmp_write ml message of
        Inl e \<Rightarrow> Inl e
      | Inr written \<Rightarrow> finish written))"

definition decode_message :: "'m MessageLibs \<Rightarrow> bytes \<Rightarrow> 'm outcome" where
  "decode_message ml msg_data =
     (case zstd_decoder ml msg_data of
        Inl e \<Rightarrow> Inl e
      | Inr decoder \<Rightarrow> rmp_from_read ml decoder)"

text \<open>
  \<open>tokio::task::spawn_blocking(f).await?\<close>: the result of \<open>f\<close>; a panic inside the task
  reaches the caller as a \<open>JoinError\<close>.
\<close>

definition spawn_blocking :: "'a outcome \<Rightarrow> 'a outcome" where
  "spawn_blocking task =
     (case task of Inl (Panic msg) \<Rightarrow> Inl (Error ''task panicked'') | _ \<Rightarrow> task)"

definition encode_message_async :: "'m MessageLibs \<Rightarrow> 'm \<Rightarrow> bytes outcome" where
  "encode_message_async ml message = spawn_blocking (encode_message ml message)"

definition decode_message_async :: "'m MessageLibs \<Rightarrow> bytes \<Rightarrow> 'm outcome" where
  "decode_message_async ml msg_data = spawn_blocking (decode_message ml msg_data)"

section \<open>Framing\<close>

text \<open>The writing half of a stream: \<open>write_all\<close> appends to the stream or fails.\<close>

type_synonym 'io write_all = "'io \<Rightarrow> bytes \<Rightarrow> 'io outcome"

definition write_message :: "'io write_all \<Rightarrow> 'io \<Rightarrow> bytes \<Rightarrow> 'io outcome" where
  "write_message write_all io msg_data =
     (if length msg_data > MESSAGE_SIZE_LIMIT then Inl (Panic ''Message size exceeded limit'')
      else case write_all io (u32_to_le_bytes (of_nat (length msg_data))) of
             Inl e \<Rightarrow> Inl e
           | Inr io \<Rightarrow> write_all io msg_data)"

text \<open>
  The reading half: the bytes still to come before the end of the stream. The result is the
  message, the rest of the stream and the caller's buffer, which \<open>split\<close> leaves empty.
\<close>

definition UNEXPECTED_EOF :: fault where
  "UNEXPECTED_EOF = Error ''unexpected end of file''"

definition read_message :: "bytes \<Rightarrow> bytes \<Rightarrow> (bytes \<times> bytes \<times> bytes) outcome" where
  "read_message io buffer =
     (case try_get_u32_le io of
        Inl e \<Rightarrow> Inl UNEXPECTED_EOF
      | Inr (msg_size, io) \<Rightarrow>
     (let msg_size = unat msg_size in
      if msg_size > MESSAGE_SIZE_LIMIT then Inl (Panic ''Message size exceeded limit'')
      else
     (case bytes_resize buffer msg_size of
        Inl e \<Rightarrow> Inl e
      | Inr buffer \<Rightarrow>
      if length io < length buffer then Inl UNEXPECTED_EOF
      else let buffer = take (length buffer) io;
               io = drop (length buffer) io
           in Inr (buffer, io, []))))"

record WorldReadyMessage =
  wm_world :: FactorioWorldDescription
  wm_old_info :: FactorioWorldMetadata
  wm_new_info :: FactorioWorldMetadata

record RequestChunksMessage =
  requested_chunks :: "ChunkKey list"

record SendChunksMessage =
  sent_chunks :: "bytes list"

section \<open>The contract of the variable-length integers\<close>

locale varint_codec =
  fixes vc :: VarIntCodec
  assumes varint_decode_encode:
      "v < 2 ^ 62 \<Longrightarrow> varint_decode vc (varint_encode vc v @ rest) = Some (v, rest)"
    and varint_decode_bound: "varint_decode vc data = Some (v, rest) \<Longrightarrow> v < 2 ^ 62"
    and varint_decode_suffix: "varint_decode vc data = Some (v, rest) \<Longrightarrow> \<exists>pre. data = pre @ rest"
    and varint_decode_empty: "varint_decode vc [] = None"
begin

lemma datagram_encode_decode:
  "dg_peer_id d < 2 ^ 62 \<Longrightarrow> Datagram_decode vc (Datagram_encode vc d []) = Inr d"
  by (simp add: Datagram_decode_def Datagram_encode_def varint_decode_encode)

lemma datagram_encode_inject:
  assumes "dg_peer_id d < 2 ^ 62" and "dg_peer_id d' < 2 ^ 62"
    and "Datagram_encode vc d [] = Datagram_encode vc d' []"
  shows "d = d'"
  using datagram_encode_decode [OF assms(1)] datagram_encode_decode [OF assms(2)]
  unfolding assms(3) by (metis sum.inject(2))

lemma datagram_decode_parts:
  "Datagram_decode vc data = Inr d \<Longrightarrow> dg_peer_id d < 2 ^ 62 \<and> (\<exists>pre. data = pre @ dg_data d)"
  by (cases "varint_decode vc data")
    (auto simp: Datagram_decode_def simp del: power_numeral dest: varint_decode_bound varint_decode_suffix)

end

text \<open>
  quinn's codec is the one of RFC 9000, section 16: the two highest bits of the first byte
  give the length, the rest is the value, most significant byte first.
\<close>

fun be_bytes :: "nat \<Rightarrow> nat \<Rightarrow> bytes" where
  "be_bytes 0 v = []"
| "be_bytes (Suc n) v = be_bytes n (v div 256) @ [of_nat (v mod 256)]"

definition be_value :: "bytes \<Rightarrow> nat" where
  "be_value bs = foldl (\<lambda>acc b. acc * 256 + unat b) 0 bs"

definition rfc9000_size :: "nat \<Rightarrow> nat \<times> nat" where
  "rfc9000_size v =
     (if v < 2 ^ 6 then (0, 1) else if v < 2 ^ 14 then (1, 2)
      else if v < 2 ^ 30 then (2, 4) else (3, 8))"

definition rfc9000_varint :: VarIntCodec where
  "rfc9000_varint =
     \<lparr>varint_encode = (\<lambda>v. let (tag, n) = rfc9000_size v in be_bytes n (tag * 2 ^ (8 * n - 2) + v)),
      varint_decode = (\<lambda>data.
        case data of
          [] \<Rightarrow> None
        | b # _ \<Rightarrow>
            let n = 2 ^ (unat b div 64)
            in if length data < n then None
               else Some (be_value (take n data) mod 2 ^ (8 * n - 2), drop n data))\<rparr>"

lemma rfc9000_varint_encode:
  "varint_encode rfc9000_varint v = (case rfc9000_size v of (tag, n) \<Rightarrow> be_bytes n (tag * 2 ^ (8 * n - 2) + v))"
  by (simp add: rfc9000_varint_def Let_def)

lemma length_be_bytes [simp]: "length (be_bytes n v) = n"
  by (induction n v rule: be_bytes.induct) auto

lemma unat_of_nat_u8: "n < 256 \<Longrightarrow> unat (of_nat n :: u8) = n"
  by (simp add: unat_of_nat)

lemma unat_u8_less: "unat (b :: u8) < 256"
  using unsigned_less [of b] by simp

lemma be_value_be_bytes: "be_value (be_bytes n v) = v mod 256 ^ n"
proof (induction n v rule: be_bytes.induct)
  case (2 n v)
  have "be_value (be_bytes (Suc n) v) = be_value (be_bytes n (v div 256)) * 256 + v mod 256"
    by (simp add: be_value_def unat_of_nat_u8)
  also have "\<dots> = v mod 256 ^ Suc n"
    using mod_mult2_eq [of v 256 "256 ^ n"] 2 by simp
  finally show ?case .
qed (simp add: be_value_def)

lemma be_bytes_Cons: "\<exists>bs. be_bytes (Suc n) v = of_nat (v div 256 ^ n mod 256) # bs"
proof (induction n arbitrary: v)
  case (Suc n)
  from Suc [of "v div 256"] obtain bs where
    "be_bytes (Suc n) (v div 256) = of_nat (v div 256 div 256 ^ n mod 256) # bs" by auto
  then show ?case by (simp add: div_mult2_eq)
qed simp

lemma rfc9000_decode_tagged:
  assumes "n = Suc m" and "n = 2 ^ tag" and "tag < 4" and "v < 2 ^ (8 * n - 2)"
  shows "varint_decode rfc9000_varint (be_bytes n (tag * 2 ^ (8 * n - 2) + v) @ rest) = Some (v, rest)"
proof -
  let ?w = "tag * 2 ^ (8 * n - 2) + v"
  have pow: "(256 :: nat) ^ m * 64 = 2 ^ (8 * n - 2)" "(256 :: nat) ^ n = 4 * 2 ^ (8 * n - 2)"
  proof -
    have "(256 :: nat) ^ m * 64 = 2 ^ (8 * m) * 2 ^ 6" by (simp add: power_mult)
    also have "\<dots> = 2 ^ (8 * m + 6)" by (simp only: power_add)
    also have "8 * m + 6 = 8 * n - 2" using assms(1) by simp
    finally show a: "(256 :: nat) ^ m * 64 = 2 ^ (8 * n - 2)" .
    have "(256 :: nat) ^ n = 4 * (256 ^ m * 64)" using assms(1) by simp
    then show "(256 :: nat) ^ n = 4 * 2 ^ (8 * n - 2)" unfolding a .
  qed
  have top: "?w div 256 ^ m div 64 = tag"
    using assms(4) by (simp add: pow flip: div_mult2_eq)
  have "tag * 2 ^ (8 * n - 2) \<le> 3 * 2 ^ (8 * n - 2)" using assms(3) by (intro mult_le_mono1) simp
  then have small: "?w < 256 ^ n" using assms(4) unfolding pow by linarith
  then have "?w div 256 ^ m < 256" using assms(1) by (simp add: less_mult_imp_div_less mult.commute)
  with top have head: "unat (of_nat (?w div 256 ^ m mod 256) :: u8) div 64 = tag"
    by (simp add: unat_of_nat_u8)
  obtain bs where bs: "be_bytes n ?w = of_nat (?w div 256 ^ m mod 256) # bs"
    using be_bytes_Cons [of m ?w] assms(1) by auto
  then have "length bs = m" using length_be_bytes [of n ?w] assms(1) by simp
  have val: "be_value (be_bytes n ?w) mod 2 ^ (8 * n - 2) = v"
    using small assms(4) by (simp add: be_value_be_bytes)
  show ?thesis
    using val head \<open>length bs = m\<close> assms(1,2)
    unfolding rfc9000_varint_def bs by (simp add: Let_def)
qed

lemma be_value_bound: "be_value bs < 256 ^ length bs"
proof (induction bs rule: rev_induct)
  case (snoc b bs)
  note unat_u8_less [of b]
  with snoc show ?case by (simp add: be_value_def)
qed (simp add: be_value_def)

lemma rfc9000_decode_encode:
  assumes "v < 2 ^ 62"
  shows "varint_decode rfc9000_varint (varint_encode rfc9000_varint v @ rest) = Some (v, rest)"
proof -
  obtain tag n where sz: "rfc9000_size v = (tag, n)" by (cases "rfc9000_size v")
  have "n = Suc (n - 1) \<and> n = 2 ^ tag \<and> tag < 4 \<and> v < 2 ^ (8 * n - 2)"
    using sz assms by (auto simp: rfc9000_size_def split: if_splits)
  then have "varint_decode rfc9000_varint (be_bytes n (tag * 2 ^ (8 * n - 2) + v) @ rest) = Some (v, rest)"
    by (intro rfc9000_decode_tagged [where m = "n - 1"]) auto
  then show ?thesis by (simp add: rfc9000_varint_encode sz)
qed

interpretation rfc9000: varint_codec rfc9000_varint
proof
  fix v :: nat and rest data
  show "varint_decode rfc9000_varint (varint_encode rfc9000_varint v @ rest) = Some (v, rest)" if "v < 2 ^ 62"
    using that by (rule rfc9000_decode_encode)
  show "v < 2 ^ 62" if dec: "varint_decode rfc9000_varint data = Some (v, rest)"
  proof -
    from dec obtain b bs where data: "data = b # bs"
      and v: "v = be_value (take (2 ^ (unat b div 64)) data) mod 2 ^ (8 * 2 ^ (unat b div 64) - 2)"
      by (auto simp: rfc9000_varint_def Let_def split: list.splits if_splits)
    have "unat b div 64 \<le> 3" using unat_u8_less [of b] by simp
    then have "(2 :: nat) ^ (unat b div 64) \<le> 2 ^ 3" by (rule power_increasing) simp
    then have "(2 :: nat) ^ (8 * 2 ^ (unat b div 64) - 2) \<le> 2 ^ 62"
      by (intro power_increasing) auto
    moreover have "v < 2 ^ (8 * 2 ^ (unat b div 64) - 2)" unfolding v by simp
    ultimately show ?thesis by (rule order_less_le_trans [rotated])
  qed
  show "\<exists>pre. data = pre @ rest" if dec: "varint_decode rfc9000_varint data = Some (v, rest)"
  proof -
    from dec obtain n where "rest = drop n data"
      by (auto simp: rfc9000_varint_def Let_def split: list.splits if_splits)
    then show ?thesis using append_take_drop_id [of n data] by metis
  qed
  show "varint_decode rfc9000_varint [] = None" by (simp add: rfc9000_varint_def)
qed

section \<open>Streams of messages\<close>

text \<open>
  What is documented of zstd and MessagePack: a stream decompresses to what was
  compressed, at any level, and a value written reads back from a stream that holds just it.
\<close>

definition message_libs_ok :: "'m MessageLibs \<Rightarrow> bool" where
  "message_libs_ok ml \<longleftrightarrow>
     (\<forall>level finish written data.
        zstd_encoder ml level = Inr finish \<longrightarrow> finish written = Inr data \<longrightarrow>
        zstd_decoder ml data = Inr (written, None))
     \<and> (\<forall>message written. rmp_write ml message = Inr written \<longrightarrow>
          rmp_from_read ml (written, None) = Inr message)"

definition appending :: "'io write_all \<Rightarrow> ('io \<Rightarrow> bytes) \<Rightarrow> bool" where
  "appending write_all contents \<longleftrightarrow>
     (\<forall>io bs io'. write_all io bs = Inr io' \<longrightarrow> contents io' = contents io @ bs)"

text \<open>Sending and receiving the way both proxies do: encode and write, read and decode.\<close>

fun send_messages :: "'m MessageLibs \<Rightarrow> 'io write_all \<Rightarrow> 'io \<Rightarrow> 'm list \<Rightarrow> 'io outcome" where
  "send_messages ml write_all io [] = Inr io"
| "send_messages ml write_all io (message # messages) =
     (case encode_message_async ml message of Inl e \<Rightarrow> Inl e | Inr msg_data \<Rightarrow>
     (case write_message write_all io msg_data of Inl e \<Rightarrow> Inl e | Inr io \<Rightarrow>
        send_messages ml write_all io messages))"

fun receive_messages :: "'m MessageLibs \<Rightarrow> nat \<Rightarrow> bytes \<Rightarrow> bytes \<Rightarrow> ('m list \<times> bytes) outcome" where
  "receive_messages ml 0 io buf = Inr ([], io)"
| "receive_messages ml (Suc n) io buf =
     (case read_message io buf of Inl e \<Rightarrow> Inl e | Inr (msg_data, io, buf) \<Rightarrow>
     (case decode_message_async ml msg_data of Inl e \<Rightarrow> Inl e | Inr message \<Rightarrow>
     (case receive_messages ml n io buf of Inl e \<Rightarrow> Inl e | Inr (messages, io) \<Rightarrow>
        Inr (message # messages, io))))"

definition frame :: "bytes \<Rightarrow> bytes" where
  "frame msg_data = u32_to_le_bytes (of_nat (length msg_data)) @ msg_data"

lemma spawn_blocking_Inr [simp]: "spawn_blocking task = Inr x \<longleftrightarrow> task = Inr x"
  by (auto simp: spawn_blocking_def split: sum.splits fault.splits)

lemma spawn_blocking_no_panic [simp]: "spawn_blocking task \<noteq> Inl (Panic msg)"
  by (auto simp: spawn_blocking_def split: sum.splits fault.splits)

lemma decode_encode_message:
  assumes "message_libs_ok ml" and "encode_message ml message = Inr msg_data"
  shows "decode_message ml msg_data = Inr message"
  using assms by (auto simp: message_libs_ok_def encode_message_def decode_message_def case_Inr_iff)

lemma decode_encode_message_async:
  "message_libs_ok ml \<Longrightarrow> encode_message_async ml message = Inr msg_data \<Longrightarrow>
     decode_message_async ml msg_data = Inr message"
  by (simp add: encode_message_async_def decode_message_async_def decode_encode_message)

lemma write_message_frame:
  assumes "appending write_all contents" and "write_message write_all io msg_data = Inr io'"
  shows "length msg_data \<le> MESSAGE_SIZE_LIMIT \<and> contents io' = contents io @ frame msg_data"
  using assms by (auto simp: appending_def write_message_def frame_def case_Inr_iff split: if_splits)

lemma bytes_resize_ok: "n < 2 ^ 63 \<Longrightarrow> \<exists>buf'. bytes_resize buf n = Inr buf' \<and> length buf' = n"
  by (simp add: bytes_resize_def)

lemma read_message_sized:
  "read_message (u32_to_le_bytes w @ io) buf =
     (if unat w > MESSAGE_SIZE_LIMIT then Inl (Panic ''Message size exceeded limit'')
      else if length io < unat w then Inl UNEXPECTED_EOF
      else Inr (take (unat w) io, drop (unat w) io, []))"
proof (cases "unat w > MESSAGE_SIZE_LIMIT")
  case True
  then show ?thesis by (simp add: read_message_def)
next
  case False
  then have "unat w < 2 ^ 63" by (simp add: MESSAGE_SIZE_LIMIT_def)
  from bytes_resize_ok [OF this, of buf] obtain buf' where
    "bytes_resize buf (unat w) = Inr buf'" "length buf' = unat w" by auto
  with False show ?thesis by (simp add: read_message_def)
qed

lemma read_message_short: "length io < 4 \<Longrightarrow> read_message io buf = Inl UNEXPECTED_EOF"
  by (simp add: read_message_def try_get_u32_le_short)

lemma read_message_eq:
  "read_message io buf =
     (if length io < 4 then Inl UNEXPECTED_EOF
      else let n = unat (u32_of_le (io ! 0) (io ! 1) (io ! 2) (io ! 3))
           in if n > MESSAGE_SIZE_LIMIT then Inl (Panic ''Message size exceeded limit'')
              else if length io < 4 + n then Inl UNEXPECTED_EOF
              else Inr (take n (drop 4 io), drop (4 + n) io, []))"
proof (cases "length io < 4")
  case False
  then obtain a b c d rest where io: "io = a # b # c # d # rest"
    by (auto simp: not_less numeral_eq_Suc Suc_le_length_iff)
  then have "io = u32_to_le_bytes (u32_of_le a b c d) @ rest" by simp
  then have "read_message io buf = read_message (u32_to_le_bytes (u32_of_le a b c d) @ rest) buf" by simp
  then show ?thesis unfolding read_message_sized by (simp add: io Let_def numeral_eq_Suc)
qed (simp add: read_message_short)

lemma unat_message_length:
  "length msg_data \<le> MESSAGE_SIZE_LIMIT \<Longrightarrow> unat (of_nat (length msg_data) :: u32) = length msg_data"
  by (simp add: unat_of_nat_u32 MESSAGE_SIZE_LIMIT_def)

lemma read_message_frame:
  assumes "length msg_data \<le> MESSAGE_SIZE_LIMIT"
  shows "read_message (frame msg_data @ rest) buf = Inr (msg_data, rest, [])"
  using assms by (simp add: frame_def read_message_sized unat_message_length)

lemma read_message_partial_frame:
  assumes "length msg_data \<le> MESSAGE_SIZE_LIMIT" and "k < length (frame msg_data)"
  shows "read_message (take k (frame msg_data)) buf = Inl UNEXPECTED_EOF"
proof (cases "k < 4")
  case True
  then show ?thesis by (simp add: read_message_short)
next
  case False
  then have "take k (frame msg_data)
      = u32_to_le_bytes (of_nat (length msg_data)) @ take (k - 4) msg_data"
    by (simp add: frame_def)
  then show ?thesis using assms False
    by (simp add: read_message_sized unat_message_length) (auto simp: frame_def)
qed

lemma receive_sent:
  assumes "message_libs_ok ml" and "appending write_all contents"
    and "send_messages ml write_all io messages = Inr io'"
  shows "\<exists>sent. contents io' = contents io @ sent
     \<and> (\<forall>rest buf. receive_messages ml (length messages) (sent @ rest) buf = Inr (messages, rest))"
  using assms(3)
proof (induction messages arbitrary: io)
  case (Cons message messages)
  then obtain msg_data io1 where enc: "encode_message_async ml message = Inr msg_data"
    and wr: "write_message write_all io msg_data = Inr io1"
    and rest: "send_messages ml write_all io1 messages = Inr io'"
    by (auto simp: case_Inr_iff)
  from Cons.IH [OF rest] obtain sent where sent: "contents io' = contents io1 @ sent"
    "\<forall>rest buf. receive_messages ml (length messages) (sent @ rest) buf = Inr (messages, rest)" by auto
  note frame = write_message_frame [OF assms(2) wr]
  show ?case
    using sent frame decode_encode_message_async [OF assms(1) enc]
    by (intro exI [of _ "frame msg_data @ sent"]) (simp add: read_message_frame)
qed simp

section \<open>Properties\<close>

text \<open>
  A packet sent as a datagram arrives at the same peer: with quinn's variable-length
  integers, decoding an encoded datagram gives the peer id and the packet it was made from,
  and no two datagrams are encoded alike.
\<close>

theorem datagram_roundtrip:
  assumes "varint_codec vc" and "peer_id < 2 ^ 62" and "peer_id' < 2 ^ 62"
  shows "Datagram_decode vc (Datagram_encode vc (Datagram_new peer_id data) []) = Inr (Datagram_new peer_id data)
     \<and> (Datagram_encode vc (Datagram_new peer_id data) [] = Datagram_encode vc (Datagram_new peer_id' data') []
          \<longleftrightarrow> peer_id = peer_id' \<and> data = data')"
proof -
  let ?d = "Datagram_new peer_id data" and ?d' = "Datagram_new peer_id' data'"
  have b: "dg_peer_id ?d < 2 ^ 62" "dg_peer_id ?d' < 2 ^ 62" using assms(2,3) by (simp_all add: Datagram_new_def)
  have eq: "?d = ?d' \<longleftrightarrow> peer_id = peer_id' \<and> data = data'" by (simp add: Datagram_new_def)
  have "Datagram_encode vc ?d [] = Datagram_encode vc ?d' [] \<longleftrightarrow> ?d = ?d'"
    using varint_codec.datagram_encode_inject [OF assms(1) b] by metis
  then show ?thesis
    unfolding eq using varint_codec.datagram_encode_decode [OF assms(1) b(1)] by (rule conjI [rotated])
qed

theorem datagram_roundtrip_witness:
  "Datagram_encode rfc9000_varint (Datagram_new 300 [1, 2]) [] = [65, 44, 1, 2]
   \<and> Datagram_decode rfc9000_varint (Datagram_encode rfc9000_varint (Datagram_new 300 [1, 2]) [])
      = Inr (Datagram_new 300 [1, 2])
   \<and> Datagram_encode rfc9000_varint (Datagram_new 300 [1, 2]) []
      \<noteq> Datagram_encode rfc9000_varint (Datagram_new 7 [1, 2]) []"
proof -
  have "be_bytes (Suc (Suc 0)) 16684 = [65, 44]" by simp
  then have two: "be_bytes 2 16684 = [65, 44]" unfolding numeral_2_eq_2 .
  have "Datagram_encode rfc9000_varint (Datagram_new 300 [1, 2]) [] = [65, 44, 1, 2]"
    by (simp add: Datagram_new_def Datagram_encode_def rfc9000_varint_encode rfc9000_size_def two)
  then show ?thesis
    using datagram_roundtrip [OF rfc9000.varint_codec_axioms, of 300 7 "[1, 2]" "[1, 2]"] by simp
qed

text \<open>
  Framing is unambiguous: what \<open>write_message\<close> accepts and writes, \<open>read_message\<close>
  returns, whatever follows on the stream; and when the stream ends anywhere inside the
  message, the reader sees the end of the stream and never a different message.
\<close>

theorem message_framing:
  assumes "appending write_all contents" and "write_message write_all io msg_data = Inr io'"
  shows "\<exists>sent. contents io' = contents io @ sent
     \<and> read_message (sent @ rest) buf = Inr (msg_data, rest, [])
     \<and> (k < length sent \<longrightarrow> read_message (take k sent) buf = Inl UNEXPECTED_EOF)"
  using write_message_frame [OF assms] read_message_frame read_message_partial_frame by blast

theorem message_framing_witness:
  "write_message (\<lambda>out bs. Inr (out @ bs)) [] [7, 8] = Inr [2, 0, 0, 0, 7, 8 :: u8]
   \<and> read_message [2, 0, 0, 0, 7, 8, 9] [] = Inr ([7, 8], [9], [])
   \<and> read_message (take 5 [2, 0, 0, 0, 7, 8]) [] = Inl UNEXPECTED_EOF"
proof -
  have app: "appending (\<lambda>out bs. Inr (out @ bs)) (\<lambda>out. out)" by (simp add: appending_def)
  have wr: "write_message (\<lambda>out bs. Inr (out @ bs)) [] [7, 8] = Inr [2, 0, 0, 0, 7, 8 :: u8]"
    by (simp add: write_message_def MESSAGE_SIZE_LIMIT_def u32_to_le_bytes_def)
  from message_framing [OF app wr, of "[9]" "[]" 5] wr show ?thesis by simp
qed

text \<open>
  C25. The two proxies understand each other: with a zstd and a MessagePack that read back
  what they wrote, whenever a sequence of messages is encoded and written without failure,
  reading and decoding as many messages from the stream gives the same sequence and leaves
  what follows it. The panics of both sides are then out of reach, as is every error.
\<close>

theorem message_stream_roundtrip:
  assumes "message_libs_ok ml" and "appending write_all contents"
    and "send_messages ml write_all io messages = Inr io'"
  shows "\<exists>sent. contents io' = contents io @ sent
     \<and> receive_messages ml (length messages) (sent @ rest) buf = Inr (messages, rest)"
  using receive_sent [OF assms] by blast

text \<open>An instance of the message libraries: batches of single-byte chunk keys, uncompressed.\<close>

definition example_message_libs :: "RequestChunksMessage MessageLibs" where
  "example_message_libs =
     \<lparr>zstd_encoder = (\<lambda>level. Inr Inr),
      zstd_decoder = (\<lambda>data. Inr (data, None)),
      rmp_write = (\<lambda>message. if list_all (\<lambda>k. case k of ChunkKey bs \<Rightarrow> length bs = 1) (requested_chunks message)
         then Inr (map (\<lambda>k. case k of ChunkKey bs \<Rightarrow> hd bs) (requested_chunks message))
         else Inl (Error ''key'')),
      rmp_from_read = (\<lambda>(bs, failure). case failure of Some e \<Rightarrow> Inl e
         | None \<Rightarrow> Inr \<lparr>requested_chunks = map (\<lambda>b. ChunkKey [b]) bs\<rparr>)\<rparr>"

lemma example_message_libs_ok: "message_libs_ok example_message_libs"
proof -
  have keys: "map ((\<lambda>b. ChunkKey [b]) \<circ> (\<lambda>k. case k of ChunkKey bs \<Rightarrow> hd bs)) ks = ks"
    if "list_all (\<lambda>k. case k of ChunkKey bs \<Rightarrow> length bs = 1) ks" for ks
    using that by (induction ks) (auto simp: length_Suc_conv split: ChunkKey.splits)
  have "rmp_from_read example_message_libs (written, None) = Inr message"
    if "rmp_write example_message_libs message = Inr written" for message written
    using that keys [of "requested_chunks message"]
    by (auto simp: example_message_libs_def simp del: One_nat_def split: if_splits)
  then show ?thesis
    by (simp add: message_libs_ok_def) (simp add: example_message_libs_def)
qed

theorem message_stream_roundtrip_witness:
  "send_messages example_message_libs (\<lambda>out bs. Inr (out @ bs)) []
       [\<lparr>requested_chunks = [ChunkKey [5], ChunkKey [6]]\<rparr>, \<lparr>requested_chunks = []\<rparr>]
     = Inr [2, 0, 0, 0, 5, 6, 0, 0, 0, 0]
   \<and> receive_messages example_message_libs 2 [2, 0, 0, 0, 5, 6, 0, 0, 0, 0, 99] []
     = Inr ([\<lparr>requested_chunks = [ChunkKey [5], ChunkKey [6]]\<rparr>, \<lparr>requested_chunks = []\<rparr>], [99])"
proof -
  have app: "appending (\<lambda>out bs. Inr (out @ bs)) (\<lambda>out. out)" by (simp add: appending_def)
  have snd: "send_messages example_message_libs (\<lambda>out bs. Inr (out @ bs)) []
       [\<lparr>requested_chunks = [ChunkKey [5], ChunkKey [6]]\<rparr>, \<lparr>requested_chunks = []\<rparr>]
     = Inr [2, 0, 0, 0, 5, 6, 0, 0, 0, 0]"
    by (simp add: example_message_libs_def encode_message_async_def encode_message_def spawn_blocking_def
        write_message_def MESSAGE_SIZE_LIMIT_def u32_to_le_bytes_def)
  from message_stream_roundtrip [OF example_message_libs_ok app snd, of "[99]" "[]"] snd
  show ?thesis by (simp add: numeral_2_eq_2 del: receive_messages.simps send_messages.simps)
qed

end
