(* ===== verification/Proxy_Common.thy ===== *)
theory Proxy_Common
  imports Peer_Protocol
begin

text \<open>
  What both proxies share: \<open>src/src/proxy/mod.rs\<close>, the bounded channels between the
  connection and the task of a peer, ordered sets of block ids, and the record of the message
  codecs.
\<close>

definition UDP_QUEUE_SIZE :: nat where
  "UDP_QUEUE_SIZE = 512"

datatype PacketDirection = ToClient | ToServer

type_synonym out_packets = "(bytes \<times> PacketDirection) list"

text \<open>
  The sending half of a bounded \<open>tokio\<close> channel, third-party code and a parameter: a new
  channel of a capacity, whether the receiver is gone, and \<open>try_send\<close>, with its result and
  the sender it leaves. The proxies ignore the result (\<open>let _ = ...\<close>).
\<close>

record 'tx Mpsc =
  mpsc_channel :: "nat \<Rightarrow> 'tx"
  mpsc_is_closed :: "'tx \<Rightarrow> bool"
  mpsc_try_send :: "'tx \<Rightarrow> bytes \<Rightarrow> unit outcome \<times> 'tx"

text \<open>What a sender holds after \<open>try_send\<close>, with the messages \<open>queued\<close> in it and its \<open>capacity\<close>.\<close>

definition offered :: "'tx Mpsc \<Rightarrow> ('tx \<Rightarrow> bytes list) \<Rightarrow> ('tx \<Rightarrow> nat) \<Rightarrow> 'tx \<Rightarrow> bytes \<Rightarrow> bytes list" where
  "offered mpsc queued capacity tx p =
     (if \<not> mpsc_is_closed mpsc tx \<and> length (queued tx) < capacity tx then queued tx @ [p] else queued tx)"

text \<open>
  What its documentation promises, in terms of the messages that are \<open>queued\<close>: a new channel is
  open and empty and has its capacity; \<open>try_send\<close> queues the message behind the others, unless
  the channel is closed or full, in which case it fails and the message is gone.
\<close>

locale bounded_channel =
  fixes mpsc :: "'tx Mpsc" and queued :: "'tx \<Rightarrow> bytes list" and capacity :: "'tx \<Rightarrow> nat"
  assumes new_channel: "queued (mpsc_channel mpsc n) = []" "capacity (mpsc_channel mpsc n) = n"
      "\<not> mpsc_is_closed mpsc (mpsc_channel mpsc n)"
    and try_send_ok: "\<not> mpsc_is_closed mpsc tx \<Longrightarrow> length (queued tx) < capacity tx \<Longrightarrow>
      fst (mpsc_try_send mpsc tx p) = Inr () \<and> queued (snd (mpsc_try_send mpsc tx p)) = queued tx @ [p]"
    and try_send_fails: "mpsc_is_closed mpsc tx \<or> capacity tx \<le> length (queued tx) \<Longrightarrow>
      fst (mpsc_try_send mpsc tx p) \<noteq> Inr () \<and> queued (snd (mpsc_try_send mpsc tx p)) = queued tx"
begin

lemma queued_try_send: "queued (snd (mpsc_try_send mpsc tx p)) = offered mpsc queued capacity tx p"
  unfolding offered_def
  using try_send_ok [of tx p] try_send_fails [of tx p] by auto

end

text \<open>Such a channel: its messages, its capacity and whether it is closed.\<close>

record Channel =
  ch_queue :: "bytes list"
  ch_capacity :: nat
  ch_closed :: bool

definition queue_mpsc :: "Channel Mpsc" where
  "queue_mpsc =
     \<lparr>mpsc_channel = (\<lambda>n. \<lparr>ch_queue = [], ch_capacity = n, ch_closed = False\<rparr>),
      mpsc_is_closed = ch_closed,
      mpsc_try_send = (\<lambda>tx p.
        if ch_closed tx then (Inl (Error ''channel closed''), tx)
        else if ch_capacity tx \<le> length (ch_queue tx) then (Inl (Error ''no available capacity''), tx)
        else (Inr (), tx\<lparr>ch_queue := ch_queue tx @ [p]\<rparr>))\<rparr>"

interpretation queue_mpsc: bounded_channel queue_mpsc ch_queue ch_capacity
  by unfold_locales (auto simp: queue_mpsc_def)

text \<open>The actions of the task of a peer: a datagram to the other proxy, a UDP packet.\<close>

datatype 'a Action = SendDatagram bytes | SendTo bytes 'a

text \<open>A \<open>BTreeSet\<close> is its elements in ascending order.\<close>

type_synonym btree_set = "u32 list"

definition btree_insert :: "u32 \<Rightarrow> btree_set \<Rightarrow> btree_set" where
  "btree_insert x s = (if x \<in> set s then s else insort x s)"

definition btree_remove :: "u32 \<Rightarrow> btree_set \<Rightarrow> bool \<times> btree_set" where
  "btree_remove x s = (x \<in> set s, remove1 x s)"

definition btree_range :: "u32 \<Rightarrow> btree_set" where
  "btree_range n = map of_nat [0..<unat n]"

definition btree_ok :: "btree_set \<Rightarrow> bool" where
  "btree_ok s \<longleftrightarrow> sorted s \<and> distinct s"

text \<open>The blocks of a stream.\<close>

definition nth_block :: "bytes \<Rightarrow> nat \<Rightarrow> bytes" where
  "nth_block stream i = take 503 (drop (503 * i) stream)"

text \<open>The codecs of the three messages.\<close>

record ProxyMessages =
  world_ready_libs :: "WorldReadyMessage MessageLibs"
  request_chunks_libs :: "RequestChunksMessage MessageLibs"
  send_chunks_libs :: "SendChunksMessage MessageLibs"

lemma unat_u32_less: "unat (w :: u32) < 2 ^ 32"
  using unsigned_less [of w] by simp

lemma set_btree_insert [simp]: "set (btree_insert x s) = insert x (set s)"
  by (auto simp: btree_insert_def set_insort_key)

lemma btree_ok_insert [simp]: "btree_ok s \<Longrightarrow> btree_ok (btree_insert x s)"
  by (simp add: btree_ok_def btree_insert_def sorted_insort distinct_insort)

lemma length_btree_insert: "x \<notin> set s \<Longrightarrow> length (btree_insert x s) = Suc (length s)"
  by (simp add: btree_insert_def)

lemma btree_ok_remove: "btree_ok s \<Longrightarrow> btree_ok (remove1 x s)"
  by (simp add: btree_ok_def sorted_remove1)

lemma set_remove_btree: "btree_ok s \<Longrightarrow> set (remove1 x s) = set s - {x}"
  by (simp add: btree_ok_def)

lemma set_btree_range: "set (btree_range n) = {i. i < n}"
proof -
  have "i \<in> of_nat ` {0..<unat n}" if "i < n" for i :: u32
    using that by (intro image_eqI [of _ _ "unat i"]) (auto simp: word_less_nat_alt)
  moreover have "of_nat k < n" if "k < unat n" for k
  proof -
    have "k < 2 ^ 32" using that unat_u32_less [of n] by simp
    with that show ?thesis by (simp add: word_less_nat_alt unat_of_nat_u32)
  qed
  ultimately show ?thesis by (auto simp: btree_range_def)
qed

lemma sorted_btree_range: "btree_ok (btree_range n)"
proof -
  have small: "k < 2 ^ 32" if "k < unat n" for k using that unat_u32_less [of n] by simp
  have "inj_on (of_nat :: nat \<Rightarrow> u32) {0..<unat n}"
    by (rule inj_onI) (metis atLeastLessThan_iff small unat_of_nat_u32)
  moreover have "sorted (btree_range n)"
    using small by (auto simp: btree_range_def sorted_map word_le_nat_alt unat_of_nat_u32
        intro!: sorted_wrt_mono_rel [OF _ sorted_wrt_upt])
  ultimately show ?thesis by (simp add: btree_ok_def btree_range_def distinct_map)
qed

end
