(* ===== verification/Server_Proxy.thy ===== *)
theory Server_Proxy
  imports Proxy_Common
begin

text \<open>
  The proxy beside the game server, \<open>src/src/proxy/server_proxy.rs\<close>: per peer, the state
  machine that watches for the announcement of a world, rewrites it, downloads the world
  from the game server block by block and then serves it to the other proxy in deduplicated
  form; and the loops around it. Third-party code is a parameter: \<open>find_iter\<close> of \<open>memchr\<close>, the
  message codecs, and the libraries of the deduplication. Time is the parameter \<open>now\<close>, in
  milliseconds; one call reads the clock once.
\<close>

section \<open>State\<close>

record DownloadingWorldState =
  dw_world_info :: FactorioWorldMetadata
  dw_new_world_info :: FactorioWorldMetadata
  dw_world_block_count :: u32
  dw_download_start_time :: instant
  dw_received_blocks :: "TransferBlockPacket list"
  dw_block_request_queue :: btree_set
  dw_inflight_block_requests :: btree_set
  dw_last_block_time :: instant

datatype ServerProxyPhase =
    WaitingForWorld
  | DownloadingWorld DownloadingWorldState
  | Done

text \<open>The finder is represented by its needle.\<close>

record FilteringPacketsState =
  fp_needle :: bytes
  fp_replace_with :: bytes
  fp_last_replace :: instant

text \<open>\<open>'cs\<close> is the pair of stream halves.\<close>

record 'cs ServerProxyState =
  sp_phase :: ServerProxyPhase
  sp_packet_filter :: "FilteringPacketsState option"
  sp_comp_stream :: "'cs option"

definition INFLIGHT_BLOCK_REQUEST_LIMIT :: nat where
  "INFLIGHT_BLOCK_REQUEST_LIMIT = 16"

definition ServerProxyState_new :: "'cs \<Rightarrow> 'cs ServerProxyState" where
  "ServerProxyState_new comp_stream =
     \<lparr>sp_phase = WaitingForWorld, sp_packet_filter = None, sp_comp_stream = Some comp_stream\<rparr>"

section \<open>Rewriting packets\<close>

type_synonym finder = "bytes \<Rightarrow> bytes \<Rightarrow> nat list"

text \<open>\<open>new_packet_data[pos..pos + n].copy_from_slice(with)\<close> for each position.\<close>

fun replace_at :: "nat list \<Rightarrow> nat \<Rightarrow> bytes \<Rightarrow> bytes \<Rightarrow> bytes outcome" where
  "replace_at [] n replace_with packet = Inr packet"
| "replace_at (pos # positions) n replace_with packet =
     (if pos + n > length packet then Inl (Panic ''range end index out of range'')
      else if length replace_with \<noteq> n then Inl (Panic ''source slice length does not match'')
      else replace_at positions n replace_with
             (take pos packet @ replace_with @ drop (pos + n) packet))"

definition filter_packet ::
    "finder \<Rightarrow> instant \<Rightarrow> FilteringPacketsState \<Rightarrow> bytes \<Rightarrow> (bytes \<times> FilteringPacketsState) outcome" where
  "filter_packet find_iter now state packet_data =
     (let positions = find_iter (fp_needle state) packet_data
      in case replace_at positions (length (fp_needle state)) (fp_replace_with state) packet_data of
           Inl e \<Rightarrow> Inl e
         | Inr new_packet_data \<Rightarrow>
             Inr (new_packet_data,
                  if positions \<noteq> [] then state\<lparr>fp_last_replace := now\<rparr> else state))"

section \<open>Downloading the world\<close>

definition request_packet :: "u32 \<Rightarrow> bytes \<times> PacketDirection" where
  "request_packet block_id = (request_full_packet \<lparr>req_block_id = block_id\<rparr>, ToServer)"

fun request_loop :: "btree_set \<Rightarrow> btree_set \<Rightarrow> out_packets \<Rightarrow> btree_set \<times> btree_set \<times> out_packets" where
  "request_loop [] inflight out_packets = ([], inflight, out_packets)"
| "request_loop (block_id # queue) inflight out_packets =
     (if length inflight < INFLIGHT_BLOCK_REQUEST_LIMIT
      then request_loop queue (btree_insert block_id inflight) (out_packets @ [request_packet block_id])
      else (block_id # queue, inflight, out_packets))"

definition request_next_blocks ::
    "DownloadingWorldState \<Rightarrow> out_packets \<Rightarrow> DownloadingWorldState \<times> out_packets" where
  "request_next_blocks state out_packets =
     (let (queue, inflight, out_packets) =
            request_loop (dw_block_request_queue state) (dw_inflight_block_requests state) out_packets
      in (state\<lparr>dw_block_request_queue := queue, dw_inflight_block_requests := inflight\<rparr>, out_packets))"

definition block_count :: "u32 \<Rightarrow> u32" where
  "block_count len = (len + TRANSFER_BLOCK_SIZE - 1) div TRANSFER_BLOCK_SIZE"

definition transition_to_downloading_world ::
    "finder \<Rightarrow> instant \<Rightarrow> 'cs ServerProxyState \<Rightarrow> bytes \<Rightarrow> FactorioWorldMetadata \<Rightarrow> out_packets
       \<Rightarrow> ('cs ServerProxyState \<times> out_packets) outcome" where
  "transition_to_downloading_world find_iter now self in_packet_data world_info out_packets =
     (let estimated_reconstructed_world_size = world_size world_info * 2;
          new_world_info = world_info\<lparr>world_size := estimated_reconstructed_world_size\<rparr>;
          filtering_state =
            \<lparr>fp_needle = FactorioWorldMetadata_encode world_info [],
             fp_replace_with = FactorioWorldMetadata_encode new_world_info [],
             fp_last_replace = now\<rparr>
      in case filter_packet find_iter now filtering_state in_packet_data of
           Inl e \<Rightarrow> Inl e
         | Inr (in_packet_data, filtering_state) \<Rightarrow>
             let out_packets = out_packets @ [(in_packet_data, ToClient)];
                 world_block_count = block_count (world_size world_info);
                 aux_block_count = block_count (aux_size world_info);
                 total_block_count = world_block_count + aux_block_count;
                 state = \<lparr>dw_world_info = world_info, dw_new_world_info = new_world_info,
                          dw_world_block_count = world_block_count, dw_download_start_time = now,
                          dw_received_blocks = [],
                          dw_block_request_queue = btree_range total_block_count,
                          dw_inflight_block_requests = [], dw_last_block_time = now\<rparr>;
                 (state, out_packets) = request_next_blocks state out_packets
             in Inr (self\<lparr>sp_packet_filter := Some filtering_state,
                          sp_phase := DownloadingWorld state\<rparr>, out_packets))"

text \<open>
  \<open>finalize_world\<close> spawns the transfer: the result is the stream and the download it is given,
  and the state it leaves.
\<close>

type_synonym 'cs spawned = "('cs \<times> DownloadingWorldState) option"

definition finalize_world :: "'cs ServerProxyState \<Rightarrow> ('cs ServerProxyState \<times> 'cs spawned) outcome" where
  "finalize_world self =
     (case sp_phase self of
        DownloadingWorld state \<Rightarrow>
          (case sp_comp_stream self of
             None \<Rightarrow> Inl (Panic ''called `Option::unwrap()` on a `None` value'')
           | Some comp_stream \<Rightarrow>
               Inr (self\<lparr>sp_phase := Done, sp_comp_stream := None\<rparr>, Some (comp_stream, state)))
      | _ \<Rightarrow> Inl (Panic ''internal error: entered unreachable code''))"

text \<open>
  The part of \<open>on_packet_from_server\<close> for a transfer block: \<open>accept_block\<close> is the condition with
  its short-circuit \<open>||\<close> and the body it guards.
\<close>

definition accept_block ::
    "instant \<Rightarrow> DownloadingWorldState \<Rightarrow> TransferBlockPacket \<Rightarrow> DownloadingWorldState" where
  "accept_block now state transfer_block =
     (let (was_inflight, inflight) =
            btree_remove (blk_block_id transfer_block) (dw_inflight_block_requests state);
          (was_queued, queue) =
            (if was_inflight then (False, dw_block_request_queue state)
             else btree_remove (blk_block_id transfer_block) (dw_block_request_queue state));
          state = state\<lparr>dw_inflight_block_requests := inflight, dw_block_request_queue := queue\<rparr>
      in if was_inflight \<or> was_queued
         then state\<lparr>dw_received_blocks := dw_received_blocks state @ [transfer_block],
                    dw_last_block_time := now\<rparr>
         else state)"

definition on_transfer_block ::
    "instant \<Rightarrow> 'cs ServerProxyState \<Rightarrow> DownloadingWorldState \<Rightarrow> TransferBlockPacket \<Rightarrow> out_packets
       \<Rightarrow> ('cs ServerProxyState \<times> out_packets \<times> 'cs spawned) outcome" where
  "on_transfer_block now self state transfer_block out_packets =
     (let state = accept_block now state transfer_block
      in if dw_block_request_queue state = [] \<and> dw_inflight_block_requests state = [] then
           (case finalize_world (self\<lparr>sp_phase := DownloadingWorld state\<rparr>) of
              Inl e \<Rightarrow> Inl e
            | Inr (self, spawned) \<Rightarrow> Inr (self, out_packets, spawned))
         else
           let (state, out_packets) = request_next_blocks state out_packets
           in Inr (self\<lparr>sp_phase := DownloadingWorld state\<rparr>, out_packets, None))"

text \<open>The tail of \<open>on_packet_from_server\<close>: the packet goes on to the client, filtered.\<close>

definition forward_packet ::
    "finder \<Rightarrow> instant \<Rightarrow> 'cs ServerProxyState \<Rightarrow> bytes \<Rightarrow> out_packets
       \<Rightarrow> ('cs ServerProxyState \<times> out_packets \<times> 'cs spawned) outcome" where
  "forward_packet find_iter now self in_packet_data out_packets =
     (case sp_packet_filter self of
        None \<Rightarrow> Inr (self, out_packets @ [(in_packet_data, ToClient)], None)
      | Some filtering_state \<Rightarrow>
          (case filter_packet find_iter now filtering_state in_packet_data of
             Inl e \<Rightarrow> Inl e
           | Inr (in_packet_data, filtering_state) \<Rightarrow>
               Inr (self\<lparr>sp_packet_filter :=
                           (if now - fp_last_replace filtering_state > 30000 then None
                            else Some filtering_state)\<rparr>,
                    out_packets @ [(in_packet_data, ToClient)], None)))"

definition on_packet_from_server ::
    "finder \<Rightarrow> instant \<Rightarrow> 'cs ServerProxyState \<Rightarrow> bytes \<Rightarrow> out_packets
       \<Rightarrow> ('cs ServerProxyState \<times> out_packets \<times> 'cs spawned) outcome" where
  "on_packet_from_server find_iter now self in_packet_data out_packets =
     (case sp_phase self of
        WaitingForWorld \<Rightarrow>
          (case FactorioPacketHeader_decode in_packet_data of
             Inr (header, msg_data) \<Rightarrow>
               if packet_type header = ServerToClientHeartbeat then
                 (case (case ServerToClientHeartbeatPacket_decode msg_data of
                          Inl e \<Rightarrow> Inl e
                        | Inr heartbeat \<Rightarrow> try_decode_map_ready heartbeat) of
                    Inr (Some world_info) \<Rightarrow>
                      (case transition_to_downloading_world find_iter now self in_packet_data world_info out_packets of
                         Inl e \<Rightarrow> Inl e
                       | Inr (self, out_packets) \<Rightarrow> Inr (self, out_packets, None))
                  | _ \<Rightarrow> forward_packet find_iter now self in_packet_data out_packets)
               else forward_packet find_iter now self in_packet_data out_packets
           | Inl _ \<Rightarrow> forward_packet find_iter now self in_packet_data out_packets)
      | DownloadingWorld state \<Rightarrow>
          (let not_a_block =
                 (if now - dw_last_block_time state > 100 then
                    let out_packets = out_packets @ map request_packet (dw_inflight_block_requests state);
                        (state, out_packets) = request_next_blocks state out_packets;
                        state = state\<lparr>dw_last_block_time := now\<rparr>
                    in forward_packet find_iter now (self\<lparr>sp_phase := DownloadingWorld state\<rparr>) in_packet_data out_packets
                  else forward_packet find_iter now self in_packet_data out_packets)
           in case FactorioPacketHeader_decode in_packet_data of
                Inr (header, msg_data) \<Rightarrow>
                  if packet_type header = TransferBlock then
                    (case TransferBlockPacket_decode msg_data of
                       Inl _ \<Rightarrow> Inr (self, out_packets, None)
                     | Inr transfer_block \<Rightarrow> on_transfer_block now self state transfer_block out_packets)
                  else not_a_block
              | Inl _ \<Rightarrow> not_a_block)
      | Done \<Rightarrow> forward_packet find_iter now self in_packet_data out_packets)"

section \<open>Serving the world\<close>

text \<open>The reassembly at the start of \<open>transfer_world_data\<close>; \<open>slice\<close> panics out of range.\<close>

definition assemble_world :: "DownloadingWorldState \<Rightarrow> (bytes \<times> bytes) outcome" where
  "assemble_world downloading_state =
     (let received_data = concat (map blk_data (sort_key blk_block_id (dw_received_blocks downloading_state)));
          aux_data_offset = dw_world_block_count downloading_state * TRANSFER_BLOCK_SIZE;
          ws = world_size (dw_world_info downloading_state);
          as = aux_size (dw_world_info downloading_state);
          aux_end = unat (aux_data_offset + as)
      in if length received_data < unat aux_data_offset + unat as
         then Inl (Error ''Received data length is smaller than expected length'')
         else if unat ws > length received_data then Inl (Panic ''range end out of bounds'')
         else if unat aux_data_offset > aux_end \<or> aux_end > length received_data
         then Inl (Panic ''range end out of bounds'')
         else Inr (take (unat ws) received_data,
                   take (aux_end - unat aux_data_offset) (drop (unat aux_data_offset) received_data)))"

fun lookup_chunks :: "chunk_map \<Rightarrow> ChunkKey list \<Rightarrow> bytes list outcome" where
  "lookup_chunks chunks [] = Inr []"
| "lookup_chunks chunks (key # keys) =
     (case chunks key of
        None \<Rightarrow> Inl (Panic ''Client requested chunk that we don't have'')
      | Some chunk \<Rightarrow>
          (case lookup_chunks chunks keys of Inl e \<Rightarrow> Inl e | Inr rest \<Rightarrow> Inr (chunk # rest)))"

lemma read_message_shrinks: "read_message io buf = Inr (msg_data, io', buf') \<Longrightarrow> length io' < length io"
  unfolding read_message_eq by (auto simp: Let_def split: if_splits)

text \<open>
  The request loop: it ends when reading a message fails with an error. The incoming half of
  the stream is all that the client sends until it closes it.
\<close>

function serve_requests ::
    "ProxyMessages \<Rightarrow> 'io write_all \<Rightarrow> chunk_map \<Rightarrow> 'io \<Rightarrow> bytes \<Rightarrow> bytes \<Rightarrow> 'io outcome" where
  "serve_requests pm write_all chunks send_stream recv_stream buf =
     (case read_message recv_stream buf of
        Inl (Error _) \<Rightarrow> Inr send_stream
      | Inl e \<Rightarrow> Inl e
      | Inr (request_data, recv_stream, buf) \<Rightarrow>
          (case decode_message_async (request_chunks_libs pm) request_data of
             Inl e \<Rightarrow> Inl e
           | Inr request \<Rightarrow>
          (case lookup_chunks chunks (requested_chunks request) of
             Inl e \<Rightarrow> Inl e
           | Inr response_chunks \<Rightarrow>
          (case encode_message_async (send_chunks_libs pm) \<lparr>sent_chunks = response_chunks\<rparr> of
             Inl e \<Rightarrow> Inl e
           | Inr response_data \<Rightarrow>
          (case write_message write_all send_stream response_data of
             Inl e \<Rightarrow> Inl e
           | Inr send_stream \<Rightarrow> serve_requests pm write_all chunks send_stream recv_stream buf)))))"
  by pat_completeness auto
termination
  by (relation "measure (\<lambda>(pm, write_all, chunks, send_stream, recv_stream, buf). length recv_stream)")
    (auto dest: read_message_shrinks)

definition transfer_world_data ::
    "Libs \<Rightarrow> ProxyMessages \<Rightarrow> 'io write_all \<Rightarrow> 'io \<Rightarrow> bytes \<Rightarrow> DownloadingWorldState \<Rightarrow> 'io outcome" where
  "transfer_world_data libs pm write_all send_stream recv_stream downloading_state =
     (case assemble_world downloading_state of Inl e \<Rightarrow> Inl e | Inr (world_data, aux_data) \<Rightarrow>
     (case spawn_blocking (deconstruct_world libs world_data aux_data) of
        Inl e \<Rightarrow> Inl e
      | Inr (world_description, chunks) \<Rightarrow>
     (case encode_message_async (world_ready_libs pm)
         \<lparr>wm_world = world_description, wm_old_info = dw_world_info downloading_state,
          wm_new_info = dw_new_world_info downloading_state\<rparr> of
        Inl e \<Rightarrow> Inl e
      | Inr world_ready_message \<Rightarrow>
     (case write_message write_all send_stream world_ready_message of
        Inl e \<Rightarrow> Inl e
      | Inr send_stream \<Rightarrow> serve_requests pm write_all chunks send_stream recv_stream []))))"

section \<open>The loops around the state machine\<close>

text \<open>
  One round of the loop of \<open>proxy_server\<close>. What the three branches of its \<open>select!\<close> deliver is
  an event; what it sends is an action, and \<open>send_ok\<close> tells which sends succeed. \<open>None\<close> as
  the next state is the return of the task.
\<close>

datatype 'a ServerEvent =
    SocketRecv "(bytes \<times> 'a) option"
  | QueueRecv "bytes option"
  | IdleTimeout

fun drain_server ::
    "VarIntCodec \<Rightarrow> ('a Action \<Rightarrow> bool) \<Rightarrow> VarInt \<Rightarrow> 'a \<Rightarrow> out_packets \<Rightarrow> bool \<times> 'a Action list" where
  "drain_server vc send_ok peer_id factorio_addr [] = (True, [])"
| "drain_server vc send_ok peer_id factorio_addr ((packet_data, dir) # rest) =
     (let action = (case dir of
            ToClient \<Rightarrow> SendDatagram (Datagram_encode vc (Datagram_new peer_id packet_data) [])
          | ToServer \<Rightarrow> SendTo packet_data factorio_addr)
      in if send_ok action then
           let (alive, actions) = drain_server vc send_ok peer_id factorio_addr rest
           in (alive, action # actions)
         else (False, []))"

definition proxy_server_step ::
    "finder \<Rightarrow> VarIntCodec \<Rightarrow> ('a Action \<Rightarrow> bool) \<Rightarrow> VarInt \<Rightarrow> 'a \<Rightarrow> instant \<Rightarrow> 'cs ServerProxyState \<Rightarrow> 'a ServerEvent
       \<Rightarrow> ('cs ServerProxyState option \<times> 'a Action list \<times> 'cs spawned) outcome" where
  "proxy_server_step find_iter vc send_ok peer_id factorio_addr now proxy_state event =
     (let drain = (\<lambda>proxy_state out_packets spawned.
            let (alive, actions) = drain_server vc send_ok peer_id factorio_addr out_packets
            in Inr (if alive then Some proxy_state else None, actions, spawned))
      in case event of
           SocketRecv None \<Rightarrow> Inr (None, [], None)
         | SocketRecv (Some (packet_data, remote_addr)) \<Rightarrow>
             if remote_addr \<noteq> factorio_addr then Inr (Some proxy_state, [], None)
             else (case on_packet_from_server find_iter now proxy_state packet_data [] of
                     Inl e \<Rightarrow> Inl e
                   | Inr (proxy_state, out_packets, spawned) \<Rightarrow> drain proxy_state out_packets spawned)
         | QueueRecv None \<Rightarrow> Inr (None, [], None)
         | QueueRecv (Some packet_data) \<Rightarrow> drain proxy_state [(packet_data, ToServer)] None
         | IdleTimeout \<Rightarrow> Inr (None, [], None))"

text \<open>
  One round of the loop of \<open>run_server_proxy\<close>: a datagram goes to the queue of its peer; a new
  stream starts the task of a new peer, whose id the stream begins with, once a local
  socket is bound for it.
\<close>

datatype ConnectionEvent = ReadDatagram "bytes outcome" | AcceptBi "bytes outcome" "unit outcome"

type_synonym 'tx server_queues = "VarInt \<rightharpoonup> 'tx"

definition run_server_proxy_step ::
    "VarIntCodec \<Rightarrow> 'tx Mpsc \<Rightarrow> 'tx server_queues \<Rightarrow> ConnectionEvent
       \<Rightarrow> ('tx server_queues \<times> (VarInt \<times> bytes) option) outcome" where
  "run_server_proxy_step vc mpsc outgoing_queues event =
     (case event of
        ReadDatagram result \<Rightarrow>
          (case result of Inl e \<Rightarrow> Inl e | Inr data \<Rightarrow>
          (case Datagram_decode vc data of Inl e \<Rightarrow> Inl e | Inr datagram \<Rightarrow>
             Inr (case outgoing_queues (dg_peer_id datagram) of
                    Some outgoing_queue \<Rightarrow>
                      outgoing_queues(dg_peer_id datagram \<mapsto> snd (mpsc_try_send mpsc outgoing_queue (dg_data datagram)))
                  | None \<Rightarrow> outgoing_queues, None)))
      | AcceptBi result bound \<Rightarrow>
          (case result of Inl e \<Rightarrow> Inl e | Inr recv_stream \<Rightarrow>
          (case try_get_u32_le recv_stream of
             Inl _ \<Rightarrow> Inl UNEXPECTED_EOF
           | Inr (peer_id, recv_stream) \<Rightarrow>
          (case bound of Inl e \<Rightarrow> Inl e | Inr _ \<Rightarrow>
             Inr (outgoing_queues(unat peer_id \<mapsto> mpsc_channel mpsc UDP_QUEUE_SIZE), Some (unat peer_id, recv_stream))))))"

section \<open>The contract of the finder\<close>

text \<open>
  \<open>memmem::Finder::find_iter\<close>: the non-overlapping occurrences of a non-empty needle, from
  left to right; an occurrence is left out only when it overlaps a reported one before it.
\<close>

locale memmem =
  fixes find_iter :: finder
  assumes find_iter_match: "needle \<noteq> [] \<Longrightarrow> pos \<in> set (find_iter needle haystack) \<Longrightarrow>
      pos + length needle \<le> length haystack \<and> take (length needle) (drop pos haystack) = needle"
    and find_iter_apart: "needle \<noteq> [] \<Longrightarrow>
      sorted_wrt (\<lambda>p q. p + length needle \<le> q) (find_iter needle haystack)"
    and find_iter_complete: "needle \<noteq> [] \<Longrightarrow> i + length needle \<le> length haystack \<Longrightarrow>
      take (length needle) (drop i haystack) = needle \<Longrightarrow>
      \<exists>pos \<in> set (find_iter needle haystack). pos \<le> i \<and> i < pos + length needle"

fun naive_find :: "nat \<Rightarrow> nat \<Rightarrow> bytes \<Rightarrow> bytes \<Rightarrow> nat list" where
  "naive_find k skip needle [] = []"
| "naive_find k 0 needle (b # bs) =
     (if take (length needle) (b # bs) = needle then k # naive_find (Suc k) (length needle - 1) needle bs
      else naive_find (Suc k) 0 needle bs)"
| "naive_find k (Suc skip) needle (b # bs) = naive_find (Suc k) skip needle bs"

lemma naive_find_lower: "pos \<in> set (naive_find k skip needle bs) \<Longrightarrow> k + skip \<le> pos"
  by (induction k skip needle bs rule: naive_find.induct) (fastforce split: if_splits)+

lemma naive_find_match:
  "needle \<noteq> [] \<Longrightarrow> pos \<in> set (naive_find k skip needle bs) \<Longrightarrow>
     pos - k + length needle \<le> length bs \<and> take (length needle) (drop (pos - k) bs) = needle"
proof (induction k skip needle bs rule: naive_find.induct)
  case (2 k needle b bs)
  have low: "k < pos" if "pos \<in> set (naive_find (Suc k) s needle bs)" for s
    using naive_find_lower [OF that] by simp
  show ?case
  proof (cases "take (length needle) (b # bs) = needle \<and> pos = k")
    case True
    then have "length needle \<le> length (b # bs)" by (metis length_take min.cobounded1)
    with True show ?thesis by simp
  next
    case False
    then have "k < pos" "pos - Suc k + length needle \<le> length bs \<and>
        take (length needle) (drop (pos - Suc k) bs) = needle"
      using 2 by (auto split: if_splits dest: low)
    moreover from this have "pos - k = Suc (pos - Suc k)" by simp
    ultimately show ?thesis by simp
  qed
next
  case (3 k skip needle b bs)
  have "k < pos" using naive_find_lower 3(3) by fastforce
  then have "pos - k = Suc (pos - Suc k)" by simp
  with 3 show ?case by simp
qed simp

lemma naive_find_apart:
  "needle \<noteq> [] \<Longrightarrow> sorted_wrt (\<lambda>p q. p + length needle \<le> q) (naive_find k skip needle bs)"
proof (induction k skip needle bs rule: naive_find.induct)
  case (2 k needle b bs)
  then show ?case using naive_find_lower [of _ "Suc k" "length needle - 1" needle bs] by (auto simp: Suc_le_eq)
qed auto

lemma naive_find_complete:
  "needle \<noteq> [] \<Longrightarrow> skip \<le> i \<Longrightarrow> i + length needle \<le> length bs \<Longrightarrow> take (length needle) (drop i bs) = needle \<Longrightarrow>
     \<exists>pos \<in> set (naive_find k skip needle bs). pos \<le> k + i \<and> k + i < pos + length needle"
proof (induction k skip needle bs arbitrary: i rule: naive_find.induct)
  case (2 k needle b bs)
  show ?case
  proof (cases "take (length needle) (b # bs) = needle")
    case True
    show ?thesis
    proof (cases "i < length needle")
      case True
      with \<open>take (length needle) (b # bs) = needle\<close> show ?thesis by simp
    next
      case False
      then obtain j where "i = Suc j" using 2(3) by (cases i) auto
      with 2(1) [OF True, of j] 2(3-6) False True show ?thesis by auto
    qed
  next
    case False
    then obtain j where "i = Suc j" using 2(6) by (cases i) auto
    with 2(2) [OF False, of j] 2(3-6) False show ?thesis by auto
  qed
next
  case (3 k skip needle b bs)
  then obtain j where "i = Suc j" by (cases i) auto
  with 3(1) [of j] 3(2-5) show ?case by auto
qed simp

definition naive_find_iter :: finder where
  "naive_find_iter needle haystack = naive_find 0 0 needle haystack"

interpretation naive: memmem naive_find_iter
  using naive_find_match [of _ _ 0] naive_find_apart naive_find_complete [of _ 0 _ _ 0]
  by unfold_locales (auto simp: naive_find_iter_def)

section \<open>Rewriting is exact\<close>

lemma splice_nth:
  assumes "pos + n \<le> length packet" and "length r = n"
  shows "length (take pos packet @ r @ drop (pos + n) packet) = length packet"
    and "take n (drop pos (take pos packet @ r @ drop (pos + n) packet)) = r"
    and "i < length packet \<Longrightarrow> \<not> (pos \<le> i \<and> i < pos + n) \<Longrightarrow>
       (take pos packet @ r @ drop (pos + n) packet) ! i = packet ! i"
  using assms by (auto simp: nth_append not_less)

lemma slice_cong:
  "length xs = length ys \<Longrightarrow> pos + n \<le> length xs \<Longrightarrow> (\<And>i. pos \<le> i \<Longrightarrow> i < pos + n \<Longrightarrow> xs ! i = ys ! i) \<Longrightarrow>
     take n (drop pos xs) = take n (drop pos ys)"
  by (rule nth_equalityI) auto

lemma replace_at_spec:
  assumes "sorted_wrt (\<lambda>p q. p + n \<le> q) ps" and "\<forall>p \<in> set ps. p + n \<le> length packet" and "length r = n"
  shows "\<exists>out. replace_at ps n r packet = Inr out \<and> length out = length packet
     \<and> (\<forall>p \<in> set ps. take n (drop p out) = r)
     \<and> (\<forall>i < length packet. (\<forall>p \<in> set ps. \<not> (p \<le> i \<and> i < p + n)) \<longrightarrow> out ! i = packet ! i)"
  using assms
proof (induction ps arbitrary: packet)
  case (Cons p ps)
  let ?packet = "take p packet @ r @ drop (p + n) packet"
  have fit: "p + n \<le> length packet" using Cons.prems by simp
  note sp = splice_nth [OF fit Cons.prems(3)]
  have "sorted_wrt (\<lambda>p q. p + n \<le> q) ps" "\<forall>q \<in> set ps. q + n \<le> length ?packet"
    using Cons.prems sp(1) by (auto simp del: length_append)
  from Cons.IH [OF this Cons.prems(3)] obtain out where
    out: "replace_at ps n r ?packet = Inr out" "length out = length packet"
      "\<forall>q \<in> set ps. take n (drop q out) = r"
      "\<forall>i < length packet. (\<forall>q \<in> set ps. \<not> (q \<le> i \<and> i < q + n)) \<longrightarrow> out ! i = ?packet ! i"
    using sp(1) by auto
  have "out ! i = ?packet ! i" if "p \<le> i" "i < p + n" for i
  proof -
    have "\<forall>q \<in> set ps. \<not> (q \<le> i \<and> i < q + n)" using that Cons.prems(1) by auto
    moreover have "i < length packet" using that fit by simp
    ultimately show ?thesis using out(4) by blast
  qed
  then have "take n (drop p out) = take n (drop p ?packet)"
    using fit out(2) sp(1) by (intro slice_cong) auto
  then have "take n (drop p out) = r" using sp(2) by simp
  moreover have "out ! i = packet ! i"
    if "i < length packet" "\<forall>q \<in> set (p # ps). \<not> (q \<le> i \<and> i < q + n)" for i
    using that out(4) sp(3) by simp
  ultimately show ?case using out fit Cons.prems(3) by (intro exI [of _ out]) simp
qed simp

end
