(* ===== verification/Server_Download.thy ===== *)
theory Server_Download
  imports Server_Proxy
begin

text \<open>
  The state machine of the server-side proxy over runs of packets: the invariant of the
  download, its completeness, the reassembly of the world from its blocks, and the rewriting
  of the announcement.
\<close>

section \<open>The download\<close>

definition total_blocks :: "DownloadingWorldState \<Rightarrow> u32" where
  "total_blocks st = block_count (world_size (dw_world_info st)) + block_count (aux_size (dw_world_info st))"

text \<open>
  The invariant of a download: the block ids are split between the queue, the requests in
  flight and the received blocks; requests are topped up to the limit; and every received
  block satisfies \<open>Q\<close>, by which a property follows blocks from the packets they came in.
\<close>

definition blocks_ok :: "u32 \<Rightarrow> btree_set \<Rightarrow> btree_set \<Rightarrow> u32 list \<Rightarrow> bool" where
  "blocks_ok n queue inflight ids \<longleftrightarrow>
     btree_ok queue \<and> btree_ok inflight \<and> distinct ids
     \<and> set queue \<inter> set inflight = {} \<and> set ids \<inter> (set queue \<union> set inflight) = {}
     \<and> set queue \<union> set inflight \<union> set ids = {i. i < n}"

definition topped_up :: "btree_set \<Rightarrow> btree_set \<Rightarrow> bool" where
  "topped_up queue inflight \<longleftrightarrow> length inflight \<le> INFLIGHT_BLOCK_REQUEST_LIMIT
     \<and> (queue \<noteq> [] \<longrightarrow> length inflight = INFLIGHT_BLOCK_REQUEST_LIMIT)"

abbreviation received_ids :: "DownloadingWorldState \<Rightarrow> u32 list" where
  "received_ids st \<equiv> map blk_block_id (dw_received_blocks st)"

definition dl_ok :: "(TransferBlockPacket \<Rightarrow> bool) \<Rightarrow> DownloadingWorldState \<Rightarrow> bool" where
  "dl_ok Q st \<longleftrightarrow>
     blocks_ok (total_blocks st) (dw_block_request_queue st) (dw_inflight_block_requests st) (received_ids st)
     \<and> list_all Q (dw_received_blocks st)
     \<and> dw_world_block_count st = block_count (world_size (dw_world_info st))
     \<and> dw_new_world_info st = (dw_world_info st)\<lparr>world_size := world_size (dw_world_info st) * 2\<rparr>"

definition phase_ok :: "(TransferBlockPacket \<Rightarrow> bool) \<Rightarrow> 'cs \<Rightarrow> ServerProxyPhase \<Rightarrow> 'cs option \<Rightarrow> bool" where
  "phase_ok Q cs phase comp_stream \<longleftrightarrow>
     (case phase of
        WaitingForWorld \<Rightarrow> comp_stream = Some cs
      | DownloadingWorld st \<Rightarrow> comp_stream = Some cs \<and> dl_ok Q st
          \<and> topped_up (dw_block_request_queue st) (dw_inflight_block_requests st)
          \<and> (dw_inflight_block_requests st = [] \<longrightarrow> total_blocks st = 0)
      | Done \<Rightarrow> True)"

definition filter_ok :: "FilteringPacketsState \<Rightarrow> bool" where
  "filter_ok f \<longleftrightarrow> length (fp_needle f) = 20 \<and> length (fp_replace_with f) = 20"

definition sp_ok :: "(TransferBlockPacket \<Rightarrow> bool) \<Rightarrow> 'cs \<Rightarrow> 'cs ServerProxyState \<Rightarrow> bool" where
  "sp_ok Q cs s \<longleftrightarrow> phase_ok Q cs (sp_phase s) (sp_comp_stream s) \<and> pred_option filter_ok (sp_packet_filter s)"

lemma request_loop_spec:
  assumes "request_loop queue inflight out = (queue', inflight', out')"
    and "blocks_ok n queue inflight ids" and "length inflight \<le> INFLIGHT_BLOCK_REQUEST_LIMIT"
  shows "blocks_ok n queue' inflight' ids \<and> topped_up queue' inflight'
     \<and> (\<exists>sent. queue = sent @ queue' \<and> out' = out @ map request_packet sent \<and> set inflight' = set inflight \<union> set sent)"
  using assms
proof (induction queue inflight out rule: request_loop.induct)
  case (2 block_id queue inflight out)
  show ?case
  proof (cases "length inflight < INFLIGHT_BLOCK_REQUEST_LIMIT")
    case True
    have "blocks_ok n queue (btree_insert block_id inflight) ids"
      using 2(3) by (auto simp: blocks_ok_def btree_ok_def) (simp_all add: btree_insert_def sorted_insort distinct_insort)
    moreover have "length (btree_insert block_id inflight) \<le> INFLIGHT_BLOCK_REQUEST_LIMIT"
      using True by (simp add: btree_insert_def)
    ultimately have "blocks_ok n queue' inflight' ids \<and> topped_up queue' inflight' \<and>
      (\<exists>sent. queue = sent @ queue' \<and> out' = (out @ [request_packet block_id]) @ map request_packet sent
         \<and> set inflight' = set (btree_insert block_id inflight) \<union> set sent)"
      using 2(1) [OF True] 2(2) True by simp
    then show ?thesis by (auto intro: exI [of _ "block_id # sent" for sent])
  next
    case False
    with 2 show ?thesis by (simp add: topped_up_def)
  qed
qed (simp add: topped_up_def)

lemma request_next_blocks_spec:
  assumes "request_next_blocks st out = (st', out')" and "dl_ok Q st"
    and "length (dw_inflight_block_requests st) \<le> INFLIGHT_BLOCK_REQUEST_LIMIT"
  shows "dl_ok Q st' \<and> topped_up (dw_block_request_queue st') (dw_inflight_block_requests st')
     \<and> total_blocks st' = total_blocks st
     \<and> (dw_inflight_block_requests st' = [] \<longrightarrow> dw_inflight_block_requests st = [] \<and> dw_block_request_queue st = [])
     \<and> (\<exists>sent. out' = out @ map request_packet sent
          \<and> set (dw_inflight_block_requests st') = set (dw_inflight_block_requests st) \<union> set sent)"
proof -
  obtain queue inflight where l: "request_loop (dw_block_request_queue st) (dw_inflight_block_requests st) out
      = (queue, inflight, out')"
    and st': "st' = st\<lparr>dw_block_request_queue := queue, dw_inflight_block_requests := inflight\<rparr>"
    using assms(1) by (auto simp: request_next_blocks_def split: prod.splits)
  have "blocks_ok (total_blocks st) (dw_block_request_queue st) (dw_inflight_block_requests st) (received_ids st)"
    using assms(2) by (simp add: dl_ok_def)
  from request_loop_spec [OF l this assms(3)] have r: "blocks_ok (total_blocks st) queue inflight (received_ids st)"
    "topped_up queue inflight"
    and sent: "\<exists>sent. dw_block_request_queue st = sent @ queue \<and> out' = out @ map request_packet sent
       \<and> set inflight = set (dw_inflight_block_requests st) \<union> set sent"
    by auto
  have empty: "dw_inflight_block_requests st = [] \<and> dw_block_request_queue st = []" if "inflight = []"
    using that r(2) sent by (auto simp: topped_up_def INFLIGHT_BLOCK_REQUEST_LIMIT_def)
  have t: "total_blocks st' = total_blocks st" by (simp add: total_blocks_def st')
  show ?thesis using assms(2) r sent empty unfolding dl_ok_def t by (auto simp: st')
qed

lemma filter_packet_ok:
  assumes "memmem find_iter" and "filter_ok f"
  shows "\<exists>packet' f'. filter_packet find_iter now f packet = Inr (packet', f')
     \<and> length packet' = length packet \<and> filter_ok f'"
proof -
  have ne: "fp_needle f \<noteq> []" using assms(2) by (auto simp: filter_ok_def)
  have "sorted_wrt (\<lambda>p q. p + length (fp_needle f) \<le> q) (find_iter (fp_needle f) packet)"
    "\<forall>p \<in> set (find_iter (fp_needle f) packet). p + length (fp_needle f) \<le> length packet"
    using memmem.find_iter_apart [OF assms(1) ne] memmem.find_iter_match [OF assms(1) ne] by blast+
  from replace_at_spec [OF this, of "fp_replace_with f"] assms(2) show ?thesis
    by (auto simp: filter_packet_def Let_def filter_ok_def)
qed

lemma forward_packet_ok:
  assumes "memmem find_iter" and "sp_ok Q cs s"
  shows "\<exists>s' packet'. forward_packet find_iter now s packet out = Inr (s', out @ [(packet', ToClient)], None)
     \<and> length packet' = length packet \<and> sp_ok Q cs s' \<and> sp_phase s' = sp_phase s"
proof (cases "sp_packet_filter s")
  case None
  then show ?thesis using assms(2) by (simp add: forward_packet_def)
next
  case (Some f)
  then have "filter_ok f" using assms(2) by (simp add: sp_ok_def)
  from filter_packet_ok [OF assms(1) this, of now packet] Some assms(2) show ?thesis
    by (auto simp: forward_packet_def sp_ok_def)
qed

lemma transition_ok:
  assumes "memmem find_iter" and "sp_comp_stream s = Some cs"
  shows "\<exists>s' packet' sent st. transition_to_downloading_world find_iter now s packet info out
       = Inr (s', out @ (packet', ToClient) # map request_packet sent)
     \<and> length packet' = length packet \<and> sp_ok Q cs s' \<and> sp_phase s' = DownloadingWorld st
     \<and> set (dw_inflight_block_requests st) = set sent"
proof -
  let ?new = "info\<lparr>world_size := world_size info * 2\<rparr>"
  let ?f = "\<lparr>fp_needle = FactorioWorldMetadata_encode info [],
             fp_replace_with = FactorioWorldMetadata_encode ?new [], fp_last_replace = now\<rparr>"
  obtain packet' f' where f: "filter_packet find_iter now ?f packet = Inr (packet', f')" "length packet' = length packet"
    "filter_ok f'"
    using filter_packet_ok [OF assms(1), of ?f now packet]
    by (auto simp: length_FactorioWorldMetadata_encode filter_ok_def)
  let ?st = "\<lparr>dw_world_info = info, dw_new_world_info = ?new,
      dw_world_block_count = block_count (world_size info), dw_download_start_time = now, dw_received_blocks = [],
      dw_block_request_queue = btree_range (block_count (world_size info) + block_count (aux_size info)),
      dw_inflight_block_requests = [], dw_last_block_time = now\<rparr>"
  have "dl_ok Q ?st"
    by (simp add: dl_ok_def blocks_ok_def total_blocks_def sorted_btree_range set_btree_range)
      (simp add: btree_ok_def)
  obtain st out' where r: "request_next_blocks ?st (out @ [(packet', ToClient)]) = (st, out')"
    by (cases "request_next_blocks ?st (out @ [(packet', ToClient)])")
  from request_next_blocks_spec [OF r \<open>dl_ok Q ?st\<close>] obtain sent where
    st: "dl_ok Q st" "topped_up (dw_block_request_queue st) (dw_inflight_block_requests st)"
    "dw_inflight_block_requests st = [] \<longrightarrow> dw_block_request_queue ?st = []" "total_blocks st = total_blocks ?st"
    and sent: "out' = (out @ [(packet', ToClient)]) @ map request_packet sent"
      "set (dw_inflight_block_requests st) = set sent"
    by (auto simp: INFLIGHT_BLOCK_REQUEST_LIMIT_def)
  have "total_blocks st = 0" if "dw_inflight_block_requests st = []"
    using st(3,4) that set_btree_range [of "total_blocks ?st"]
    by (simp add: total_blocks_def) (metis word_gt_0)
  then show ?thesis
    using f r st sent assms(2)
    by (auto simp: transition_to_downloading_world_def Let_def sp_ok_def phase_ok_def)
qed

lemma accept_block_spec:
  assumes "dl_ok Q st" and "Q b"
  shows "dl_ok Q (accept_block now st b)"
    and "length (dw_inflight_block_requests (accept_block now st b)) \<le> length (dw_inflight_block_requests st)"
proof -
  let ?id = "blk_block_id b"
  have ok: "blocks_ok (total_blocks st) (dw_block_request_queue st) (dw_inflight_block_requests st) (received_ids st)"
    using assms(1) by (simp add: dl_ok_def)
  then have inv: "btree_ok (dw_block_request_queue st)" "btree_ok (dw_inflight_block_requests st)"
    by (simp_all add: blocks_ok_def)
  consider (inflight) "?id \<in> set (dw_inflight_block_requests st)"
    | (queued) "?id \<notin> set (dw_inflight_block_requests st)" "?id \<in> set (dw_block_request_queue st)"
    | (neither) "?id \<notin> set (dw_inflight_block_requests st)" "?id \<notin> set (dw_block_request_queue st)"
    by blast
  then have "dl_ok Q (accept_block now st b)
      \<and> length (dw_inflight_block_requests (accept_block now st b)) \<le> length (dw_inflight_block_requests st)"
  proof cases
    case inflight
    then have "blocks_ok (total_blocks st) (dw_block_request_queue st)
        (remove1 ?id (dw_inflight_block_requests st)) (received_ids st @ [?id])"
      using ok by (auto simp: blocks_ok_def btree_ok_remove set_remove_btree)
    with inflight assms show ?thesis
      by (auto simp: accept_block_def btree_remove_def dl_ok_def total_blocks_def length_remove1)
  next
    case queued
    then have "blocks_ok (total_blocks st) (remove1 ?id (dw_block_request_queue st))
        (dw_inflight_block_requests st) (received_ids st @ [?id])"
      using ok by (auto simp: blocks_ok_def btree_ok_remove set_remove_btree)
    with queued assms show ?thesis
      by (auto simp: accept_block_def btree_remove_def dl_ok_def total_blocks_def remove1_idem)
  next
    case neither
    with assms show ?thesis
      by (simp add: accept_block_def btree_remove_def dl_ok_def total_blocks_def remove1_idem)
  qed
  then show "dl_ok Q (accept_block now st b)"
    "length (dw_inflight_block_requests (accept_block now st b)) \<le> length (dw_inflight_block_requests st)" by auto
qed

text \<open>A download that is handed over: nothing queued, nothing in flight, all received.\<close>

definition complete :: "(TransferBlockPacket \<Rightarrow> bool) \<Rightarrow> DownloadingWorldState \<Rightarrow> bool" where
  "complete Q st \<longleftrightarrow> dl_ok Q st \<and> dw_block_request_queue st = [] \<and> dw_inflight_block_requests st = []"

lemma on_transfer_block_ok:
  assumes "sp_ok Q cs s" and "sp_phase s = DownloadingWorld st" and "Q b"
  shows "\<exists>s' out' sp. on_transfer_block now s st b out = Inr (s', out', sp) \<and> sp_ok Q cs s'
     \<and> (case sp of None \<Rightarrow> True | Some (c, st') \<Rightarrow> c = cs \<and> complete Q st' \<and> sp_phase s' = Done)"
proof -
  have st: "dl_ok Q st" "length (dw_inflight_block_requests st) \<le> INFLIGHT_BLOCK_REQUEST_LIMIT" "sp_comp_stream s = Some cs"
    using assms(1,2) by (simp_all add: sp_ok_def phase_ok_def topped_up_def)
  let ?st = "accept_block now st b"
  note acc = accept_block_spec [OF st(1) assms(3), of now]
  show ?thesis
  proof (cases "dw_block_request_queue ?st = [] \<and> dw_inflight_block_requests ?st = []")
    case True
    then show ?thesis using acc(1) st(3) assms(1)
      by (simp add: on_transfer_block_def Let_def finalize_world_def complete_def sp_ok_def phase_ok_def)
  next
    case False
    obtain st' out' where r: "request_next_blocks ?st out = (st', out')" by (cases "request_next_blocks ?st out")
    have "length (dw_inflight_block_requests ?st) \<le> INFLIGHT_BLOCK_REQUEST_LIMIT" using acc(2) st(2) by simp
    from request_next_blocks_spec [OF r acc(1) this] False
    have "dl_ok Q st'" "topped_up (dw_block_request_queue st') (dw_inflight_block_requests st')"
      "dw_inflight_block_requests st' \<noteq> []" by auto
    with False r st(3) assms(1) show ?thesis
      by (auto simp: on_transfer_block_def Let_def sp_ok_def phase_ok_def)
  qed
qed

text \<open>The transfer block a packet carries.\<close>

definition block_of :: "bytes \<Rightarrow> TransferBlockPacket option" where
  "block_of packet =
     (case FactorioPacketHeader_decode packet of
        Inl _ \<Rightarrow> None
      | Inr (header, msg_data) \<Rightarrow>
          if packet_type header = TransferBlock
          then (case TransferBlockPacket_decode msg_data of Inl _ \<Rightarrow> None | Inr b \<Rightarrow> Some b) else None)"

text \<open>The world a packet announces.\<close>

definition announcement_of :: "bytes \<Rightarrow> FactorioWorldMetadata option" where
  "announcement_of packet =
     (case FactorioPacketHeader_decode packet of
        Inl _ \<Rightarrow> None
      | Inr (header, msg_data) \<Rightarrow>
          if packet_type header = ServerToClientHeartbeat
          then (case ServerToClientHeartbeatPacket_decode msg_data of
                  Inl _ \<Rightarrow> None
                | Inr heartbeat \<Rightarrow> (case try_decode_map_ready heartbeat of Inl _ \<Rightarrow> None | Inr info \<Rightarrow> info))
          else None)"

lemma on_packet_waiting:
  assumes "sp_phase s = WaitingForWorld"
  shows "on_packet_from_server find_iter now s packet out =
     (case announcement_of packet of
        None \<Rightarrow> forward_packet find_iter now s packet out
      | Some info \<Rightarrow>
          (case transition_to_downloading_world find_iter now s packet info out of
             Inl e \<Rightarrow> Inl e | Inr (s', out') \<Rightarrow> Inr (s', out', None)))"
  using assms by (simp add: on_packet_from_server_def announcement_of_def split: sum.splits option.splits)

lemma stale_download_ok:
  assumes "memmem find_iter" and "sp_ok Q cs s" and "sp_phase s = DownloadingWorld st"
    and "request_next_blocks st (out @ map request_packet (dw_inflight_block_requests st)) = (st', out')"
  shows "\<exists>s' packet'. forward_packet find_iter now (s\<lparr>sp_phase := DownloadingWorld (st'\<lparr>dw_last_block_time := now\<rparr>)\<rparr>) packet out'
       = Inr (s', out' @ [(packet', ToClient)], None) \<and> sp_ok Q cs s'"
proof -
  have st: "dl_ok Q st" "length (dw_inflight_block_requests st) \<le> INFLIGHT_BLOCK_REQUEST_LIMIT" "sp_comp_stream s = Some cs"
      "dw_inflight_block_requests st = [] \<longrightarrow> total_blocks st = 0"
    using assms(2,3) by (simp_all add: sp_ok_def phase_ok_def topped_up_def)
  from request_next_blocks_spec [OF assms(4) st(1,2)]
  have "sp_ok Q cs (s\<lparr>sp_phase := DownloadingWorld (st'\<lparr>dw_last_block_time := now\<rparr>)\<rparr>)"
    using st(3,4) assms(2) by (auto simp: sp_ok_def phase_ok_def dl_ok_def total_blocks_def)
  from forward_packet_ok [OF assms(1) this] show ?thesis by blast
qed

lemma on_packet_ok:
  assumes "memmem find_iter" and "sp_ok Q cs s" and "pred_option Q (block_of packet)"
  shows "\<exists>s' out' sp. on_packet_from_server find_iter now s packet out = Inr (s', out', sp) \<and> sp_ok Q cs s'
     \<and> (case sp of None \<Rightarrow> True | Some (c, st) \<Rightarrow> c = cs \<and> complete Q st \<and> sp_phase s' = Done)
     \<and> (sp_phase s = Done \<longrightarrow> sp_phase s' = Done \<and> sp = None)"
proof (cases "sp_phase s")
  case WaitingForWorld
  then have "sp_comp_stream s = Some cs" using assms(2) by (simp add: sp_ok_def phase_ok_def)
  note comp = this
  show ?thesis
  proof (cases "announcement_of packet")
    case None
    then show ?thesis using forward_packet_ok [OF assms(1,2), of now packet out] WaitingForWorld
      by (auto simp: on_packet_waiting)
  next
    case (Some info)
    then show ?thesis using transition_ok [OF assms(1) comp, of now packet info out Q] WaitingForWorld
      by (auto simp: on_packet_waiting)
  qed
next
  case (DownloadingWorld st)
  show ?thesis
  proof (cases "\<exists>header msg_data. FactorioPacketHeader_decode packet = Inr (header, msg_data) \<and> packet_type header = TransferBlock")
    case True
    then obtain header msg_data where p: "FactorioPacketHeader_decode packet = Inr (header, msg_data)"
      "packet_type header = TransferBlock" by blast
    show ?thesis
    proof (cases "TransferBlockPacket_decode msg_data")
      case (Inl e)
      then show ?thesis using p assms(2) DownloadingWorld by (simp add: on_packet_from_server_def)
    next
      case (Inr b)
      then have "Q b" using assms(3) p by (simp add: block_of_def)
      from on_transfer_block_ok [OF assms(2) DownloadingWorld this, of now out] p Inr DownloadingWorld
      show ?thesis by (simp add: on_packet_from_server_def)
    qed
  next
    case False
    obtain st' out' where "request_next_blocks st (out @ map request_packet (dw_inflight_block_requests st)) = (st', out')"
      by (cases "request_next_blocks st (out @ map request_packet (dw_inflight_block_requests st))")
    with stale_download_ok [OF assms(1,2) DownloadingWorld this, of now packet]
      forward_packet_ok [OF assms(1,2), of now packet out] False DownloadingWorld show ?thesis
      by (auto simp: on_packet_from_server_def Let_def split: sum.splits)
  qed
next
  case Done
  then show ?thesis using forward_packet_ok [OF assms(1,2), of now packet out]
    by (auto simp: on_packet_from_server_def)
qed

section \<open>Runs\<close>

text \<open>A run of the state machine over the packets of the server, with the times they arrive.\<close>

fun run_packets ::
    "finder \<Rightarrow> 'cs ServerProxyState \<Rightarrow> (instant \<times> bytes) list
       \<Rightarrow> ('cs ServerProxyState \<times> out_packets \<times> ('cs \<times> DownloadingWorldState) list) outcome" where
  "run_packets find_iter s [] = Inr (s, [], [])"
| "run_packets find_iter s ((now, packet) # packets) =
     (case on_packet_from_server find_iter now s packet [] of
        Inl e \<Rightarrow> Inl e
      | Inr (s, out, spawned) \<Rightarrow>
          (case run_packets find_iter s packets of
             Inl e \<Rightarrow> Inl e
           | Inr (s, outs, spawns) \<Rightarrow>
               Inr (s, out @ outs, (case spawned of None \<Rightarrow> [] | Some sp \<Rightarrow> [sp]) @ spawns)))"

lemma run_packets_ok:
  assumes "memmem find_iter" and "sp_ok Q cs s" and "list_all (\<lambda>(_, packet). pred_option Q (block_of packet)) packets"
  shows "\<exists>s' out spawns. run_packets find_iter s packets = Inr (s', out, spawns) \<and> sp_ok Q cs s'
     \<and> list_all (\<lambda>(c, st). c = cs \<and> complete Q st) spawns
     \<and> (sp_phase s = Done \<longrightarrow> spawns = [] \<and> sp_phase s' = Done) \<and> length spawns \<le> 1
     \<and> (spawns \<noteq> [] \<longrightarrow> sp_phase s' = Done)"
  using assms(2,3)
proof (induction packets arbitrary: s)
  case (Cons p packets)
  obtain now packet where p: "p = (now, packet)" by (cases p)
  from on_packet_ok [OF assms(1) Cons.prems(1), of packet now "[]"] Cons.prems(2) obtain s1 out sp where
    1: "on_packet_from_server find_iter now s packet [] = Inr (s1, out, sp)" "sp_ok Q cs s1"
      "case sp of None \<Rightarrow> True | Some (c, st) \<Rightarrow> c = cs \<and> complete Q st \<and> sp_phase s1 = Done"
      "sp_phase s = Done \<longrightarrow> sp_phase s1 = Done \<and> sp = None"
    by (auto simp: p)
  from Cons.IH [OF 1(2)] Cons.prems(2) obtain s' outs spawns where
    2: "run_packets find_iter s1 packets = Inr (s', outs, spawns)" "sp_ok Q cs s'"
      "list_all (\<lambda>(c, st). c = cs \<and> complete Q st) spawns" "length spawns \<le> 1"
      "sp_phase s1 = Done \<longrightarrow> spawns = [] \<and> sp_phase s' = Done" "spawns \<noteq> [] \<longrightarrow> sp_phase s' = Done"
    by auto
  show ?case
  proof (cases sp)
    case None
    with 1 2 show ?thesis by (auto simp: p)
  next
    case (Some x)
    with 1 2 show ?thesis by (cases x) (auto simp: p)
  qed
qed simp

lemma sp_ok_new: "sp_ok Q cs (ServerProxyState_new cs)"
  by (simp add: sp_ok_def phase_ok_def ServerProxyState_new_def)

lemma complete_ids:
  assumes "complete Q st"
  shows "map blk_block_id (sort_key blk_block_id (dw_received_blocks st)) = btree_range (total_blocks st)"
proof -
  have "sorted (map blk_block_id (sort_key blk_block_id (dw_received_blocks st)))" by simp
  moreover have d: "distinct (received_ids st)" "set (received_ids st) = set (btree_range (total_blocks st))"
    using assms by (auto simp: complete_def dl_ok_def blocks_ok_def set_btree_range)
  then have "distinct (map blk_block_id (sort_key blk_block_id (dw_received_blocks st)))"
    by (metis distinct_map distinct_sort set_sort)
  moreover have "set (map blk_block_id (sort_key blk_block_id (dw_received_blocks st))) = set (btree_range (total_blocks st))"
    using d(2) by simp
  ultimately show ?thesis
    using sorted_btree_range [of "total_blocks st"]
    by (intro sorted_distinct_set_unique) (simp_all add: btree_ok_def)
qed

section \<open>Reassembly\<close>

lemma concat_nth_blocks: "concat (map (nth_block stream) [0..<n]) = take (503 * n) stream"
proof (induction n)
  case (Suc n)
  have "take (503 * Suc n) stream = take (503 * n) stream @ take 503 (drop (503 * n) stream)"
    using take_add [of "503 * n" 503 stream] by (simp add: add.commute)
  with Suc show ?case by (simp add: nth_block_def)
qed simp

lemma unat_block_count:
  assumes "unat len + 502 < 2 ^ 32"
  shows "unat (block_count len) = (unat len + 502) div 503"
proof -
  have "unat (len + TRANSFER_BLOCK_SIZE - 1) = unat len + 502"
  proof -
    have "len + TRANSFER_BLOCK_SIZE - 1 = (of_nat (unat len + 502) :: u32)"
      by (simp add: TRANSFER_BLOCK_SIZE_def)
    then show ?thesis using assms by (simp only: unat_of_nat_u32)
  qed
  then show ?thesis by (simp add: block_count_def unat_div_distrib TRANSFER_BLOCK_SIZE_def)
qed

lemma unat_btree_range: "map unat (btree_range n) = [0..<unat n]"
proof -
  have "unat (of_nat k :: u32) = k" if "k < unat n" for k
    using that unat_u32_less [of n] by (intro unat_of_nat_u32) simp
  then show ?thesis by (auto simp: btree_range_def intro!: map_idI)
qed

lemma received_data:
  assumes "complete (\<lambda>b. blk_data b = nth_block stream (unat (blk_block_id b))) st"
  shows "concat (map blk_data (sort_key blk_block_id (dw_received_blocks st)))
     = take (503 * unat (total_blocks st)) stream"
proof -
  let ?bs = "sort_key blk_block_id (dw_received_blocks st)"
  have "map blk_data ?bs = map (nth_block stream) (map unat (map blk_block_id ?bs))"
    using assms by (auto simp: complete_def dl_ok_def list_all_iff)
  also have "\<dots> = map (nth_block stream) [0..<unat (total_blocks st)]"
    by (simp only: complete_ids [OF assms] unat_btree_range)
  finally show ?thesis by (simp only: concat_nth_blocks)
qed

lemma assemble_complete:
  assumes compl: "complete (\<lambda>b. blk_data b = nth_block (world @ pad @ aux @ tail) (unat (blk_block_id b))) st"
    and ws: "unat (world_size (dw_world_info st)) = length world"
    and as: "unat (aux_size (dw_world_info st)) = length aux"
    and pad: "length (world @ pad) = (length world + 502) div 503 * 503"
    and small: "length (world @ pad) + length aux + 502 < 2 ^ 32"
  shows "assemble_world st = Inr (world, aux)"
proof -
  let ?off = "dw_world_block_count st * TRANSFER_BLOCK_SIZE"
  let ?w = "(length world + 502) div 503" and ?a = "(length aux + 502) div 503"
  have w: "unat (block_count (world_size (dw_world_info st))) = ?w"
    and a: "unat (block_count (aux_size (dw_world_info st))) = ?a"
    using small ws as by (simp_all add: unat_block_count)
  have off: "unat ?off = length (world @ pad)"
    using compl w pad small
    by (simp add: complete_def dl_ok_def unat_word_ariths TRANSFER_BLOCK_SIZE_def)
  have aend: "unat (?off + aux_size (dw_world_info st)) = length (world @ pad) + length aux"
    using off as small by (simp add: unat_word_ariths)
  have "unat (total_blocks st) = ?w + ?a"
    using w a small pad by (simp add: total_blocks_def unat_word_ariths)
  moreover have "length aux \<le> 503 * ?a" by (simp add: mult.commute)
  ultimately have enough: "length (world @ pad) + length aux \<le> 503 * unat (total_blocks st)"
    using pad by simp
  define data where "data = take (503 * unat (total_blocks st)) (world @ pad @ aux @ tail)"
  then obtain rest where data: "data = (world @ pad) @ aux @ rest"
    using enough by (intro that [of "take (503 * unat (total_blocks st) - length (world @ pad @ aux)) tail"])
      (simp add: add.assoc)
  have "concat (map blk_data (sort_key blk_block_id (dw_received_blocks st))) = data"
    using received_data [OF compl] by (simp add: data_def)
  then show ?thesis
    using ws as off aend by (simp add: assemble_world_def Let_def data)
qed

section \<open>The announcement\<close>

lemma announcement_iff:
  "announcement_of packet = Some info \<longleftrightarrow>
     (\<exists>flags seq bs count rest. PacketType_from (flags AND 31) = ServerToClientHeartbeat
        \<and> varint32_encodes bs count \<and> count > 0
        \<and> packet = flags # HasSynchronizerActions # u32_to_le_bytes seq @ bs
             @ MAP_READY_FOR_DOWNLOAD_ACTION_ID # FactorioWorldMetadata_encode info [] @ rest)"
proof (cases packet)
  case (Cons flags msg)
  have "announcement_of packet = Some info \<longleftrightarrow> PacketType_from (flags AND 31) = ServerToClientHeartbeat
      \<and> (\<exists>hb. ServerToClientHeartbeatPacket_decode msg = Inr hb \<and> try_decode_map_ready hb = Inr (Some info))"
    by (auto simp: announcement_of_def FactorioPacketHeader_decode_def Cons split: sum.splits)
  moreover have "(\<exists>hb. ServerToClientHeartbeatPacket_decode msg = Inr hb \<and> try_decode_map_ready hb = Inr (Some info))
      \<longleftrightarrow> (\<exists>data seq. msg = HasSynchronizerActions # u32_to_le_bytes seq @ data
          \<and> (\<exists>bs count rest. varint32_encodes bs count \<and> count > 0
             \<and> data = bs @ MAP_READY_FOR_DOWNLOAD_ACTION_ID # FactorioWorldMetadata_encode info [] @ rest))"
    by (simp add: heartbeat_decode_iff try_decode_map_ready_iff)
      (metis ServerToClientHeartbeatPacket.select_convs)
  ultimately show ?thesis unfolding Cons by (simp only: list.inject) blast
qed (simp add: announcement_of_def FactorioPacketHeader_decode_def)

lemma announcement_split:
  assumes "announcement_of packet = Some info"
  shows "\<exists>pre rest. packet = pre @ FactorioWorldMetadata_encode info [] @ rest
     \<and> (\<forall>info'. announcement_of (pre @ FactorioWorldMetadata_encode info' [] @ rest) = Some info')"
proof -
  from assms obtain flags seq bs count rest where
    p: "PacketType_from (flags AND 31) = ServerToClientHeartbeat" "varint32_encodes bs count" "count > 0"
      "packet = flags # HasSynchronizerActions # u32_to_le_bytes seq @ bs
             @ MAP_READY_FOR_DOWNLOAD_ACTION_ID # FactorioWorldMetadata_encode info [] @ rest"
    unfolding announcement_iff by blast
  let ?pre = "flags # HasSynchronizerActions # u32_to_le_bytes seq @ bs @ [MAP_READY_FOR_DOWNLOAD_ACTION_ID]"
  have "announcement_of (?pre @ FactorioWorldMetadata_encode info' [] @ rest) = Some info'" for info'
    unfolding announcement_iff using p(1-3)
    by (intro exI [of _ flags] exI [of _ seq] exI [of _ bs] exI [of _ count] exI [of _ rest]) simp
  with p(4) show ?thesis by (intro exI [of _ ?pre] exI [of _ rest]) simp
qed

lemma request_loop_out:
  "request_loop queue inflight out = (queue', inflight', out') \<Longrightarrow> \<exists>sent. out' = out @ map request_packet sent"
proof (induction queue inflight out rule: request_loop.induct)
  case (2 block_id queue inflight out)
  then show ?case by (cases "length inflight < INFLIGHT_BLOCK_REQUEST_LIMIT")
      (auto intro: exI [of _ "block_id # sent" for sent])
qed simp

definition occurs_at :: "bytes \<Rightarrow> bytes \<Rightarrow> nat \<Rightarrow> bool" where
  "occurs_at needle haystack i \<longleftrightarrow>
     i + length needle \<le> length haystack \<and> take (length needle) (drop i haystack) = needle"

lemma find_iter_unique:
  assumes "memmem find_iter" and "needle \<noteq> []" and "occurs_at needle haystack i"
    and "\<And>j. occurs_at needle haystack j \<Longrightarrow> j = i"
  shows "find_iter needle haystack = [i]"
proof -
  have sub: "set (find_iter needle haystack) \<subseteq> {i}"
    using memmem.find_iter_match [OF assms(1,2), of _ haystack] assms(4) by (auto simp: occurs_at_def)
  have "find_iter needle haystack \<noteq> []"
    using memmem.find_iter_complete [OF assms(1,2), of i haystack] assms(3) by (auto simp: occurs_at_def)
  moreover have "sorted_wrt (\<lambda>p q. p + length needle \<le> q) (find_iter needle haystack)"
    by (rule memmem.find_iter_apart [OF assms(1,2)])
  ultimately show ?thesis
    using sub assms(2) by (cases "find_iter needle haystack"; cases "tl (find_iter needle haystack)") auto
qed

section \<open>Properties\<close>

text \<open>
  C9. The state machine never panics, and it hands over exactly one complete download. Over
  any sequence of packets from the server, valid or not, duplicated or reordered, at any
  times: every index, slice and \<open>unwrap\<close> is in range; the transfer task is started at most
  once, with the stream of the peer; and then every block id of the world and its auxiliary
  data has been received exactly once.
\<close>

theorem server_proxy_safe:
  assumes "memmem find_iter"
  shows "\<exists>s out spawns. run_packets find_iter (ServerProxyState_new cs) packets = Inr (s, out, spawns)
     \<and> length spawns \<le> 1 \<and> (spawns \<noteq> [] \<longrightarrow> sp_phase s = Done)
     \<and> list_all (\<lambda>(c, st). c = cs
          \<and> map blk_block_id (sort_key blk_block_id (dw_received_blocks st)) = btree_range (total_blocks st)) spawns"
proof -
  let ?Q = "\<lambda>b :: TransferBlockPacket. True"
  have "list_all (\<lambda>(_, packet). pred_option ?Q (block_of packet)) packets"
    by (auto simp: list_all_iff pred_option_def)
  from run_packets_ok [OF assms sp_ok_new this, of cs] complete_ids [of ?Q] show ?thesis
    by (fastforce simp: list_all_iff)
qed

text \<open>
  C19. The download never stalls by itself: in every state a run reaches, the ids of the
  blocks are split between queue, requests in flight and received blocks; at most sixteen
  requests are in flight, and at least one as long as the world has a block; and a packet
  other than a block that arrives more than 100 ms after \<open>last_block_time\<close> makes the proxy repeat
  every request that is in flight. That time is set when the download starts, by every block
  that is accepted, and by such a repetition, which sets it to the arrival of the packet.
\<close>

theorem download_keeps_requesting:
  assumes "memmem find_iter" and "run_packets find_iter (ServerProxyState_new cs) packets = Inr (s, out, spawns)"
    and "sp_phase s = DownloadingWorld st"
  shows "blocks_ok (total_blocks st) (dw_block_request_queue st) (dw_inflight_block_requests st) (received_ids st)
     \<and> length (dw_inflight_block_requests st) \<le> 16
     \<and> (total_blocks st \<noteq> 0 \<longrightarrow> dw_inflight_block_requests st \<noteq> [])
     \<and> (now - dw_last_block_time st > 100 \<longrightarrow>
        (\<forall>header msg. FactorioPacketHeader_decode packet = Inr (header, msg) \<longrightarrow> packet_type header \<noteq> TransferBlock) \<longrightarrow>
        (\<exists>s' out'. on_packet_from_server find_iter now s packet [] = Inr (s', out', None)
           \<and> request_packet ` set (dw_inflight_block_requests st) \<subseteq> set out'
           \<and> (\<exists>st'. sp_phase s' = DownloadingWorld st' \<and> dw_last_block_time st' = now)))"
proof -
  let ?Q = "\<lambda>b :: TransferBlockPacket. True"
  have "list_all (\<lambda>(_, packet). pred_option ?Q (block_of packet)) packets"
    by (auto simp: list_all_iff pred_option_def)
  from run_packets_ok [OF assms(1) sp_ok_new this, of cs] assms(2) have ok: "sp_ok ?Q cs s" by auto
  then have st: "dl_ok ?Q st" "topped_up (dw_block_request_queue st) (dw_inflight_block_requests st)"
    "dw_inflight_block_requests st = [] \<longrightarrow> total_blocks st = 0"
    using assms(3) by (simp_all add: sp_ok_def phase_ok_def)
  let ?out = "map request_packet (dw_inflight_block_requests st)"
  obtain st' out' where r: "request_next_blocks st ([] @ ?out) = (st', out')"
    by (cases "request_next_blocks st ([] @ ?out)")
  from request_next_blocks_spec [OF r st(1)] st(2) have sub: "set ?out \<subseteq> set out'"
    by (auto simp: topped_up_def)
  have "\<exists>s' out''. on_packet_from_server find_iter now s packet [] = Inr (s', out'', None)
       \<and> request_packet ` set (dw_inflight_block_requests st) \<subseteq> set out''
       \<and> (\<exists>st'. sp_phase s' = DownloadingWorld st' \<and> dw_last_block_time st' = now)"
    if "now - dw_last_block_time st > 100"
      "\<forall>header msg. FactorioPacketHeader_decode packet = Inr (header, msg) \<longrightarrow> packet_type header \<noteq> TransferBlock"
  proof -
    from stale_download_ok [OF assms(1) ok assms(3) r, of now packet] obtain s' packet' where
      fwd: "forward_packet find_iter now (s\<lparr>sp_phase := DownloadingWorld (st'\<lparr>dw_last_block_time := now\<rparr>)\<rparr>) packet out'
         = Inr (s', out' @ [(packet', ToClient)], None)" by blast
    then have "sp_phase s' = DownloadingWorld (st'\<lparr>dw_last_block_time := now\<rparr>)"
      by (auto simp: forward_packet_def case_Inr_iff split: option.splits)
    moreover from fwd have "on_packet_from_server find_iter now s packet [] = Inr (s', out' @ [(packet', ToClient)], None)"
      using that assms(3) r by (cases "FactorioPacketHeader_decode packet") (auto simp: on_packet_from_server_def)
    ultimately show ?thesis using sub by auto
  qed
  then show ?thesis
    using st by (auto simp: dl_ok_def topped_up_def INFLIGHT_BLOCK_REQUEST_LIMIT_def)
qed

text \<open>
  C10. The world arrives intact: when every block the server sent carries its 503 bytes of
  the stream in which the world, padded to whole blocks, is followed by the auxiliary data,
  then whatever the order, loss and repetition of packets, the transfer task that is
  started cuts exactly the world and the auxiliary data out of the received blocks.
\<close>

theorem download_delivers_world:
  assumes "memmem find_iter" and "run_packets find_iter (ServerProxyState_new cs) packets = Inr (s, out, spawns)"
    and "(c, st) \<in> set spawns"
    and "list_all (\<lambda>(_, packet). pred_option
           (\<lambda>b. blk_data b = nth_block (world @ pad @ aux @ tail) (unat (blk_block_id b))) (block_of packet)) packets"
    and "unat (world_size (dw_world_info st)) = length world"
    and "unat (aux_size (dw_world_info st)) = length aux"
    and "length (world @ pad) = (length world + 502) div 503 * 503"
    and "length (world @ pad) + length aux + 502 < 2 ^ 32"
  shows "assemble_world st = Inr (world, aux)"
proof -
  from run_packets_ok [OF assms(1) sp_ok_new assms(4), of cs] assms(2,3)
  have "complete (\<lambda>b. blk_data b = nth_block (world @ pad @ aux @ tail) (unat (blk_block_id b))) st"
    by (auto simp: list_all_iff)
  from assemble_complete [OF this assms(5-8)] show ?thesis .
qed

text \<open>
  C28. The announcement is rewritten: when the proxy, waiting for a world, gets a packet that
  announces one, it forwards to the client at once a packet of the same length that announces
  the same world with its size doubled in 32 bits (so modulo \<open>2 ^ 32\<close>), provided the encoded
  metadata occurs only once in the packet; and it starts to download, with a request for every
  block it counts as in flight. (The README has the client-side proxy send an announcement of
  its own, after it has rebuilt the world; the code does not do that.)
\<close>

theorem announcement_is_rewritten:
  assumes "memmem find_iter" and "sp_phase s = WaitingForWorld" and "sp_comp_stream s = Some cs"
    and "announcement_of packet = Some info"
    and "\<And>i j. occurs_at (FactorioWorldMetadata_encode info []) packet i \<Longrightarrow>
           occurs_at (FactorioWorldMetadata_encode info []) packet j \<Longrightarrow> i = j"
  shows "\<exists>s' packet' sent st. on_packet_from_server find_iter now s packet []
       = Inr (s', (packet', ToClient) # map request_packet sent, None)
     \<and> length packet' = length packet
     \<and> announcement_of packet' = Some (info\<lparr>world_size := world_size info * 2\<rparr>)
     \<and> sp_phase s' = DownloadingWorld st \<and> set (dw_inflight_block_requests st) = set sent"
proof -
  let ?new = "info\<lparr>world_size := world_size info * 2\<rparr>"
  let ?needle = "FactorioWorldMetadata_encode info []" and ?with = "FactorioWorldMetadata_encode ?new []"
  have len: "length ?needle = 20" "length ?with = 20" "?needle \<noteq> []"
    by (simp_all flip: length_0_conv)
  from announcement_split [OF assms(4)] obtain pre rest where
    p: "packet = pre @ ?needle @ rest" "announcement_of (pre @ ?with @ rest) = Some ?new" by blast
  have "occurs_at ?needle packet (length pre)" using len by (simp add: occurs_at_def p)
  then have find: "find_iter ?needle packet = [length pre]"
    using assms(5) by (intro find_iter_unique [OF assms(1) len(3)]) auto
  have splice: "replace_at [length pre] (length ?needle) ?with packet = Inr (pre @ ?with @ rest)"
    using len by (simp add: p)
  from transition_ok [OF assms(1,3), of now packet info "[]" "\<lambda>_. True"] obtain s' packet' sent st where
    t: "transition_to_downloading_world find_iter now s packet info [] = Inr (s', (packet', ToClient) # map request_packet sent)"
      "length packet' = length packet" "sp_phase s' = DownloadingWorld st" "set (dw_inflight_block_requests st) = set sent"
    by auto
  have "packet' = pre @ ?with @ rest"
    using t(1) find splice
    by (auto simp: transition_to_downloading_world_def filter_packet_def Let_def request_next_blocks_def
        split: prod.splits dest!: request_loop_out)
  with t p(2) assms(2,4) show ?thesis by (auto simp: on_packet_waiting)
qed

section \<open>An example\<close>

text \<open>
  A world of 350 bytes with two bytes of auxiliary data, announced and then sent in two
  blocks, the second one first.
\<close>

definition example_info :: FactorioWorldMetadata where
  "example_info = \<lparr>world_size = 350, no_idea1 = 0, aux_size = 2, no_idea2 = 0, world_crc = 7\<rparr>"

definition example_announcement :: bytes where
  "example_announcement = [7, 0x10, 0, 0, 0, 0, 1, 5] @ FactorioWorldMetadata_encode example_info []"

definition example_stream :: bytes where
  "example_stream = [1, 2, 3] @ replicate 500 0 @ [9, 9] @ []"

definition example_block :: "u32 \<Rightarrow> TransferBlockPacket" where
  "example_block i = \<lparr>blk_block_id = i, blk_data = nth_block example_stream (unat i)\<rparr>"

definition example_packets :: "(instant \<times> bytes) list" where
  "example_packets =
     [(0, example_announcement), (1, block_full_packet (example_block 1)), (2, block_full_packet (example_block 0))]"

lemma example_announcement_of: "announcement_of example_announcement = Some example_info"
proof -
  have "example_announcement = 7 # HasSynchronizerActions # u32_to_le_bytes 0 @ [1]
      @ MAP_READY_FOR_DOWNLOAD_ACTION_ID # FactorioWorldMetadata_encode example_info [] @ []"
    by (simp add: example_announcement_def HasSynchronizerActions_def MAP_READY_FOR_DOWNLOAD_ACTION_ID_def
        u32_to_le_bytes_def)
  moreover have "PacketType_from (7 AND 31) = ServerToClientHeartbeat" "varint32_encodes [1] 1"
    by (simp_all add: PacketType_from_def varint32_encodes_def)
  ultimately show ?thesis unfolding announcement_iff by (metis word_gt_0 one_neq_zero)
qed

lemma example_encoded:
  "FactorioWorldMetadata_encode example_info [] = [94, 1, 0, 0, 0, 0, 0, 0, 2, 0, 0, 0, 0, 0, 0, 0, 7, 0, 0, 0]"
  by (simp add: FactorioWorldMetadata_encode_def example_info_def u32_to_le_bytes_def)

lemma example_unique:
  assumes "occurs_at (FactorioWorldMetadata_encode example_info []) example_announcement i"
  shows "i = 8"
proof -
  have "i \<le> 8" "take 20 (drop i example_announcement) = FactorioWorldMetadata_encode example_info []"
    using assms by (simp_all add: occurs_at_def example_announcement_def)
  moreover have "i = 0 \<or> i = 1 \<or> i = 2 \<or> i = 3 \<or> i = 4 \<or> i = 5 \<or> i = 6 \<or> i = 7 \<or> i = 8"
    using \<open>i \<le> 8\<close> by linarith
  ultimately show ?thesis
    unfolding example_announcement_def example_encoded by (elim disjE) simp_all
qed

theorem announcement_is_rewritten_witness:
  "announcement_of example_announcement = Some example_info
   \<and> (\<exists>s' packet' sent. on_packet_from_server naive_find_iter 0 (ServerProxyState_new ()) example_announcement []
        = Inr (s', (packet', ToClient) # map request_packet sent, None)
      \<and> announcement_of packet' = Some (example_info\<lparr>world_size := 700\<rparr>))"
proof -
  have s: "sp_phase (ServerProxyState_new ()) = WaitingForWorld" "sp_comp_stream (ServerProxyState_new ()) = Some ()"
    by (simp_all add: ServerProxyState_new_def)
  have size: "world_size example_info * 2 = 700" by (simp add: example_info_def)
  have uniq: "i = j" if "occurs_at (FactorioWorldMetadata_encode example_info []) example_announcement i"
    "occurs_at (FactorioWorldMetadata_encode example_info []) example_announcement j" for i j
    using that by (auto dest: example_unique)
  from announcement_is_rewritten [OF naive.memmem_axioms s example_announcement_of uniq, of 0]
  show ?thesis using example_announcement_of unfolding size by blast
qed

theorem server_proxy_safe_witness:
  "\<exists>s out spawns. run_packets naive_find_iter (ServerProxyState_new ()) example_packets = Inr (s, out, spawns)
     \<and> length spawns \<le> 1"
  using server_proxy_safe [OF naive.memmem_axioms, of "()" example_packets] by auto

lemma example_block_of: "block_of (block_full_packet (example_block i)) = Some (example_block i)"
  by (simp add: block_of_def full_packet_header FactorioPacketHeader_new_unfragmented_def)

lemma example_block_counts: "block_count 350 = 1" "block_count 2 = 1"
  by (simp_all add: block_count_def TRANSFER_BLOCK_SIZE_def)

lemma example_start:
  "\<exists>s out st. run_packets naive_find_iter (ServerProxyState_new ()) [(0, example_announcement)] = Inr (s, out, [])
     \<and> sp_phase s = DownloadingWorld st \<and> sp_comp_stream s = Some ()
     \<and> dw_world_info st = example_info \<and> dw_new_world_info st = example_info\<lparr>world_size := 700\<rparr>
     \<and> dw_block_request_queue st = [] \<and> dw_inflight_block_requests st = [0, 1] \<and> dw_last_block_time st = 0"
proof -
  let ?s = "ServerProxyState_new ()"
  have s: "sp_phase ?s = WaitingForWorld" "sp_comp_stream ?s = Some ()" by (simp_all add: ServerProxyState_new_def)
  from transition_ok [OF naive.memmem_axioms s(2), of 0 example_announcement example_info "[]" "\<lambda>_. True"]
  obtain s' packet' sent st where
    "transition_to_downloading_world naive_find_iter 0 ?s example_announcement example_info []
       = Inr (s', (packet', ToClient) # map request_packet sent)" "sp_phase s' = DownloadingWorld st" by auto
  moreover from this have "sp_comp_stream s' = Some ()
     \<and> dw_world_info st = example_info \<and> dw_new_world_info st = example_info\<lparr>world_size := 700\<rparr>
     \<and> dw_block_request_queue st = [] \<and> dw_inflight_block_requests st = [0, 1] \<and> dw_last_block_time st = 0"
    using s(2)
    by (auto simp: transition_to_downloading_world_def Let_def request_next_blocks_def case_Inr_iff
        example_info_def example_block_counts btree_range_def upt_rec [of 0] upt_rec [of "Suc 0"]
        INFLIGHT_BLOCK_REQUEST_LIMIT_def btree_insert_def split: prod.splits)
  ultimately show ?thesis using s example_announcement_of by (auto simp: on_packet_waiting)
qed

theorem download_keeps_requesting_witness:
  "\<exists>s out st s' out'. run_packets naive_find_iter (ServerProxyState_new ()) [(0, example_announcement)] = Inr (s, out, [])
     \<and> sp_phase s = DownloadingWorld st \<and> dw_inflight_block_requests st = [0, 1]
     \<and> on_packet_from_server naive_find_iter 200 s [] [] = Inr (s', out', None)
     \<and> {request_packet 0, request_packet 1} \<subseteq> set out'"
proof -
  from example_start obtain s out st where
    run: "run_packets naive_find_iter (ServerProxyState_new ()) [(0, example_announcement)] = Inr (s, out, [])"
      "sp_phase s = DownloadingWorld st" "dw_inflight_block_requests st = [0, 1]" "dw_last_block_time st = 0" by blast
  have "\<forall>header msg. FactorioPacketHeader_decode [] = Inr (header, msg) \<longrightarrow> packet_type header \<noteq> TransferBlock"
    by (simp add: FactorioPacketHeader_decode_def)
  with download_keeps_requesting [OF naive.memmem_axioms run(1,2), of 200 "[]"] run show ?thesis by auto
qed

lemma example_run:
  "\<exists>s out st. run_packets naive_find_iter (ServerProxyState_new ()) example_packets = Inr (s, out, [((), st)])
     \<and> dw_world_info st = example_info \<and> dw_new_world_info st = example_info\<lparr>world_size := 700\<rparr>"
proof -
  from example_start obtain s out st where
    run: "run_packets naive_find_iter (ServerProxyState_new ()) [(0, example_announcement)] = Inr (s, out, [])"
    and st: "sp_phase s = DownloadingWorld st" "sp_comp_stream s = Some ()" "dw_world_info st = example_info"
      "dw_new_world_info st = example_info\<lparr>world_size := 700\<rparr>" "dw_block_request_queue st = []" "dw_inflight_block_requests st = [0, 1]" by blast
  from run have 1: "on_packet_from_server naive_find_iter 0 (ServerProxyState_new ()) example_announcement [] = Inr (s, out, None)"
    by (auto simp: case_Inr_iff split: option.splits) (metis not_None_eq old.unit.exhaust surj_pair)
  let ?st1 = "st\<lparr>dw_inflight_block_requests := [0], dw_block_request_queue := [],
      dw_received_blocks := dw_received_blocks st @ [example_block 1], dw_last_block_time := 1\<rparr>"
  let ?s1 = "s\<lparr>sp_phase := DownloadingWorld ?st1\<rparr>"
  have id: "blk_block_id (example_block i) = i" for i by (simp add: example_block_def)
  have 2: "on_packet_from_server naive_find_iter 1 s (block_full_packet (example_block 1)) [] = Inr (?s1, [], None)"
    using st by (simp add: on_packet_from_server_def full_packet_header FactorioPacketHeader_new_unfragmented_def
        on_transfer_block_def accept_block_def btree_remove_def request_next_blocks_def Let_def id)
  obtain s2 st2 where 3: "on_packet_from_server naive_find_iter 2 ?s1 (block_full_packet (example_block 0)) []
      = Inr (s2, [], Some ((), st2))" "dw_world_info st2 = example_info"
      "dw_new_world_info st2 = example_info\<lparr>world_size := 700\<rparr>"
    using st by (simp add: on_packet_from_server_def full_packet_header FactorioPacketHeader_new_unfragmented_def
        on_transfer_block_def accept_block_def btree_remove_def finalize_world_def Let_def id)
  from 1 2 3 show ?thesis by (simp add: example_packets_def)
qed

definition example_world :: bytes where
  "example_world = [1, 2, 3] @ replicate 347 0"

lemma example_packets_carry:
  "list_all (\<lambda>(_, packet). pred_option
      (\<lambda>b. blk_data b = nth_block (example_world @ replicate 153 0 @ [9, 9] @ []) (unat (blk_block_id b))) (block_of packet))
    example_packets"
proof -
  have "block_of example_announcement = None"
    by (simp add: block_of_def example_announcement_def FactorioPacketHeader_decode_def PacketType_from_def)
  moreover have "example_world @ replicate 153 0 @ [9, 9] @ [] = example_stream"
    unfolding example_world_def example_stream_def append_assoc using replicate_add [of 347 153 "0 :: u8"] by simp
  ultimately show ?thesis
    by (simp add: example_packets_def example_block_of) (simp add: example_block_def)
qed

theorem download_delivers_world_witness:
  "\<exists>s out st. run_packets naive_find_iter (ServerProxyState_new ()) example_packets = Inr (s, out, [((), st)])
     \<and> assemble_world st = Inr (example_world, [9, 9])"
proof -
  from example_run obtain s out st where
    run: "run_packets naive_find_iter (ServerProxyState_new ()) example_packets = Inr (s, out, [((), st)])"
    and info: "dw_world_info st = example_info" by blast
  from download_delivers_world [OF naive.memmem_axioms run _ example_packets_carry] info run show ?thesis
    by (simp add: example_info_def) (simp add: example_world_def)
qed

text \<open>
  C40. The doubled size wraps around: for a world of two gigabytes or more, the size the proxy
  announces, and with which the client later has to rebuild the world, is smaller than
  the size of the world.
\<close>

theorem doubled_size_wraps:
  assumes "2 ^ 31 \<le> unat (world_size info)"
    and "transition_to_downloading_world find_iter now s packet info out = Inr (s', out')"
  shows "\<exists>st. sp_phase s' = DownloadingWorld st \<and> world_size (dw_new_world_info st) < world_size info"
proof -
  have "unat (world_size info * 2) = (2 * unat (world_size info)) mod 2 ^ 32"
    by (simp add: unat_word_ariths mult.commute)
  also have "\<dots> = 2 * unat (world_size info) - 2 ^ 32"
    using assms(1) unat_u32_less [of "world_size info"] by (simp add: mod_if)
  finally have "world_size info * 2 < world_size info"
    using assms(1) unat_u32_less [of "world_size info"] by (simp add: word_less_nat_alt)
  with assms(2) show ?thesis
    by (auto simp: transition_to_downloading_world_def Let_def case_Inr_iff request_next_blocks_def case_prod_unfold)
qed

theorem doubled_size_wraps_witness:
  "\<exists>s' out' st. transition_to_downloading_world naive_find_iter 0 (ServerProxyState_new ()) []
        (example_info\<lparr>world_size := 0x80000001\<rparr>) [] = Inr (s', out')
     \<and> sp_phase s' = DownloadingWorld st \<and> world_size (dw_new_world_info st) < 0x80000001"
proof -
  have "sp_comp_stream (ServerProxyState_new ()) = Some ()" by (simp add: ServerProxyState_new_def)
  from transition_ok [OF naive.memmem_axioms this, of 0 "[]" "example_info\<lparr>world_size := 0x80000001\<rparr>" "[]" "\<lambda>_. True"]
  obtain s' out' where run: "transition_to_downloading_world naive_find_iter 0 (ServerProxyState_new ()) []
        (example_info\<lparr>world_size := 0x80000001\<rparr>) [] = Inr (s', out')" by blast
  with doubled_size_wraps [OF _ run] show ?thesis by auto
qed

end
