(* ===== verification/File_Paths.thy ===== *)
theory File_Paths
  imports Prelude
begin

text \<open>
  The part of \<open>std::path\<close> and \<open>std::fs\<close> that \<open>src/src/chunk_cache.rs\<close> uses for the cache file:
  \<open>Path::with_extension\<close> on Unix paths, and a file system as a map from paths to contents with
  \<open>File::create\<close> and \<open>rename\<close>. Different paths are different files: links are left out.
\<close>

section \<open>Paths\<close>

text \<open>
  The reversed path without what \<open>components\<close> skips at its end: separators, and components
  that are a single dot.
\<close>

function skip_end :: "string \<Rightarrow> string" where
  "skip_end [] = []"
| "skip_end (c # cs) =
     (if c = CHR ''/'' then skip_end cs
      else if c = CHR ''.'' \<and> cs \<noteq> [] \<and> hd cs = CHR ''/'' then skip_end (tl cs)
      else c # cs)"
  by pat_completeness auto
termination by (relation "measure length") auto

definition Path_parent_part :: "string \<Rightarrow> string" where
  "Path_parent_part path = rev (dropWhile (\<lambda>c. c \<noteq> CHR ''/'') (skip_end (rev path)))"

definition Path_file_name :: "string \<Rightarrow> string option" where
  "Path_file_name path =
     (let name = rev (takeWhile (\<lambda>c. c \<noteq> CHR ''/'') (skip_end (rev path)))
      in if name \<in> {'''', ''.'', ''..''} then None else Some name)"

text \<open>The stem is what stands before the last dot, or all of the name if nothing does.\<close>

definition Path_file_stem :: "string \<Rightarrow> string option" where
  "Path_file_stem path =
     map_option (\<lambda>name.
       let stem = rev (tl (dropWhile (\<lambda>c. c \<noteq> CHR ''.'') (rev name)))
       in if CHR ''.'' \<in> set name \<and> stem \<noteq> '''' then stem else name) (Path_file_name path)"

definition with_extension :: "string \<Rightarrow> string \<Rightarrow> string" where
  "with_extension path extension =
     (case Path_file_stem path of
        None \<Rightarrow> path
      | Some file_stem \<Rightarrow> Path_parent_part path @ file_stem @ (if extension = '''' then '''' else ''.'' @ extension))"

lemma skip_end_name: "c \<noteq> CHR ''/'' \<Longrightarrow> c \<noteq> CHR ''.'' \<Longrightarrow> skip_end (c # cs) = c # cs"
  by simp

text \<open>The default path of the cache gets a temporary file beside it.\<close>

lemma with_extension_default:
  "with_extension (dir @ ''/persistent-cache'') ''tmp'' = dir @ ''/persistent-cache.tmp''"
  by (simp add: with_extension_def Path_file_stem_def Path_file_name_def Path_parent_part_def Let_def
      skip_end_name del: skip_end.simps)

text \<open>A path that already ends in \<open>.tmp\<close> is its own temporary file.\<close>

lemma with_extension_tmp:
  assumes "stem \<noteq> ''''" and "CHR ''/'' \<notin> set stem" and "dir = '''' \<or> last dir = CHR ''/''"
  shows "with_extension (dir @ stem @ ''.tmp'') ''tmp'' = dir @ stem @ ''.tmp''"
proof -
  have skip: "skip_end (rev (dir @ stem @ ''.tmp'')) = rev ''.tmp'' @ rev stem @ rev dir"
    by (simp add: skip_end_name del: skip_end.simps)
  have dir: "takeWhile (\<lambda>c. c \<noteq> CHR ''/'') (rev dir) = []" "dropWhile (\<lambda>c. c \<noteq> CHR ''/'') (rev dir) = rev dir"
    using assms(3) by (cases dir rule: rev_cases; simp)+
  have "takeWhile (\<lambda>c. c \<noteq> CHR ''/'') (rev stem @ rev dir) = rev stem"
    by (subst takeWhile_append2) (use assms(2) dir in auto)
  moreover have "dropWhile (\<lambda>c. c \<noteq> CHR ''/'') (rev stem @ rev dir) = rev dir"
    by (subst dropWhile_append2) (use assms(2) dir in auto)
  ultimately show ?thesis using assms(1)
    by (simp add: with_extension_def Path_file_stem_def Path_file_name_def Path_parent_part_def skip Let_def)
qed

section \<open>Files\<close>

type_synonym files = "string \<Rightarrow> bytes option"

text \<open>\<open>File::create\<close> and writing: whatever the file held before, it then holds what was written.\<close>

definition write_file :: "string \<Rightarrow> bytes \<Rightarrow> files \<Rightarrow> files" where
  "write_file path written fs = fs(path \<mapsto> written)"

definition rename_file :: "string \<Rightarrow> string \<Rightarrow> files \<Rightarrow> files" where
  "rename_file from_path to_path fs =
     (if from_path = to_path then fs else fs(to_path := fs from_path, from_path := None))"

lemma write_file_other [simp]: "path' \<noteq> path \<Longrightarrow> write_file path written fs path' = fs path'"
  by (simp add: write_file_def)

lemma write_file_same [simp]: "write_file path written fs path = Some written"
  by (simp add: write_file_def)

lemma rename_file_other [simp]:
  "path' \<noteq> from_path \<Longrightarrow> path' \<noteq> to_path \<Longrightarrow> rename_file from_path to_path fs path' = fs path'"
  by (simp add: rename_file_def)

lemma rename_file_target [simp]: "rename_file from_path to_path fs to_path = fs from_path"
  by (simp add: rename_file_def)

end
