(* ===== verification/Chunk_Cache.thy ===== *)
theory Chunk_Cache
  imports Peer_Protocol File_Paths
begin

text \<open>
  The shared chunk cache of the client, \<open>src/src/chunk_cache.rs\<close>: the size-bounded map of
  chunks (\<open>RawChunkCache\<close>), the cache several peers share (\<open>ChunkCache\<close>, with the batches
  that are being fetched), and the cache file. hashlink's \<open>LinkedHashMap\<close> is a parameter, a
  record of its operations, with its contract in the locale \<open>linked_hash_map\<close>. The mutex
  makes each locked region one step; a semaphore is an event with an identity that is
  closed or not.
\<close>

section \<open>Linked hash maps\<close>

record 'm LinkedHashMap =
  lhm_new :: 'm
  lhm_insert :: "'m \<Rightarrow> ChunkKey \<Rightarrow> bytes \<Rightarrow> bytes option \<times> 'm"
  lhm_get :: "'m \<Rightarrow> ChunkKey \<Rightarrow> bytes option"
  lhm_pop_front :: "'m \<Rightarrow> ((ChunkKey \<times> bytes) \<times> 'm) option"
  lhm_iter :: "'m \<Rightarrow> (ChunkKey \<times> bytes) list"

section \<open>The bounded cache\<close>

record 'm RawChunkCache =
  rc_chunks :: 'm
  rc_total_size :: u64
  rc_max_size :: u64

definition RawChunkCache_new :: "'m LinkedHashMap \<Rightarrow> u64 \<Rightarrow> 'm RawChunkCache" where
  "RawChunkCache_new lhm max_size = \<lparr>rc_chunks = lhm_new lhm, rc_total_size = 0, rc_max_size = max_size\<rparr>"

text \<open>
  The eviction loop of \<open>insert\<close>. A round removes an entry or panics, so as many rounds as
  there are entries, and one more, are enough.
\<close>

fun RawChunkCache_evict :: "'m LinkedHashMap \<Rightarrow> nat \<Rightarrow> 'm RawChunkCache \<Rightarrow> 'm RawChunkCache outcome" where
  "RawChunkCache_evict lhm 0 self = Inl OutOfFuel"
| "RawChunkCache_evict lhm (Suc fuel) self =
     (if rc_total_size self > rc_max_size self then
        (case lhm_pop_front lhm (rc_chunks self) of
           None \<Rightarrow> Inl (Panic ''called `Option::unwrap()` on a `None` value'')
         | Some ((_, evicted_chunk), chunks) \<Rightarrow>
             RawChunkCache_evict lhm fuel
               (self\<lparr>rc_chunks := chunks,
                     rc_total_size := rc_total_size self - of_nat (length evicted_chunk)\<rparr>))
      else Inr self)"

definition RawChunkCache_insert ::
    "'m LinkedHashMap \<Rightarrow> 'm RawChunkCache \<Rightarrow> ChunkKey \<Rightarrow> bytes \<Rightarrow> 'm RawChunkCache outcome" where
  "RawChunkCache_insert lhm self key chunk =
     (let total_size = rc_total_size self + of_nat (length chunk);
          (old, chunks) = lhm_insert lhm (rc_chunks self) key chunk;
          total_size = (case old of
             Some old_chunk \<Rightarrow> total_size - of_nat (length old_chunk)
           | None \<Rightarrow> total_size)
      in RawChunkCache_evict lhm (Suc (length (lhm_iter lhm chunks)))
           (self\<lparr>rc_chunks := chunks, rc_total_size := total_size\<rparr>))"

definition RawChunkCache_get :: "'m LinkedHashMap \<Rightarrow> 'm RawChunkCache \<Rightarrow> ChunkKey \<Rightarrow> bytes option" where
  "RawChunkCache_get lhm self key = lhm_get lhm (rc_chunks self) key"

section \<open>The shared cache\<close>

text \<open>
  The state behind the mutex. A semaphore is represented by its number; \<open>cc_next_event\<close> is
  the number the next \<open>Semaphore::new\<close> gets and \<open>cc_closed\<close> lists the closed ones.
\<close>

record 'm ChunkCache =
  cc_raw_cache :: "'m RawChunkCache"
  cc_pending_chunks :: "ChunkKey \<rightharpoonup> nat"
  cc_needs_saving :: bool
  cc_next_event :: nat
  cc_closed :: "nat list"

definition ChunkCache_new :: "'m LinkedHashMap \<Rightarrow> u64 \<Rightarrow> 'm ChunkCache" where
  "ChunkCache_new lhm max_size =
     \<lparr>cc_raw_cache = RawChunkCache_new lhm max_size, cc_pending_chunks = Map.empty,
      cc_needs_saving = False, cc_next_event = 0, cc_closed = []\<rparr>"

record BatchChunkRequest =
  br_event :: nat
  br_batch_keys :: "ChunkKey list"

text \<open>
  The first \<open>retain\<close> of \<open>get_chunks_batched\<close>: the keys kept, the output map, and the batch
  with its set.
\<close>

fun retain_uncached ::
    "'m LinkedHashMap \<Rightarrow> 'm ChunkCache \<Rightarrow> nat \<Rightarrow> ChunkKey list \<Rightarrow> chunk_map \<Rightarrow> ChunkKey list \<Rightarrow> ChunkKey set
       \<Rightarrow> ChunkKey list \<times> chunk_map \<times> ChunkKey list" where
  "retain_uncached lhm inner batch_size [] chunk_out batch batch_set = ([], chunk_out, batch)"
| "retain_uncached lhm inner batch_size (key # keys) chunk_out batch batch_set =
     (case RawChunkCache_get lhm (cc_raw_cache inner) key of
        Some chunk \<Rightarrow>
          retain_uncached lhm inner batch_size keys (chunk_out(key \<mapsto> chunk)) batch batch_set
      | None \<Rightarrow>
          if cc_pending_chunks inner key = None \<and> length batch < batch_size \<and> key \<notin> batch_set
          then retain_uncached lhm inner batch_size keys chunk_out (batch @ [key]) (insert key batch_set)
          else let (kept, chunk_out, batch) =
                     retain_uncached lhm inner batch_size keys chunk_out batch batch_set
               in (key # kept, chunk_out, batch))"

text \<open>The second \<open>retain\<close>: the keys kept, and the keys others fetch with their events.\<close>

fun retain_not_pending ::
    "'m ChunkCache \<Rightarrow> ChunkKey list \<Rightarrow> ChunkKey list \<times> (ChunkKey \<times> nat) list" where
  "retain_not_pending inner [] = ([], [])"
| "retain_not_pending inner (key # keys) =
     (let (kept, pending_requests) = retain_not_pending inner keys
      in case cc_pending_chunks inner key of
           Some event \<Rightarrow> (kept, (key, event) # pending_requests)
         | None \<Rightarrow> (key # kept, pending_requests))"

fun mark_pending :: "ChunkKey list \<Rightarrow> nat \<Rightarrow> (ChunkKey \<rightharpoonup> nat) \<Rightarrow> (ChunkKey \<rightharpoonup> nat)" where
  "mark_pending [] event pending = pending"
| "mark_pending (key # keys) event pending = mark_pending keys event (pending(key \<mapsto> event))"

text \<open>
  \<open>get_chunks_batched\<close> up to its only await: it returns a batch to fetch, or \<open>None\<close> (all
  done), or waits for the events of the listed keys.
\<close>

datatype BatchStep =
    Batch BatchChunkRequest
  | Finished
  | Waiting "(ChunkKey \<times> nat) list"

definition get_chunks_batched ::
    "'m LinkedHashMap \<Rightarrow> 'm ChunkCache \<Rightarrow> ChunkKey list \<Rightarrow> chunk_map \<Rightarrow> nat
       \<Rightarrow> BatchStep \<times> ChunkKey list \<times> chunk_map \<times> 'm ChunkCache" where
  "get_chunks_batched lhm inner chunks_requested chunk_out batch_size =
     (let (chunks_requested, chunk_out, batch) =
            retain_uncached lhm inner batch_size chunks_requested chunk_out [] {}
      in if batch \<noteq> [] then
           let event = cc_next_event inner
           in (Batch \<lparr>br_event = event, br_batch_keys = batch\<rparr>, chunks_requested, chunk_out,
               inner\<lparr>cc_next_event := Suc event,
                     cc_pending_chunks := mark_pending batch event (cc_pending_chunks inner)\<rparr>)
         else
           let (chunks_requested, pending_requests) = retain_not_pending inner chunks_requested
           in if pending_requests = [] then (Finished, chunks_requested, chunk_out, inner)
              else (Waiting pending_requests, chunks_requested, chunk_out, inner))"

text \<open>The wait is over when every event is closed; then the chunks are taken from the cache.\<close>

definition events_closed :: "'m ChunkCache \<Rightarrow> (ChunkKey \<times> nat) list \<Rightarrow> bool" where
  "events_closed inner pending_requests \<longleftrightarrow> list_all (\<lambda>(_, event). event \<in> set (cc_closed inner)) pending_requests"

fun collect_waited ::
    "'m LinkedHashMap \<Rightarrow> 'm ChunkCache \<Rightarrow> (ChunkKey \<times> nat) list \<Rightarrow> chunk_map \<Rightarrow> chunk_map outcome" where
  "collect_waited lhm inner [] chunk_out = Inr chunk_out"
| "collect_waited lhm inner ((key, _) # pending_requests) chunk_out =
     (case RawChunkCache_get lhm (cc_raw_cache inner) key of
        None \<Rightarrow> Inl (Panic ''waited on chunk, but chunk was not put in cache'')
      | Some chunk \<Rightarrow> collect_waited lhm inner pending_requests (chunk_out(key \<mapsto> chunk)))"

definition mark_dirty :: "'m ChunkCache \<Rightarrow> 'm ChunkCache" where
  "mark_dirty inner = inner\<lparr>cc_needs_saving := True\<rparr>"

definition ChunkCache_len :: "'m LinkedHashMap \<Rightarrow> 'm ChunkCache \<Rightarrow> nat" where
  "ChunkCache_len lhm inner = length (lhm_iter lhm (rc_chunks (cc_raw_cache inner)))"

definition ChunkCache_total_size :: "'m ChunkCache \<Rightarrow> u64" where
  "ChunkCache_total_size inner = rc_total_size (cc_raw_cache inner)"

fun fulfill_loop ::
    "'m LinkedHashMap \<Rightarrow> 'm ChunkCache \<Rightarrow> (ChunkKey \<times> bytes) list \<Rightarrow> 'm ChunkCache outcome" where
  "fulfill_loop lhm inner [] = Inr inner"
| "fulfill_loop lhm inner ((key, chunk) # rest) =
     (case RawChunkCache_insert lhm (cc_raw_cache inner) key chunk of
        Inl e \<Rightarrow> Inl e
      | Inr raw_cache \<Rightarrow>
          fulfill_loop lhm
            (inner\<lparr>cc_raw_cache := raw_cache,
                   cc_pending_chunks := (cc_pending_chunks inner)(key := None)\<rparr>) rest)"

definition fulfill ::
    "'m LinkedHashMap \<Rightarrow> 'm ChunkCache \<Rightarrow> BatchChunkRequest \<Rightarrow> bytes list \<Rightarrow> 'm ChunkCache outcome" where
  "fulfill lhm inner self chunks =
     (if length (br_batch_keys self) \<noteq> length chunks
      then Inl (Panic ''assertion `left == right` failed'')
      else case fulfill_loop lhm inner (zip (br_batch_keys self) chunks) of
             Inl e \<Rightarrow> Inl e
           | Inr inner \<Rightarrow> Inr (inner\<lparr>cc_closed := br_event self # cc_closed inner\<rparr>))"

section \<open>The cache file\<close>

definition CHUNK_CACHE_COMPRESSION_LEVEL :: int where
  "CHUNK_CACHE_COMPRESSION_LEVEL = 8"

record Zstd =
  zstd_write :: "int \<Rightarrow> (bytes \<Rightarrow> bytes outcome) outcome"
  zstd_read :: "bytes \<Rightarrow> reader outcome"

text \<open>\<open>Read::read_exact\<close> on a reader: the failure it ends with, or the end of the stream.\<close>

definition read_exact :: "nat \<Rightarrow> reader \<Rightarrow> (bytes \<times> reader) outcome" where
  "read_exact n reader =
     (case reader of (bs, failure) \<Rightarrow>
        if n \<le> length bs then Inr (take n bs, (drop n bs, failure))
        else Inl (case failure of Some e \<Rightarrow> e | None \<Rightarrow> UNEXPECTED_EOF))"

definition read_u32_buf :: "reader \<Rightarrow> (u32 \<times> reader) outcome" where
  "read_u32_buf reader =
     (case read_exact 4 reader of
        Inl e \<Rightarrow> Inl e
      | Inr (u32_buf, reader) \<Rightarrow>
          Inr (u32_of_le (u32_buf ! 0) (u32_buf ! 1) (u32_buf ! 2) (u32_buf ! 3), reader))"

fun read_chunk_entries ::
    "'m LinkedHashMap \<Rightarrow> Libs \<Rightarrow> nat \<Rightarrow> reader \<Rightarrow> 'm RawChunkCache \<Rightarrow> 'm RawChunkCache outcome" where
  "read_chunk_entries lhm libs 0 decoder cache = Inr cache"
| "read_chunk_entries lhm libs (Suc n) decoder cache =
     (case read_exact 32 decoder of Inl e \<Rightarrow> Inl e | Inr (chunk_key_bytes, decoder) \<Rightarrow>
     (case read_u32_buf decoder of Inl e \<Rightarrow> Inl e | Inr (chunk_length, decoder) \<Rightarrow>
      if unat chunk_length > 20000000 then Inl (Error ''Chunk length too large'')
      else
     (case read_exact (unat chunk_length) decoder of Inl e \<Rightarrow> Inl e | Inr (chunk_data, decoder) \<Rightarrow>
      if blake3_hash libs chunk_data \<noteq> chunk_key_bytes
      then read_chunk_entries lhm libs n decoder cache
      else
     (case RawChunkCache_insert lhm cache (ChunkKey chunk_key_bytes) chunk_data of
        Inl e \<Rightarrow> Inl e
      | Inr cache \<Rightarrow> read_chunk_entries lhm libs n decoder cache))))"

text \<open>\<open>read_chunk_cache\<close>; \<open>File::open\<close> has given the contents of the file or failed.\<close>

definition read_chunk_cache ::
    "'m LinkedHashMap \<Rightarrow> Libs \<Rightarrow> Zstd \<Rightarrow> 'm RawChunkCache \<Rightarrow> bytes outcome \<Rightarrow> 'm RawChunkCache outcome" where
  "read_chunk_cache lhm libs zstd cache contents =
     (case contents of Inl e \<Rightarrow> Inl e | Inr contents \<Rightarrow>
     (case zstd_read zstd contents of Inl e \<Rightarrow> Inl e | Inr decoder \<Rightarrow>
     (case read_u32_buf decoder of Inl e \<Rightarrow> Inl e | Inr (chunks_in_file, decoder) \<Rightarrow>
        read_chunk_entries lhm libs (unat chunks_in_file) decoder cache)))"

fun write_chunk_entries :: "(ChunkKey \<times> bytes) list \<Rightarrow> bytes \<Rightarrow> bytes outcome" where
  "write_chunk_entries [] written = Inr written"
| "write_chunk_entries ((ChunkKey key, chunk) # entries) written =
     (case expect_u32 ''Chunk size wouldn't fit into a u32'' (length chunk) of
        Inl e \<Rightarrow> Inl e
      | Inr chunk_size \<Rightarrow>
          write_chunk_entries entries (written @ key @ u32_to_le_bytes chunk_size @ chunk))"

text \<open>\<open>write_chunk_cache\<close>: the contents it puts into the file.\<close>

definition write_chunk_cache :: "Zstd \<Rightarrow> (ChunkKey \<times> bytes) list \<Rightarrow> bytes outcome" where
  "write_chunk_cache zstd cache_entries =
     (case zstd_write zstd CHUNK_CACHE_COMPRESSION_LEVEL of Inl e \<Rightarrow> Inl e | Inr finish \<Rightarrow>
     (case expect_u32 ''Chunk count wouldn't fit into a u32'' (length cache_entries) of
        Inl e \<Rightarrow> Inl e
      | Inr chunk_count \<Rightarrow>
     (case write_chunk_entries cache_entries (u32_to_le_bytes chunk_count) of
        Inl e \<Rightarrow> Inl e
      | Inr written \<Rightarrow> finish written)))"

text \<open>
  How the file operations of one save end: \<open>File::create\<close>, writing (what of the data reaches the
  file, and the result), reading the size, and \<open>rename\<close>. A failed \<open>create\<close> or \<open>rename\<close> changes
  nothing. Writing succeeds only when all of the contents has been written.
\<close>

record SaveIO =
  io_create :: "unit outcome"
  io_write :: "bytes outcome \<Rightarrow> bytes \<times> unit outcome"
  io_metadata :: "unit outcome"
  io_rename :: "unit outcome"

definition honest_io :: "SaveIO \<Rightarrow> bool" where
  "honest_io io \<longleftrightarrow> (\<forall>data written. io_write io data = (written, Inr ()) \<longrightarrow> data = Inr written)"

text \<open>
  \<open>try_save\<close>. The temporary file is the cache path with the extension \<open>tmp\<close>, and so the cache file
  itself when that is the extension of the cache path.
\<close>

definition try_save ::
    "'m LinkedHashMap \<Rightarrow> Zstd \<Rightarrow> SaveIO \<Rightarrow> 'm ChunkCache \<Rightarrow> string \<Rightarrow> files
       \<Rightarrow> unit outcome \<times> 'm ChunkCache \<times> files" where
  "try_save lhm zstd io inner cache_path fs =
     (if \<not> cc_needs_saving inner then (Inr (), inner, fs)
      else
        let inner = inner\<lparr>cc_needs_saving := False\<rparr>;
            cache_entries = lhm_iter lhm (rc_chunks (cc_raw_cache inner));
            temp_path = with_extension cache_path ''tmp''
        in case io_create io of Inl e \<Rightarrow> (spawn_blocking (Inl e), inner, fs) | Inr _ \<Rightarrow>
          (let (written, result) = io_write io (write_chunk_cache zstd cache_entries);
               fs = write_file temp_path written fs
           in case result of Inl e \<Rightarrow> (spawn_blocking (Inl e), inner, fs) | Inr _ \<Rightarrow>
             (case io_metadata io of Inl e \<Rightarrow> (spawn_blocking (Inl e), inner, fs) | Inr _ \<Rightarrow>
             (case io_rename io of Inl e \<Rightarrow> (spawn_blocking (Inl e), inner, fs) | Inr _ \<Rightarrow>
                (Inr (), inner, rename_file temp_path cache_path fs)))))"

text \<open>
  \<open>load_from_file\<close>: a file for which \<open>Path::exists\<close> is false, which \<open>None\<close> stands for, gives an empty
  cache.
\<close>

definition load_from_file ::
    "'m LinkedHashMap \<Rightarrow> Libs \<Rightarrow> Zstd \<Rightarrow> u64 \<Rightarrow> bytes outcome option \<Rightarrow> 'm ChunkCache outcome" where
  "load_from_file lhm libs zstd max_size contents =
     (case spawn_blocking
         (case contents of
            None \<Rightarrow> Inr (RawChunkCache_new lhm max_size)
          | Some contents \<Rightarrow> read_chunk_cache lhm libs zstd (RawChunkCache_new lhm max_size) contents) of
        Inl e \<Rightarrow> Inl e
      | Inr raw_cache \<Rightarrow>
          Inr \<lparr>cc_raw_cache = raw_cache, cc_pending_chunks = Map.empty,
               cc_needs_saving = False, cc_next_event = 0, cc_closed = []\<rparr>)"

section \<open>What a bounded cache is\<close>

lemma unat_plus_of_nat: "unat (w :: u64) + n < 2 ^ 64 \<Longrightarrow> unat (w + of_nat n) = unat w + n"
  by (simp add: unat_word_ariths unat_of_nat take_bit_nat_eq_self_iff)

lemma unat_minus_of_nat: "n \<le> unat (w :: u64) \<Longrightarrow> unat (w - of_nat n) = unat w - n"
proof -
  assume le: "n \<le> unat w"
  then have "n < 2 ^ 64" using unsigned_less [of w] by (auto intro: order.strict_trans1)
  then have "unat (of_nat n :: u64) = n" by (simp add: unat_of_nat take_bit_nat_eq_self_iff)
  with le show ?thesis by (simp add: unat_sub word_le_nat_alt)
qed

text \<open>
  The abstract cache: its entries, oldest first. An insertion moves the key to the end and
  then drops the oldest entries until the size bound holds.
\<close>

type_synonym entries = "(ChunkKey \<times> bytes) list"

definition entries_size :: "entries \<Rightarrow> nat" where
  "entries_size es = sum_list (map (length \<circ> snd) es)"

fun shrink :: "nat \<Rightarrow> entries \<Rightarrow> entries" where
  "shrink limit [] = []"
| "shrink limit (e # es) = (if entries_size (e # es) \<le> limit then e # es else shrink limit es)"

definition bounded_insert :: "nat \<Rightarrow> ChunkKey \<Rightarrow> bytes \<Rightarrow> entries \<Rightarrow> entries" where
  "bounded_insert limit key chunk es = shrink limit (filter (\<lambda>e. fst e \<noteq> key) es @ [(key, chunk)])"

lemma entries_size_simps [simp]:
  "entries_size [] = 0"
  "entries_size (e # es) = length (snd e) + entries_size es"
  "entries_size (es @ es') = entries_size es + entries_size es'"
  by (simp_all add: entries_size_def)

lemma entries_size_filter:
  "distinct (map fst es) \<Longrightarrow>
     entries_size es = entries_size (filter (\<lambda>e. fst e \<noteq> key) es)
       + (case map_of es key of None \<Rightarrow> 0 | Some old \<Rightarrow> length old)"
proof (induction es)
  case (Cons e es)
  have none: "filter (\<lambda>e. fst e \<noteq> fst x) es = es" if "fst x \<notin> set (map fst es)" for x :: "ChunkKey \<times> bytes"
    using that by (intro filter_True) (metis image_eqI list.set_map)
  show ?case
  proof (cases "fst e = key")
    case True
    then show ?thesis using Cons.prems none [of e] by (cases e) auto
  next
    case False
    then show ?thesis using Cons by (cases e) auto
  qed
qed simp

lemma shrink_suffix: "\<exists>n. shrink limit es = drop n es"
proof (induction es)
  case (Cons e es)
  then show ?case by (auto intro: exI [of _ 0] exI [of _ "Suc n" for n])
qed simp

lemma entries_size_shrink: "entries_size (shrink limit es) \<le> limit"
  by (induction limit es rule: shrink.induct) auto

lemma shrink_fits: "entries_size es \<le> limit \<Longrightarrow> shrink limit es = es"
  by (cases es) auto

lemma set_shrink: "set (shrink limit es) \<subseteq> set es"
  using shrink_suffix [of limit es] set_drop_subset by metis

lemma distinct_shrink: "distinct (map fst es) \<Longrightarrow> distinct (map fst (shrink limit es))"
  using shrink_suffix [of limit es] distinct_drop drop_map by metis

lemma shrink_maximal:
  "shrink limit es = drop n es \<Longrightarrow> n \<le> length es \<Longrightarrow> m < n \<Longrightarrow> limit < entries_size (drop m es)"
proof (induction es arbitrary: n m)
  case (Cons e es)
  show ?case
  proof (cases "entries_size (e # es) \<le> limit")
    case True
    then have "drop n (e # es) = e # es" using Cons.prems by simp
    then have "length (drop n (e # es)) = length (e # es)" by simp
    with Cons.prems show ?thesis by simp
  next
    case False
    show ?thesis
    proof (cases m)
      case 0
      with False show ?thesis by simp
    next
      case (Suc m')
      with Cons.prems obtain n' where "n = Suc n'" by (cases n) auto
      with Suc Cons.prems False Cons.IH [of n' m'] show ?thesis by auto
    qed
  qed
qed simp

lemma distinct_bounded_insert:
  "distinct (map fst es) \<Longrightarrow> distinct (map fst (bounded_insert limit key chunk es))"
  unfolding bounded_insert_def
  by (rule distinct_shrink) (auto simp: distinct_map_filter)

text \<open>The abstract cache of a concrete one, and when the concrete one is well-formed.\<close>

definition cached :: "'m LinkedHashMap \<Rightarrow> 'm RawChunkCache \<Rightarrow> entries" where
  "cached lhm c = lhm_iter lhm (rc_chunks c)"

definition raw_ok :: "'m LinkedHashMap \<Rightarrow> 'm RawChunkCache \<Rightarrow> bool" where
  "raw_ok lhm c \<longleftrightarrow> distinct (map fst (cached lhm c)) \<and> unat (rc_total_size c) = entries_size (cached lhm c)
     \<and> entries_size (cached lhm c) \<le> unat (rc_max_size c)"

section \<open>The contract of linked hash maps\<close>

text \<open>
  The contract of hashlink's \<open>LinkedHashMap\<close>, in terms of the iteration order: \<open>insert\<close> puts
  the pair at the back and returns the previous value of the key, \<open>pop_front\<close> takes the
  first pair, \<open>get\<close> looks up and changes nothing.
\<close>

locale linked_hash_map =
  fixes lhm :: "'m LinkedHashMap"
  assumes iter_new: "lhm_iter lhm (lhm_new lhm) = []"
    and insert_old: "fst (lhm_insert lhm m key chunk) = map_of (lhm_iter lhm m) key"
    and insert_iter: "lhm_iter lhm (snd (lhm_insert lhm m key chunk))
        = filter (\<lambda>e. fst e \<noteq> key) (lhm_iter lhm m) @ [(key, chunk)]"
    and get_iter: "lhm_get lhm m key = map_of (lhm_iter lhm m) key"
    and pop_front_None: "lhm_pop_front lhm m = None \<longleftrightarrow> lhm_iter lhm m = []"
    and pop_front_Some: "lhm_pop_front lhm m = Some (e, m') \<Longrightarrow> lhm_iter lhm m = e # lhm_iter lhm m'"
begin

lemma raw_ok_new: "raw_ok lhm (RawChunkCache_new lhm limit) \<and> cached lhm (RawChunkCache_new lhm limit) = []"
  by (simp add: raw_ok_def cached_def RawChunkCache_new_def iter_new)

lemma raw_get: "RawChunkCache_get lhm c key = map_of (cached lhm c) key"
  by (simp add: RawChunkCache_get_def cached_def get_iter)

lemma evict_spec:
  assumes "unat (rc_total_size c) = entries_size (cached lhm c)" and "length (cached lhm c) < fuel"
  shows "\<exists>c'. RawChunkCache_evict lhm fuel c = Inr c'
     \<and> cached lhm c' = shrink (unat (rc_max_size c)) (cached lhm c)
     \<and> unat (rc_total_size c') = entries_size (cached lhm c') \<and> rc_max_size c' = rc_max_size c"
  using assms
proof (induction fuel arbitrary: c)
  case (Suc fuel)
  show ?case
  proof (cases "rc_total_size c > rc_max_size c")
    case True
    with Suc.prems have "cached lhm c \<noteq> []" by (auto simp: word_less_nat_alt)
    then obtain key chunk m' where pop: "lhm_pop_front lhm (rc_chunks c) = Some ((key, chunk), m')"
      using pop_front_None [of "rc_chunks c"] by (auto simp: cached_def)
    from pop_front_Some [OF pop] have iter: "cached lhm c = (key, chunk) # lhm_iter lhm m'"
      by (simp add: cached_def)
    let ?c = "c\<lparr>rc_chunks := m', rc_total_size := rc_total_size c - of_nat (length chunk)\<rparr>"
    have "unat (rc_total_size c) = length chunk + entries_size (lhm_iter lhm m')"
      using Suc.prems iter by simp
    then have "unat (rc_total_size ?c) = entries_size (cached lhm ?c)"
      by (simp add: cached_def unat_minus_of_nat)
    then have "\<exists>c'. RawChunkCache_evict lhm fuel ?c = Inr c'
       \<and> cached lhm c' = shrink (unat (rc_max_size ?c)) (cached lhm ?c)
       \<and> unat (rc_total_size c') = entries_size (cached lhm c') \<and> rc_max_size c' = rc_max_size ?c"
      using Suc.prems iter by (intro Suc.IH) (simp_all add: cached_def)
    moreover have "\<not> entries_size (cached lhm c) \<le> unat (rc_max_size c)"
      using True Suc.prems by (simp add: word_less_nat_alt)
    ultimately show ?thesis using True pop iter by (simp add: cached_def)
  next
    case False
    then show ?thesis using Suc.prems by (auto simp: shrink_fits word_less_nat_alt)
  qed
qed simp

lemma insert_spec:
  assumes ok: "raw_ok lhm c" and room: "unat (rc_max_size c) + length chunk < 2 ^ 64"
  shows "\<exists>c'. RawChunkCache_insert lhm c key chunk = Inr c' \<and> raw_ok lhm c'
     \<and> rc_max_size c' = rc_max_size c
     \<and> cached lhm c' = bounded_insert (unat (rc_max_size c)) key chunk (cached lhm c)"
proof -
  obtain old m' where ins: "lhm_insert lhm (rc_chunks c) key chunk = (old, m')"
    by (cases "lhm_insert lhm (rc_chunks c) key chunk")
  let ?es = "filter (\<lambda>e. fst e \<noteq> key) (cached lhm c) @ [(key, chunk)]"
  have old: "old = map_of (cached lhm c) key" and iter: "lhm_iter lhm m' = ?es"
    using insert_old [of "rc_chunks c" key chunk] insert_iter [of "rc_chunks c" key chunk] ins
    by (simp_all add: cached_def)
  let ?t = "case old of Some old_chunk \<Rightarrow> rc_total_size c + of_nat (length chunk) - of_nat (length old_chunk)
      | None \<Rightarrow> rc_total_size c + of_nat (length chunk)"
  let ?c = "c\<lparr>rc_chunks := m', rc_total_size := ?t\<rparr>"
  have size: "entries_size (cached lhm c) = entries_size (filter (\<lambda>e. fst e \<noteq> key) (cached lhm c))
      + (case old of None \<Rightarrow> 0 | Some o' \<Rightarrow> length o')"
    using ok entries_size_filter [of "cached lhm c" key] by (simp add: raw_ok_def old)
  have sum: "unat (rc_total_size c + of_nat (length chunk)) = entries_size (cached lhm c) + length chunk"
    using ok room by (simp add: raw_ok_def unat_plus_of_nat)
  have "unat ?t = entries_size ?es"
    using size sum by (cases old) (simp_all add: unat_minus_of_nat)
  moreover have "cached lhm ?c = ?es" by (simp add: cached_def iter)
  ultimately obtain c' where ev: "RawChunkCache_evict lhm (Suc (length (cached lhm ?c))) ?c = Inr c'"
    "cached lhm c' = shrink (unat (rc_max_size c)) ?es"
    "unat (rc_total_size c') = entries_size (cached lhm c')" "rc_max_size c' = rc_max_size c"
    using evict_spec [of ?c "Suc (length (cached lhm ?c))"] by auto
  have "distinct (map fst (cached lhm c'))"
    using ok distinct_bounded_insert [of "cached lhm c" "unat (rc_max_size c)" key chunk]
    by (simp add: raw_ok_def ev(2) bounded_insert_def)
  moreover have "RawChunkCache_insert lhm c key chunk = Inr c'"
    using ev(1) by (simp add: RawChunkCache_insert_def ins cached_def)
  ultimately show ?thesis using ev entries_size_shrink [of "unat (rc_max_size c)" ?es]
    by (simp add: raw_ok_def bounded_insert_def)
qed

end

text \<open>Linked hash maps as association lists in iteration order.\<close>

definition list_map :: "entries LinkedHashMap" where
  "list_map =
     \<lparr>lhm_new = [],
      lhm_insert = (\<lambda>m key chunk. (map_of m key, filter (\<lambda>e. fst e \<noteq> key) m @ [(key, chunk)])),
      lhm_get = map_of,
      lhm_pop_front = (\<lambda>m. case m of [] \<Rightarrow> None | e # es \<Rightarrow> Some (e, es)),
      lhm_iter = (\<lambda>m. m)\<rparr>"

interpretation list_map: linked_hash_map list_map
  by unfold_locales (auto simp: list_map_def split: list.splits)

section \<open>Looking chunks up\<close>

abbreviation look :: "'m LinkedHashMap \<Rightarrow> 'm ChunkCache \<Rightarrow> ChunkKey \<Rightarrow> bytes option" where
  "look lhm inner \<equiv> RawChunkCache_get lhm (cc_raw_cache inner)"

lemma retain_uncached_out:
  assumes "retain_uncached lhm inner n keys out batch bset = (kept, out', batch')"
  shows "out' = (\<lambda>k. if k \<in> set keys \<and> look lhm inner k \<noteq> None then look lhm inner k else out k)"
  using assms
proof (induction keys arbitrary: out batch bset kept)
  case (Cons key keys)
  then show ?case
    by (auto simp: Let_def fun_eq_iff split: option.splits if_splits prod.splits dest!: Cons.IH)
qed simp

lemma retain_uncached_batch:
  assumes "retain_uncached lhm inner n keys out batch (set batch) = (kept, out', batch')"
    and "distinct batch" and "length batch \<le> n"
  shows "\<exists>new. batch' = batch @ new \<and> distinct batch' \<and> length batch' \<le> n
     \<and> set new \<subseteq> {k \<in> set keys. look lhm inner k = None \<and> cc_pending_chunks inner k = None}
     \<and> set kept \<subseteq> {k \<in> set keys. look lhm inner k = None}
     \<and> {k \<in> set keys. look lhm inner k = None} \<subseteq> set kept \<union> set new
     \<and> (length batch' < n \<longrightarrow> set kept \<subseteq> dom (cc_pending_chunks inner) \<union> set batch')
     \<and> length kept + length new \<le> length keys"
  using assms
proof (induction keys arbitrary: out batch kept)
  case (Cons key keys)
  show ?case
  proof (cases "look lhm inner key")
    case (Some chunk)
    with Cons.prems have "retain_uncached lhm inner n keys (out(key \<mapsto> chunk)) batch (set batch) = (kept, out', batch')"
      by simp
    from Cons.IH [OF this] Cons.prems Some show ?thesis by fastforce
  next
    case None
    show ?thesis
    proof (cases "cc_pending_chunks inner key = None \<and> length batch < n \<and> key \<notin> set batch")
      case True
      with Cons.prems None
      have "retain_uncached lhm inner n keys out (batch @ [key]) (set (batch @ [key])) = (kept, out', batch')"
        by simp
      from Cons.IH [OF this] True Cons.prems None show ?thesis by fastforce
    next
      case False
      with Cons.prems None obtain kept1 where
        "retain_uncached lhm inner n keys out batch (set batch) = (kept1, out', batch')" "kept = key # kept1"
        by (auto simp: Let_def split: prod.splits)
      with Cons.IH [OF this(1)] False Cons.prems None show ?thesis by fastforce
    qed
  qed
qed simp

lemma retain_not_pending_eq:
  "retain_not_pending inner keys =
     (filter (\<lambda>k. cc_pending_chunks inner k = None) keys,
      map (\<lambda>k. (k, the (cc_pending_chunks inner k))) (filter (\<lambda>k. cc_pending_chunks inner k \<noteq> None) keys))"
  by (induction keys) (auto split: option.splits)

lemma mark_pending_eq: "mark_pending keys event m = (\<lambda>k. if k \<in> set keys then Some event else m k)"
  by (induction keys arbitrary: m) auto

lemma collect_waited_eq:
  "collect_waited lhm inner ps out =
     (if \<forall>k \<in> fst ` set ps. look lhm inner k \<noteq> None
      then Inr (\<lambda>k. if k \<in> fst ` set ps then look lhm inner k else out k)
      else Inl (Panic ''waited on chunk, but chunk was not put in cache''))"
proof (induction ps arbitrary: out)
  case (Cons p ps)
  obtain k e where p: "p = (k, e)" by (cases p)
  show ?case
  proof (cases "look lhm inner k")
    case None
    then show ?thesis by (auto simp: p)
  next
    case (Some chunk)
    then have "collect_waited lhm inner (p # ps) out = collect_waited lhm inner ps (out(k \<mapsto> chunk))"
      by (simp add: p)
    then show ?thesis unfolding Cons.IH using Some by (auto simp: p fun_eq_iff)
  qed
qed simp

lemma get_chunks_batched_cases:
  assumes run: "get_chunks_batched lhm inner keys out n = (step, keys', out', inner')" and "0 < n"
  shows "out' = (\<lambda>k. if k \<in> set keys \<and> look lhm inner k \<noteq> None then look lhm inner k else out k)
     \<and> (case step of
          Batch req \<Rightarrow>
            br_batch_keys req \<noteq> [] \<and> distinct (br_batch_keys req) \<and> length (br_batch_keys req) \<le> n
            \<and> set (br_batch_keys req) \<subseteq> {k \<in> set keys. look lhm inner k = None \<and> cc_pending_chunks inner k = None}
            \<and> set keys' \<subseteq> {k \<in> set keys. look lhm inner k = None}
            \<and> {k \<in> set keys. look lhm inner k = None} \<subseteq> set keys' \<union> set (br_batch_keys req)
            \<and> length keys' < length keys
            \<and> br_event req = cc_next_event inner
            \<and> inner' = inner\<lparr>cc_next_event := Suc (cc_next_event inner),
                 cc_pending_chunks := mark_pending (br_batch_keys req) (br_event req) (cc_pending_chunks inner)\<rparr>
        | Finished \<Rightarrow> keys' = [] \<and> inner' = inner \<and> (\<forall>k \<in> set keys. look lhm inner k \<noteq> None)
        | Waiting ps \<Rightarrow> keys' = [] \<and> inner' = inner \<and> ps \<noteq> []
            \<and> fst ` set ps = {k \<in> set keys. look lhm inner k = None}
            \<and> (\<forall>(k, e) \<in> set ps. cc_pending_chunks inner k = Some e))"
proof -
  obtain kept out1 batch where ret: "retain_uncached lhm inner n keys out [] {} = (kept, out1, batch)"
    by (cases "retain_uncached lhm inner n keys out [] {}") auto
  from retain_uncached_batch [of lhm inner n keys out "[]" kept out1 batch] ret have
    b: "distinct batch" "length batch \<le> n"
    "set batch \<subseteq> {k \<in> set keys. look lhm inner k = None \<and> cc_pending_chunks inner k = None}"
    "set kept \<subseteq> {k \<in> set keys. look lhm inner k = None}"
    "{k \<in> set keys. look lhm inner k = None} \<subseteq> set kept \<union> set batch"
    "length batch < n \<longrightarrow> set kept \<subseteq> dom (cc_pending_chunks inner) \<union> set batch"
    "length kept + length batch \<le> length keys"
    by auto
  note out = retain_uncached_out [OF ret]
  show ?thesis
  proof (cases "batch = []")
    case False
    moreover from this have "length kept < length keys" using b(7) by (cases batch) auto
    ultimately show ?thesis using run ret out b by (auto simp: get_chunks_batched_def Let_def)
  next
    case True
    then have pend: "set kept \<subseteq> dom (cc_pending_chunks inner)" using b \<open>0 < n\<close> by simp
    then have none: "filter (\<lambda>k. cc_pending_chunks inner k = None) kept = []"
      and all: "filter (\<lambda>k. cc_pending_chunks inner k \<noteq> None) kept = kept"
      by (auto simp: filter_empty_conv filter_id_conv)
    have eq: "set kept = {k \<in> set keys. look lhm inner k = None}" using b True by auto
    show ?thesis
    proof (cases "kept = []")
      case True
      with \<open>batch = []\<close> run ret out eq show ?thesis
        by (auto simp: get_chunks_batched_def Let_def retain_not_pending_eq)
    next
      case False
      with \<open>batch = []\<close> run ret none all have res:
        "step = Waiting (map (\<lambda>k. (k, the (cc_pending_chunks inner k))) kept)"
        "keys' = []" "out' = out1" "inner' = inner"
        by (auto simp: get_chunks_batched_def Let_def retain_not_pending_eq simp del: not_None_eq)
      have "fst ` set (map (\<lambda>k. (k, the (cc_pending_chunks inner k))) kept) = set kept"
        by (simp add: image_image)
      moreover have "\<forall>(k, e) \<in> set (map (\<lambda>k. (k, the (cc_pending_chunks inner k))) kept).
          cc_pending_chunks inner k = Some e"
        using pend by auto
      ultimately show ?thesis using res out eq False by (simp del: set_map)
    qed
  qed
qed

section \<open>Fulfilling a batch\<close>

fun insert_all :: "nat \<Rightarrow> entries \<Rightarrow> entries \<Rightarrow> entries" where
  "insert_all limit [] es = es"
| "insert_all limit ((key, chunk) # new) es = insert_all limit new (bounded_insert limit key chunk es)"

definition valid_entries :: "Libs \<Rightarrow> entries \<Rightarrow> bool" where
  "valid_entries libs es \<longleftrightarrow> list_all (\<lambda>(key, chunk). key = chunk_key libs chunk) es"

lemma set_bounded_insert: "set (bounded_insert limit key chunk es) \<subseteq> insert (key, chunk) (set es)"
  unfolding bounded_insert_def using set_shrink by fastforce

lemma set_insert_all: "set (insert_all limit new es) \<subseteq> set new \<union> set es"
proof (induction limit new es rule: insert_all.induct)
  case (2 limit key chunk new es)
  then show ?case using set_bounded_insert [of limit key chunk es] by auto
qed simp

lemma valid_insert_all: "valid_entries libs new \<Longrightarrow> valid_entries libs es \<Longrightarrow> valid_entries libs (insert_all limit new es)"
  using set_insert_all [of limit new es] by (auto simp: valid_entries_def list_all_iff)

lemma valid_entries_store: "valid_entries libs es \<Longrightarrow> store_valid libs (map_of es)"
  by (auto simp: valid_entries_def list_all_iff store_valid_def dest!: map_of_SomeD)

lemma bounded_insert_fits:
  "key \<notin> set (map fst es) \<Longrightarrow> entries_size es + length chunk \<le> limit \<Longrightarrow>
     bounded_insert limit key chunk es = es @ [(key, chunk)]"
proof -
  assume a: "key \<notin> set (map fst es)" "entries_size es + length chunk \<le> limit"
  then have "filter (\<lambda>e. fst e \<noteq> key) es = es" by (intro filter_True) (metis image_eqI list.set_map)
  with a show ?thesis by (simp add: bounded_insert_def shrink_fits)
qed

lemma insert_all_fits:
  "distinct (map fst (es @ new)) \<Longrightarrow> entries_size es + entries_size new \<le> limit \<Longrightarrow>
     insert_all limit new es = es @ new"
proof (induction limit new es rule: insert_all.induct)
  case (2 limit key chunk new es)
  then have "bounded_insert limit key chunk es = es @ [(key, chunk)]"
    by (intro bounded_insert_fits) auto
  with 2 show ?case by simp
qed simp

definition unpend :: "ChunkKey set \<Rightarrow> (ChunkKey \<rightharpoonup> nat) \<Rightarrow> (ChunkKey \<rightharpoonup> nat)" where
  "unpend keys pending = (\<lambda>k. if k \<in> keys then None else pending k)"

lemma unpend_insert: "unpend keys (pending(key := None)) = unpend (insert key keys) pending"
  by (auto simp: unpend_def)

lemma unpend_empty [simp]: "unpend {} pending = pending"
  by (simp add: unpend_def)

context linked_hash_map
begin

lemma fulfill_loop_spec:
  assumes "raw_ok lhm (cc_raw_cache inner)"
    and "list_all (\<lambda>(_, chunk). unat (rc_max_size (cc_raw_cache inner)) + length chunk < 2 ^ 64) new"
  shows "\<exists>raw. fulfill_loop lhm inner new
       = Inr (inner\<lparr>cc_raw_cache := raw,
           cc_pending_chunks := unpend (fst ` set new) (cc_pending_chunks inner)\<rparr>)
     \<and> raw_ok lhm raw \<and> rc_max_size raw = rc_max_size (cc_raw_cache inner)
     \<and> cached lhm raw = insert_all (unat (rc_max_size raw)) new (cached lhm (cc_raw_cache inner))"
  using assms
proof (induction new arbitrary: inner)
  case (Cons e new)
  obtain key chunk where e: "e = (key, chunk)" by (cases e)
  from Cons.prems insert_spec [of "cc_raw_cache inner" chunk key] obtain raw1 where
    raw1: "RawChunkCache_insert lhm (cc_raw_cache inner) key chunk = Inr raw1" "raw_ok lhm raw1"
      "rc_max_size raw1 = rc_max_size (cc_raw_cache inner)"
      "cached lhm raw1 = bounded_insert (unat (rc_max_size raw1)) key chunk (cached lhm (cc_raw_cache inner))"
    by (auto simp: e)
  let ?inner = "inner\<lparr>cc_raw_cache := raw1, cc_pending_chunks := (cc_pending_chunks inner)(key := None)\<rparr>"
  have "raw_ok lhm (cc_raw_cache ?inner)"
    "list_all (\<lambda>(_, chunk). unat (rc_max_size (cc_raw_cache ?inner)) + length chunk < 2 ^ 64) new"
    using raw1 Cons.prems by simp_all
  from Cons.IH [OF this] raw1 obtain raw where
    "fulfill_loop lhm ?inner new = Inr (?inner\<lparr>cc_raw_cache := raw,
       cc_pending_chunks := unpend (fst ` set new) (cc_pending_chunks ?inner)\<rparr>)"
    "raw_ok lhm raw" "rc_max_size raw = rc_max_size (cc_raw_cache ?inner)"
    "cached lhm raw = insert_all (unat (rc_max_size raw)) new (cached lhm (cc_raw_cache ?inner))"
    by blast
  with raw1 show ?case by (intro exI [of _ raw]) (simp add: e unpend_insert)
next
  case Nil
  then show ?case by (intro exI [of _ "cc_raw_cache inner"]) simp
qed

lemma fulfill_spec:
  assumes "raw_ok lhm (cc_raw_cache inner)" and "length (br_batch_keys req) = length chunks"
    and "list_all (\<lambda>chunk. unat (rc_max_size (cc_raw_cache inner)) + length chunk < 2 ^ 64) chunks"
  shows "\<exists>raw. fulfill lhm inner req chunks
       = Inr (inner\<lparr>cc_raw_cache := raw,
           cc_pending_chunks := unpend (set (br_batch_keys req)) (cc_pending_chunks inner),
           cc_closed := br_event req # cc_closed inner\<rparr>)
     \<and> raw_ok lhm raw \<and> rc_max_size raw = rc_max_size (cc_raw_cache inner)
     \<and> cached lhm raw = insert_all (unat (rc_max_size raw)) (zip (br_batch_keys req) chunks)
         (cached lhm (cc_raw_cache inner))"
proof -
  have "list_all (\<lambda>(_, chunk). unat (rc_max_size (cc_raw_cache inner)) + length chunk < 2 ^ 64)
      (zip (br_batch_keys req) chunks)"
    using assms(3) by (auto simp: list_all_iff dest: set_zip_rightD)
  from fulfill_loop_spec [OF assms(1) this] show ?thesis
    using assms(2) map_fst_zip [OF assms(2)]
    by (auto simp: fulfill_def simp flip: set_map)
qed

end

section \<open>The contents of the cache file\<close>

text \<open>
  What is documented of zstd: a stream decompresses to what was compressed, at any level,
  and other input at most makes it report errors.
\<close>

fun is_error :: "fault \<Rightarrow> bool" where
  "is_error (Error msg) = True"
| "is_error _ = False"

definition reader_ok :: "reader \<Rightarrow> bool" where
  "reader_ok reader \<longleftrightarrow> pred_option is_error (snd reader)"

definition zstd_ok :: "Zstd \<Rightarrow> bool" where
  "zstd_ok zstd \<longleftrightarrow>
     (\<forall>level finish written data.
        zstd_write zstd level = Inr finish \<longrightarrow> finish written = Inr data \<longrightarrow>
        zstd_read zstd data = Inr (written, None))
     \<and> (\<forall>data. case zstd_read zstd data of Inl e \<Rightarrow> is_error e | Inr reader \<Rightarrow> reader_ok reader)"

fun entry_bytes :: "ChunkKey \<times> bytes \<Rightarrow> bytes" where
  "entry_bytes (ChunkKey key, chunk) = key @ u32_to_le_bytes (of_nat (length chunk)) @ chunk"

definition storable :: "Libs \<Rightarrow> entries \<Rightarrow> bool" where
  "storable libs es \<longleftrightarrow> valid_entries libs es
     \<and> list_all (\<lambda>(_, chunk). length chunk \<le> 20000000 \<and> length (blake3_hash libs chunk) = 32) es"

lemma write_chunk_entries_eq:
  "write_chunk_entries es written = Inr data \<Longrightarrow> data = written @ concat (map entry_bytes es)"
  by (induction es written rule: write_chunk_entries.induct) (auto simp: case_Inr_iff expect_u32_Inr_iff)

lemma read_exact_append [simp]: "length bs = n \<Longrightarrow> read_exact n (bs @ rest, failure) = Inr (bs, (rest, failure))"
  by (auto simp: read_exact_def)

lemma read_u32_buf_append [simp]:
  "read_u32_buf (u32_to_le_bytes w @ rest, failure) = Inr (w, (rest, failure))"
  by (simp add: read_u32_buf_def) (simp add: u32_to_le_bytes_def)

lemma read_exact_cases:
  "read_exact n reader = Inl e \<Longrightarrow> reader_ok reader \<Longrightarrow> is_error e"
  "read_exact n reader = Inr (bs, reader') \<Longrightarrow> reader_ok reader \<Longrightarrow> reader_ok reader'"
  "read_exact n reader = Inr (bs, reader') \<Longrightarrow> length bs = n"
  by (cases reader; auto simp: read_exact_def reader_ok_def UNEXPECTED_EOF_def split: if_splits option.splits)+

lemma read_u32_buf_cases:
  "read_u32_buf reader = Inl e \<Longrightarrow> reader_ok reader \<Longrightarrow> is_error e"
  "read_u32_buf reader = Inr (w, reader') \<Longrightarrow> reader_ok reader \<Longrightarrow> reader_ok reader'"
  by (auto simp: read_u32_buf_def case_outcome_iff dest: read_exact_cases)

context linked_hash_map
begin

lemma read_written_entries:
  assumes "storable libs es" and "raw_ok lhm c" and "unat (rc_max_size c) + 20000000 < 2 ^ 64"
  shows "\<exists>c'. read_chunk_entries lhm libs (length es) (concat (map entry_bytes es) @ rest, failure) c = Inr c'
     \<and> raw_ok lhm c' \<and> rc_max_size c' = rc_max_size c
     \<and> cached lhm c' = insert_all (unat (rc_max_size c)) es (cached lhm c)"
  using assms
proof (induction es arbitrary: c)
  case (Cons e es)
  from Cons.prems obtain chunk where e: "e = (ChunkKey (blake3_hash libs chunk), chunk)"
    and small: "length chunk \<le> 20000000" and hash: "length (blake3_hash libs chunk) = 32"
    by (cases e) (auto simp: storable_def valid_entries_def chunk_key_def)
  have len: "unat (of_nat (length chunk) :: u32) = length chunk" using small by (simp add: unat_of_nat_u32)
  from Cons.prems small insert_spec [of c chunk "ChunkKey (blake3_hash libs chunk)"] obtain c1 where
    c1: "RawChunkCache_insert lhm c (ChunkKey (blake3_hash libs chunk)) chunk = Inr c1" "raw_ok lhm c1"
      "rc_max_size c1 = rc_max_size c"
      "cached lhm c1 = bounded_insert (unat (rc_max_size c)) (ChunkKey (blake3_hash libs chunk)) chunk (cached lhm c)"
    by auto
  have "storable libs es" using Cons.prems by (simp add: storable_def valid_entries_def)
  from Cons.IH [OF this c1(2)] c1 Cons.prems small hash len show ?case by (simp add: e)
qed simp

lemma read_chunk_entries_safe:
  assumes "raw_ok lhm c" and "valid_entries libs (cached lhm c)" and "unat (rc_max_size c) + 20000000 < 2 ^ 64"
    and "reader_ok decoder"
  shows "case read_chunk_entries lhm libs n decoder c of
      Inl e \<Rightarrow> is_error e
    | Inr c' \<Rightarrow> raw_ok lhm c' \<and> valid_entries libs (cached lhm c') \<and> rc_max_size c' = rc_max_size c"
  using assms
proof (induction n arbitrary: decoder c)
  case (Suc n)
  show ?case
  proof (cases "read_exact 32 decoder")
    case (Inl e)
    then show ?thesis using Suc.prems by (simp add: read_exact_cases)
  next
    case (Inr r1)
    then obtain key d1 where 1: "read_exact 32 decoder = Inr (key, d1)" by (cases r1) auto
    then have ok1: "reader_ok d1" using Suc.prems by (blast dest: read_exact_cases)
    show ?thesis
    proof (cases "read_u32_buf d1")
      case (Inl e)
      then show ?thesis using 1 ok1 by (simp add: read_u32_buf_cases)
    next
      case (Inr r2)
      then obtain len d2 where 2: "read_u32_buf d1 = Inr (len, d2)" by (cases r2) auto
      then have ok2: "reader_ok d2" using ok1 by (blast dest: read_u32_buf_cases)
      show ?thesis
      proof (cases "unat len > 20000000 \<or> (\<exists>e. read_exact (unat len) d2 = Inl e)")
        case True
        then show ?thesis using 1 2 ok2 by (auto dest: read_exact_cases)
      next
        case False
        then obtain chunk d3 where 3: "read_exact (unat len) d2 = Inr (chunk, d3)" and l: "unat len \<le> 20000000"
          by (cases "read_exact (unat len) d2") auto
        then have ok3: "reader_ok d3" "length chunk \<le> 20000000" using ok2 by (auto dest: read_exact_cases)
        obtain c1 where c1: "RawChunkCache_insert lhm c (ChunkKey key) chunk = Inr c1" "raw_ok lhm c1"
          "rc_max_size c1 = rc_max_size c"
          "cached lhm c1 = bounded_insert (unat (rc_max_size c)) (ChunkKey key) chunk (cached lhm c)"
          using insert_spec [of c chunk "ChunkKey key"] Suc.prems ok3 by auto
        have "valid_entries libs (cached lhm c1)" if "blake3_hash libs chunk = key"
          using that Suc.prems set_bounded_insert [of "unat (rc_max_size c)" "ChunkKey key" chunk "cached lhm c"]
          by (auto simp: valid_entries_def list_all_iff c1 chunk_key_def)
        then show ?thesis
          using 1 2 3 l c1(1,3) Suc.prems Suc.IH [OF _ _ _ ok3(1), of c] Suc.IH [OF c1(2) _ _ ok3(1)]
          by (cases "blake3_hash libs chunk = key") (simp_all split: sum.splits)
      qed
    qed
  qed
qed simp

end

lemma shrink_drop: "\<exists>n \<le> length es. shrink limit es = drop n es"
proof -
  obtain n where "shrink limit es = drop n es" using shrink_suffix by blast
  then show ?thesis by (intro exI [of _ "min n (length es)"]) (simp add: min_def)
qed

lemma zstd_ok_read:
  assumes "zstd_ok zstd"
  shows "zstd_read zstd data = Inl e \<Longrightarrow> is_error e" and "zstd_read zstd data = Inr reader \<Longrightarrow> reader_ok reader"
proof -
  from assms have "case zstd_read zstd data of Inl e \<Rightarrow> is_error e | Inr reader \<Rightarrow> reader_ok reader"
    unfolding zstd_ok_def by blast
  then show "zstd_read zstd data = Inl e \<Longrightarrow> is_error e" "zstd_read zstd data = Inr reader \<Longrightarrow> reader_ok reader"
    by simp_all
qed

context linked_hash_map
begin

lemma read_chunk_cache_safe:
  assumes "zstd_ok zstd" and "unat max_size + 20000000 < 2 ^ 64"
  shows "case read_chunk_cache lhm libs zstd (RawChunkCache_new lhm max_size) (Inr contents) of
      Inl e \<Rightarrow> is_error e
    | Inr c \<Rightarrow> raw_ok lhm c \<and> valid_entries libs (cached lhm c) \<and> rc_max_size c = max_size"
proof (cases "zstd_read zstd contents")
  case (Inl e)
  then show ?thesis using zstd_ok_read [OF assms(1)] by (simp add: read_chunk_cache_def)
next
  case (Inr decoder)
  then have ok: "reader_ok decoder" using zstd_ok_read [OF assms(1)] by simp
  have new: "raw_ok lhm (RawChunkCache_new lhm max_size)"
    "valid_entries libs (cached lhm (RawChunkCache_new lhm max_size))"
    "unat (rc_max_size (RawChunkCache_new lhm max_size)) + 20000000 < 2 ^ 64"
    using raw_ok_new assms(2) by (simp_all add: RawChunkCache_new_def valid_entries_def)
  have max: "rc_max_size (RawChunkCache_new lhm max_size) = max_size" by (simp add: RawChunkCache_new_def)
  show ?thesis
  proof (cases "read_u32_buf decoder")
    case (Inl e)
    then show ?thesis using \<open>zstd_read zstd contents = Inr decoder\<close> ok
      by (simp add: read_chunk_cache_def read_u32_buf_cases)
  next
    case (Inr r)
    then obtain n d where "read_u32_buf decoder = Inr (n, d)" by (cases r) auto
    then show ?thesis
      using \<open>zstd_read zstd contents = Inr decoder\<close> read_chunk_entries_safe [OF new, of d "unat n"] read_u32_buf_cases(2) [OF _ ok]
      by (simp add: read_chunk_cache_def max split: sum.splits)
  qed
qed

end

section \<open>Properties\<close>

text \<open>
  C20. Insertion refines the abstract bounded cache. Over any linked hash map and with sizes
  that add up in 64 bits, \<open>insert\<close> returns: its \<open>unwrap\<close> never panics and its loop ends. The
  entries are the old ones with the key moved to the end and the oldest dropped, exactly as
  many as needed for the size bound; \<open>total_size\<close> is their size; and a chunk that fits the
  bound is then found under its key.
\<close>

theorem raw_cache_insert_refines:
  assumes "linked_hash_map lhm" and "raw_ok lhm c" and "unat (rc_max_size c) + length chunk < 2 ^ 64"
  shows "\<exists>c' n. RawChunkCache_insert lhm c key chunk = Inr c' \<and> raw_ok lhm c' \<and> rc_max_size c' = rc_max_size c
     \<and> cached lhm c' = bounded_insert (unat (rc_max_size c)) key chunk (cached lhm c)
     \<and> cached lhm c' = drop n (filter (\<lambda>e. fst e \<noteq> key) (cached lhm c) @ [(key, chunk)])
     \<and> (\<forall>m<n. unat (rc_max_size c) < entries_size (drop m (filter (\<lambda>e. fst e \<noteq> key) (cached lhm c) @ [(key, chunk)])))
     \<and> (length chunk \<le> unat (rc_max_size c) \<longrightarrow> RawChunkCache_get lhm c' key = Some chunk)"
proof -
  let ?limit = "unat (rc_max_size c)"
  let ?es = "filter (\<lambda>e. fst e \<noteq> key) (cached lhm c) @ [(key, chunk)]"
  from linked_hash_map.insert_spec [OF assms, of key] obtain c' where
    c': "RawChunkCache_insert lhm c key chunk = Inr c'" "raw_ok lhm c'" "rc_max_size c' = rc_max_size c"
      "cached lhm c' = bounded_insert ?limit key chunk (cached lhm c)" by blast
  obtain n where n: "n \<le> length ?es" "cached lhm c' = drop n ?es"
    using shrink_drop [of ?es ?limit] by (auto simp: c'(4) bounded_insert_def)
  then have least: "\<forall>m<n. ?limit < entries_size (drop m ?es)"
    using shrink_maximal [of ?limit ?es n] by (simp add: c'(4) bounded_insert_def)
  have "RawChunkCache_get lhm c' key = Some chunk" if "length chunk \<le> ?limit"
  proof -
    have "n \<noteq> length ?es"
      using that least [rule_format, of "length ?es - 1"] by auto
    then have "(key, chunk) \<in> set (cached lhm c')" using n by (cases "n = length ?es") auto
    with c'(2) show ?thesis
      by (simp add: linked_hash_map.raw_get [OF assms(1)] raw_ok_def)
  qed
  with c' n least show ?thesis by blast
qed

theorem raw_cache_insert_refines_witness:
  "\<exists>c'. RawChunkCache_insert list_map (RawChunkCache_new list_map 5) (ChunkKey [1]) [1, 2, 3] = Inr c'
     \<and> raw_ok list_map c' \<and> RawChunkCache_get list_map c' (ChunkKey [1]) = Some [1, 2, 3]"
proof -
  have "raw_ok list_map (RawChunkCache_new list_map 5)" using list_map.raw_ok_new by blast
  moreover have m: "rc_max_size (RawChunkCache_new list_map 5) = 5" by (simp add: RawChunkCache_new_def)
  ultimately show ?thesis
    using raw_cache_insert_refines [OF list_map.linked_hash_map_axioms,
        of "RawChunkCache_new list_map 5" "[1, 2, 3]" "ChunkKey [1]"] by auto
qed

text \<open>
  \<open>get_chunks_batched\<close> accounts for every requested key. The cached ones go to the output
  and leave the list. Then either a new, non-empty batch takes keys no one else is fetching,
  at most the batch size and each once, the list shrinks and no other key leaves it; or the
  list is emptied, because every key was found or because the call waits for the batches
  that fetch the remaining ones.
\<close>

theorem get_chunks_batched_accounts:
  assumes "get_chunks_batched lhm inner keys out n = (step, keys', out', inner')" and "0 < n"
  shows "out' = (\<lambda>k. if k \<in> set keys \<and> look lhm inner k \<noteq> None then look lhm inner k else out k)
     \<and> (case step of
          Batch req \<Rightarrow>
            br_batch_keys req \<noteq> [] \<and> distinct (br_batch_keys req) \<and> length (br_batch_keys req) \<le> n
            \<and> set (br_batch_keys req) \<subseteq> {k \<in> set keys. look lhm inner k = None \<and> cc_pending_chunks inner k = None}
            \<and> set keys' \<subseteq> {k \<in> set keys. look lhm inner k = None}
            \<and> {k \<in> set keys. look lhm inner k = None} \<subseteq> set keys' \<union> set (br_batch_keys req)
            \<and> length keys' < length keys
        | Finished \<Rightarrow> keys' = [] \<and> inner' = inner \<and> (\<forall>k \<in> set keys. look lhm inner k \<noteq> None)
        | Waiting ps \<Rightarrow> keys' = [] \<and> inner' = inner
            \<and> fst ` set ps = {k \<in> set keys. look lhm inner k = None}
            \<and> (\<forall>(k, e) \<in> set ps. cc_pending_chunks inner k = Some e))"
  using get_chunks_batched_cases [OF assms] by (cases step) auto

theorem get_chunks_batched_accounts_witness:
  "get_chunks_batched list_map (ChunkCache_new list_map 5) [ChunkKey [1], ChunkKey [2], ChunkKey [1]] Map.empty 1
     = (Batch \<lparr>br_event = 0, br_batch_keys = [ChunkKey [1]]\<rparr>, [ChunkKey [2], ChunkKey [1]], Map.empty,
        (ChunkCache_new list_map 5)\<lparr>cc_next_event := 1, cc_pending_chunks := [ChunkKey [1] \<mapsto> 0]\<rparr>)
   \<and> length [ChunkKey [2], ChunkKey [1]] < length [ChunkKey [1], ChunkKey [2], ChunkKey [1]]"
proof -
  have run: "get_chunks_batched list_map (ChunkCache_new list_map 5) [ChunkKey [1], ChunkKey [2], ChunkKey [1]] Map.empty 1
     = (Batch \<lparr>br_event = 0, br_batch_keys = [ChunkKey [1]]\<rparr>, [ChunkKey [2], ChunkKey [1]], Map.empty,
        (ChunkCache_new list_map 5)\<lparr>cc_next_event := 1, cc_pending_chunks := [ChunkKey [1] \<mapsto> 0]\<rparr>)"
    by (simp add: get_chunks_batched_def ChunkCache_new_def RawChunkCache_new_def RawChunkCache_get_def list_map_def)
  from get_chunks_batched_accounts [OF run] run show ?thesis by simp
qed

text \<open>
  What \<open>write_chunk_cache\<close> writes for a well-formed cache, \<open>load_from_file\<close> reads back as a
  cache with the same entries in the same order.
\<close>

lemma cache_file_roundtrip:
  assumes "linked_hash_map lhm" and "zstd_ok zstd" and "raw_ok lhm c" and "storable libs (cached lhm c)"
    and "unat (rc_max_size c) + 20000000 < 2 ^ 64"
    and "write_chunk_cache zstd (lhm_iter lhm (rc_chunks c)) = Inr contents"
  shows "\<exists>inner. load_from_file lhm libs zstd (rc_max_size c) (Some (Inr contents)) = Inr inner
     \<and> raw_ok lhm (cc_raw_cache inner) \<and> cached lhm (cc_raw_cache inner) = cached lhm c
     \<and> \<not> cc_needs_saving inner \<and> cc_pending_chunks inner = Map.empty"
proof -
  let ?new = "RawChunkCache_new lhm (rc_max_size c)"
  have new: "raw_ok lhm ?new" "cached lhm ?new = []" "rc_max_size ?new = rc_max_size c"
    using linked_hash_map.raw_ok_new [OF assms(1)] by (simp_all add: RawChunkCache_new_def)
  from assms(6) obtain finish where z: "zstd_write zstd CHUNK_CACHE_COMPRESSION_LEVEL = Inr finish"
    and count: "length (cached lhm c) < 2 ^ 32"
    and fin: "finish (u32_to_le_bytes (of_nat (length (cached lhm c))) @ concat (map entry_bytes (cached lhm c)))
        = Inr contents"
    by (auto simp: write_chunk_cache_def case_Inr_iff expect_u32_Inr_iff cached_def dest!: write_chunk_entries_eq)
  from z fin assms(2) have "zstd_read zstd contents
      = Inr (u32_to_le_bytes (of_nat (length (cached lhm c))) @ concat (map entry_bytes (cached lhm c)), None)"
    by (auto simp: zstd_ok_def)
  moreover obtain c' where c': "read_chunk_entries lhm libs (length (cached lhm c))
        (concat (map entry_bytes (cached lhm c)), None) ?new = Inr c'" "raw_ok lhm c'"
      "cached lhm c' = insert_all (unat (rc_max_size c)) (cached lhm c) []"
    using linked_hash_map.read_written_entries [OF assms(1,4) new(1), of "[]" None] assms(5) new by auto
  moreover have "insert_all (unat (rc_max_size c)) (cached lhm c) [] = cached lhm c"
    using assms(3) insert_all_fits [of "[]" "cached lhm c"] by (simp add: raw_ok_def)
  ultimately show ?thesis
    using count by (simp add: load_from_file_def read_chunk_cache_def spawn_blocking_def unat_of_nat_u32)
qed

definition plain_zstd :: Zstd where
  "plain_zstd = \<lparr>zstd_write = (\<lambda>level. Inr Inr), zstd_read = (\<lambda>data. Inr (data, None))\<rparr>"

lemma plain_zstd_ok: "zstd_ok plain_zstd"
  by (simp add: zstd_ok_def plain_zstd_def reader_ok_def)

definition example_cache :: "entries RawChunkCache" where
  "example_cache = \<lparr>rc_chunks = [(chunk_key example_libs [1, 2, 3], [1, 2, 3])], rc_total_size = 3, rc_max_size = 5\<rparr>"

text \<open>
  C26. Loading is safe on any file, damaged ones included: it returns an error, never a
  panic, or a well-formed cache in which every entry is filed under its hash; entries whose
  hash does not match are left out.
\<close>

theorem loaded_cache_is_valid:
  assumes "linked_hash_map lhm" and "zstd_ok zstd" and "unat max_size + 20000000 < 2 ^ 64"
  shows "case load_from_file lhm libs zstd max_size (Some (Inr contents)) of
      Inl e \<Rightarrow> is_error e
    | Inr inner \<Rightarrow> raw_ok lhm (cc_raw_cache inner)
        \<and> store_valid libs (RawChunkCache_get lhm (cc_raw_cache inner))"
proof -
  let ?read = "read_chunk_cache lhm libs zstd (RawChunkCache_new lhm max_size) (Inr contents)"
  have get: "RawChunkCache_get lhm c = map_of (cached lhm c)" for c
    by (rule ext) (rule linked_hash_map.raw_get [OF assms(1)])
  show ?thesis
  proof (cases ?read)
    case (Inl e)
    then have "is_error e" using linked_hash_map.read_chunk_cache_safe [OF assms, of libs contents] by simp
    with Inl show ?thesis by (cases e) (simp_all add: load_from_file_def spawn_blocking_def)
  next
    case (Inr c)
    then have "raw_ok lhm c" "valid_entries libs (cached lhm c)"
      using linked_hash_map.read_chunk_cache_safe [OF assms, of libs contents] by simp_all
    with Inr show ?thesis
      by (simp add: load_from_file_def spawn_blocking_def get valid_entries_store)
  qed
qed

theorem loaded_cache_is_valid_witness:
  "load_from_file list_map example_libs plain_zstd 5 (Some (Inr [1, 0, 0, 0, 7])) = Inl UNEXPECTED_EOF
   \<and> is_error UNEXPECTED_EOF
   \<and> (\<exists>contents inner. write_chunk_cache plain_zstd (lhm_iter list_map (rc_chunks example_cache)) = Inr contents
        \<and> load_from_file list_map example_libs plain_zstd 5 (Some (Inr contents)) = Inr inner
        \<and> cached list_map (cc_raw_cache inner) = [(chunk_key example_libs [1, 2, 3], [1, 2, 3])]
        \<and> raw_ok list_map (cc_raw_cache inner)
        \<and> store_valid example_libs (RawChunkCache_get list_map (cc_raw_cache inner)))"
proof -
  have run: "load_from_file list_map example_libs plain_zstd 5 (Some (Inr [1, 0, 0, 0, 7])) = Inl UNEXPECTED_EOF"
    by (simp add: load_from_file_def read_chunk_cache_def plain_zstd_def read_u32_buf_def read_exact_def
        u32_of_le_def spawn_blocking_def UNEXPECTED_EOF_def)
  have small: "unat (5 :: u64) + 20000000 < 2 ^ 64" by simp
  note valid = loaded_cache_is_valid [OF list_map.linked_hash_map_axioms plain_zstd_ok small, of example_libs]
  have hash: "length (blake3_hash example_libs chunk) = 32" for chunk by (simp add: example_libs_def)
  have c: "raw_ok list_map example_cache" "rc_max_size example_cache = 5"
    "cached list_map example_cache = [(chunk_key example_libs [1, 2, 3], [1, 2, 3])]"
    by (simp_all add: raw_ok_def cached_def list_map_def example_cache_def)
  have st: "storable example_libs (cached list_map example_cache)" by (simp add: c storable_def valid_entries_def hash)
  obtain contents where w: "write_chunk_cache plain_zstd (lhm_iter list_map (rc_chunks example_cache)) = Inr contents"
    by (simp add: write_chunk_cache_def plain_zstd_def list_map_def example_cache_def expect_u32_def chunk_key_def)
  from cache_file_roundtrip [OF list_map.linked_hash_map_axioms plain_zstd_ok c(1) st _ w] small obtain inner where
    l: "load_from_file list_map example_libs plain_zstd 5 (Some (Inr contents)) = Inr inner"
      "cached list_map (cc_raw_cache inner) = cached list_map example_cache" by (auto simp: c(2))
  from valid [of contents] l w c(3) valid [of "[1, 0, 0, 0, 7]"] run show ?thesis by auto
qed

lemma try_save_unflagged: "\<not> cc_needs_saving inner \<Longrightarrow> try_save lhm zstd io inner cache_path fs = (Inr (), inner, fs)"
  by (simp add: try_save_def)

lemma try_save_inner:
  "try_save lhm zstd io inner cache_path fs = (result, inner', fs') \<Longrightarrow> inner' = inner\<lparr>cc_needs_saving := False\<rparr>"
  by (auto simp: try_save_def Let_def split: if_splits sum.splits prod.splits)

text \<open>What a save does to the files, when the temporary file is a file of its own.\<close>

lemma try_save_files:
  assumes "honest_io io" and "with_extension cache_path ''tmp'' \<noteq> cache_path" and "cc_needs_saving inner"
    and "try_save lhm zstd io inner cache_path fs = (result, inner', fs')"
  shows "(case result of
       Inr _ \<Rightarrow> (\<exists>contents. write_chunk_cache zstd (lhm_iter lhm (rc_chunks (cc_raw_cache inner))) = Inr contents
          \<and> fs' cache_path = Some contents)
     | Inl e \<Rightarrow> fs' cache_path = fs cache_path \<and> (\<forall>msg. e \<noteq> Panic msg))
   \<and> (\<forall>path. path \<notin> {cache_path, with_extension cache_path ''tmp''} \<longrightarrow> fs' path = fs path)"
proof -
  let ?data = "write_chunk_cache zstd (lhm_iter lhm (rc_chunks (cc_raw_cache inner)))"
  obtain written res where w: "io_write io ?data = (written, res)" by (cases "io_write io ?data")
  have "res = Inr () \<Longrightarrow> ?data = Inr written" using assms(1) w by (simp add: honest_io_def)
  then show ?thesis using assms(2-4) w
    by (auto simp: try_save_def Let_def spawn_blocking_def split: sum.splits fault.splits)
qed

text \<open>
  The temporary file of a cache path with the extension \<open>tmp\<close> is the cache file (lemma
  \<open>with_extension_tmp\<close>): a save that fails while writing then leaves there what was written so far.
\<close>

lemma own_temp_file_is_truncated:
  assumes "with_extension cache_path ''tmp'' = cache_path" and "cc_needs_saving inner" and "io_create io = Inr ()"
    and "io_write io (write_chunk_cache zstd (lhm_iter lhm (rc_chunks (cc_raw_cache inner)))) = (written, Inl e)"
  shows "\<exists>err inner'. try_save lhm zstd io inner cache_path fs = (Inl err, inner', fs(cache_path \<mapsto> written))"
  using assms by (auto simp: try_save_def Let_def spawn_blocking_def write_file_def split: fault.splits)

text \<open>
  C27. Saving replaces the cache file whole or not at all, when the temporary file is a file of its
  own (it is not when the cache path has the extension \<open>tmp\<close>, or no file name): when \<open>try_save\<close>
  reports success the cache file holds the complete contents for the entries of the cache, and
  on any failure it is what it was before. No file but these two is touched. A panic while
  writing reaches the caller as an error. In every case the dirty flag is then clear, so that
  a save that failed is not tried again before the next \<open>mark_dirty\<close>.
\<close>

theorem save_is_atomic:
  assumes "honest_io io" and "with_extension cache_path ''tmp'' \<noteq> cache_path"
    and "cc_needs_saving inner" and "try_save lhm zstd io inner cache_path fs = (result, inner', fs')"
  shows "(case result of
       Inr _ \<Rightarrow> (\<exists>contents. write_chunk_cache zstd (lhm_iter lhm (rc_chunks (cc_raw_cache inner))) = Inr contents
          \<and> fs' cache_path = Some contents)
     | Inl e \<Rightarrow> fs' cache_path = fs cache_path \<and> (\<forall>msg. e \<noteq> Panic msg))
   \<and> (\<forall>path. path \<notin> {cache_path, with_extension cache_path ''tmp''} \<longrightarrow> fs' path = fs path)
   \<and> try_save lhm zstd io' inner' cache_path fs' = (Inr (), inner', fs')
   \<and> cc_needs_saving (mark_dirty inner')"
  using try_save_files [OF assms] try_save_inner [OF assms(4)]
  by (auto simp: try_save_unflagged mark_dirty_def)

text \<open>File operations of which the writing fails after \<open>n\<close> bytes, or never.\<close>

definition example_io :: "nat option \<Rightarrow> SaveIO" where
  "example_io failure =
     \<lparr>io_create = Inr (),
      io_write = (\<lambda>data. case data of
          Inl e \<Rightarrow> ([], Inl e)
        | Inr contents \<Rightarrow> (case failure of
            None \<Rightarrow> (contents, Inr ())
          | Some n \<Rightarrow> (take n contents, Inl (Error ''No space left on device'')))),
      io_metadata = Inr (), io_rename = Inr ()\<rparr>"

lemma honest_example_io: "honest_io (example_io failure)"
  by (auto simp: honest_io_def example_io_def split: sum.splits option.splits)

lemma example_temp_path: "with_extension ''/persistent-cache'' ''tmp'' = ''/persistent-cache.tmp''"
  using with_extension_default [of "[]"] by simp

theorem save_is_atomic_witness:
  "\<exists>e inner' fs'. try_save list_map plain_zstd (example_io (Some 2)) (mark_dirty (ChunkCache_new list_map 5))
        ''/persistent-cache'' [''/persistent-cache'' \<mapsto> [7]]
       = (Inl e, inner', fs')
     \<and> fs' ''/persistent-cache'' = Some [7] \<and> fs' ''/persistent-cache.tmp'' = Some [0, 0]"
proof -
  let ?inner = "mark_dirty (ChunkCache_new list_map 5)"
  have dirty: "cc_needs_saving ?inner" by (simp add: mark_dirty_def)
  have temp: "with_extension ''/persistent-cache'' ''tmp'' \<noteq> ''/persistent-cache''" by (simp add: example_temp_path)
  obtain e inner' fs' where run: "try_save list_map plain_zstd (example_io (Some 2)) ?inner
      ''/persistent-cache'' [''/persistent-cache'' \<mapsto> [7]] = (Inl e, inner', fs')"
    and "fs' ''/persistent-cache.tmp'' = Some [0, 0]"
    by (simp add: try_save_def Let_def mark_dirty_def ChunkCache_new_def write_chunk_cache_def plain_zstd_def
        RawChunkCache_new_def list_map_def expect_u32_def example_io_def u32_to_le_bytes_def
        example_temp_path spawn_blocking_def)
  with save_is_atomic [OF honest_example_io temp dirty run] show ?thesis by auto
qed

end
