(* ===== verification/Cache_Sharing.thy ===== *)
theory Cache_Sharing
  imports Chunk_Cache "HOL-Library.Multiset"
begin

text \<open>
  The chunk cache of \<open>src/src/chunk_cache.rs\<close> among the tasks that share it, as a step
  relation in which each locked region is one step: which batches are handed out, which keys
  are pending, which events are closed, in every reachable state.
\<close>

section \<open>The cache among its users\<close>

text \<open>
  The cache and the batches that were handed out: those some task is still fetching, and
  those whose task returned early without fulfilling them, which the source lets happen by
  dropping the \<open>BatchChunkRequest\<close>.
\<close>

record 'm CacheSystem =
  sys_cache :: "'m ChunkCache"
  sys_batches :: "BatchChunkRequest list"
  sys_dropped :: "BatchChunkRequest list"

definition CacheSystem_new :: "'m LinkedHashMap \<Rightarrow> u64 \<Rightarrow> 'm CacheSystem" where
  "CacheSystem_new lhm max_size =
     \<lparr>sys_cache = ChunkCache_new lhm max_size, sys_batches = [], sys_dropped = []\<rparr>"

text \<open>
  The steps of the tasks that share the cache, each one locked region. A batch is fulfilled
  with the chunks of its keys, as the client has checked before (\<open>transfer_world_data\<close>
  compares the hash of every chunk with its key), and chunks are small enough for their
  sizes to be added in 64 bits.
\<close>

inductive cache_step :: "Libs \<Rightarrow> 'm LinkedHashMap \<Rightarrow> 'm CacheSystem \<Rightarrow> 'm CacheSystem \<Rightarrow> bool"
  for libs lhm where
  request: "get_chunks_batched lhm (sys_cache s) keys out n = (Batch req, keys', out', cache') \<Longrightarrow> 0 < n \<Longrightarrow>
     cache_step libs lhm s (s\<lparr>sys_cache := cache', sys_batches := req # sys_batches s\<rparr>)"
| fulfilled: "req \<in> set (sys_batches s) \<Longrightarrow>
     list_all2 (\<lambda>key chunk. key = chunk_key libs chunk) (br_batch_keys req) chunks \<Longrightarrow>
     list_all (\<lambda>chunk. unat (rc_max_size (cc_raw_cache (sys_cache s))) + length chunk < 2 ^ 64) chunks \<Longrightarrow>
     fulfill lhm (sys_cache s) req chunks = Inr cache' \<Longrightarrow>
     cache_step libs lhm s (s\<lparr>sys_cache := cache', sys_batches := remove1 req (sys_batches s)\<rparr>)"
| dropped: "req \<in> set (sys_batches s) \<Longrightarrow>
     cache_step libs lhm s (s\<lparr>sys_batches := remove1 req (sys_batches s), sys_dropped := req # sys_dropped s\<rparr>)"
| dirty: "cache_step libs lhm s (s\<lparr>sys_cache := mark_dirty (sys_cache s)\<rparr>)"
| save: "try_save lhm zstd io (sys_cache s) path fs = (result, cache', fs') \<Longrightarrow>
     cache_step libs lhm s (s\<lparr>sys_cache := cache'\<rparr>)"

definition handed_out :: "'m CacheSystem \<Rightarrow> BatchChunkRequest list" where
  "handed_out s = sys_batches s @ sys_dropped s"

definition batches_ok :: "BatchChunkRequest list \<Rightarrow> bool" where
  "batches_ok reqs \<longleftrightarrow> distinct (map br_event reqs) \<and> distinct (concat (map br_batch_keys reqs))"

definition sys_ok :: "Libs \<Rightarrow> 'm LinkedHashMap \<Rightarrow> 'm CacheSystem \<Rightarrow> bool" where
  "sys_ok libs lhm s \<longleftrightarrow>
     raw_ok lhm (cc_raw_cache (sys_cache s))
     \<and> valid_entries libs (cached lhm (cc_raw_cache (sys_cache s)))
     \<and> batches_ok (handed_out s)
     \<and> (\<forall>req \<in> set (handed_out s). br_event req \<notin> set (cc_closed (sys_cache s)))
     \<and> (\<forall>key event. cc_pending_chunks (sys_cache s) key = Some event \<longleftrightarrow>
          (\<exists>req \<in> set (handed_out s). br_event req = event \<and> key \<in> set (br_batch_keys req)))
     \<and> set (cc_closed (sys_cache s)) \<union> br_event ` set (handed_out s) = {..<cc_next_event (sys_cache s)}
     \<and> (\<forall>(key, chunk) \<in> set (cached lhm (cc_raw_cache (sys_cache s))). cc_pending_chunks (sys_cache s) key = None)"

lemma batches_ok_mset: "mset reqs = mset reqs' \<Longrightarrow> batches_ok reqs \<longleftrightarrow> batches_ok reqs'"
proof -
  assume eq: "mset reqs = mset reqs'"
  then have "mset (map br_event reqs) = mset (map br_event reqs')"
    "mset (concat (map br_batch_keys reqs)) = mset (concat (map br_batch_keys reqs'))"
    by (simp_all add: mset_concat flip: sum_mset_sum_list)
  then show ?thesis by (metis batches_ok_def mset_eq_imp_distinct_iff)
qed

lemma batches_ok_Cons:
  "batches_ok (req # reqs) \<longleftrightarrow>
     distinct (br_batch_keys req) \<and> batches_ok reqs
     \<and> (\<forall>r \<in> set reqs. br_event r \<noteq> br_event req \<and> set (br_batch_keys r) \<inter> set (br_batch_keys req) = {})"
proof -
  have "br_event req \<notin> br_event ` set reqs \<longleftrightarrow> (\<forall>r \<in> set reqs. br_event r \<noteq> br_event req)" by (metis image_iff)
  then show ?thesis by (auto simp: batches_ok_def)
qed

lemma sys_ok_pending_dom:
  "sys_ok libs lhm s \<Longrightarrow> dom (cc_pending_chunks (sys_cache s)) = set (concat (map br_batch_keys (handed_out s)))"
  by (auto simp: sys_ok_def dom_def)

context linked_hash_map
begin

lemma sys_ok_new: "sys_ok libs lhm (CacheSystem_new lhm limit)"
  using raw_ok_new [of limit]
  by (simp add: sys_ok_def CacheSystem_new_def ChunkCache_new_def handed_out_def valid_entries_def batches_ok_def)

lemma sys_ok_request:
  assumes ok: "sys_ok libs lhm s" and "0 < n"
    and run: "get_chunks_batched lhm (sys_cache s) keys out n = (Batch req, keys', out', cache')"
  shows "sys_ok libs lhm (s\<lparr>sys_cache := cache', sys_batches := req # sys_batches s\<rparr>)"
proof -
  from get_chunks_batched_cases [OF run \<open>0 < n\<close>]
  have b: "distinct (br_batch_keys req)" "br_event req = cc_next_event (sys_cache s)"
    "set (br_batch_keys req) \<inter> dom (cc_pending_chunks (sys_cache s)) = {}"
    "\<forall>key \<in> set (br_batch_keys req). look lhm (sys_cache s) key = None"
    "cache' = (sys_cache s)\<lparr>cc_next_event := Suc (cc_next_event (sys_cache s)),
        cc_pending_chunks := mark_pending (br_batch_keys req) (br_event req) (cc_pending_chunks (sys_cache s))\<rparr>"
    by auto
  have uncached: "(key, chunk) \<in> set (cached lhm (cc_raw_cache (sys_cache s))) \<Longrightarrow>
      key \<notin> set (br_batch_keys req)" for key chunk
    using b(4) by (auto simp: raw_get map_of_eq_None_iff image_iff)
  have new: "handed_out (s\<lparr>sys_cache := cache', sys_batches := req # sys_batches s\<rparr>) = req # handed_out s"
    by (simp add: handed_out_def)
  have "batches_ok (req # handed_out s)"
    using ok b(1-3) sys_ok_pending_dom [OF ok] by (auto simp: batches_ok_Cons sys_ok_def)
  moreover have "mark_pending (br_batch_keys req) (br_event req) (cc_pending_chunks (sys_cache s)) key = Some event
      \<longleftrightarrow> (\<exists>r \<in> set (req # handed_out s). br_event r = event \<and> key \<in> set (br_batch_keys r))" for key event
  proof (cases "key \<in> set (br_batch_keys req)")
    case True
    with calculation have "\<forall>r \<in> set (handed_out s). key \<notin> set (br_batch_keys r)"
      by (auto simp: batches_ok_Cons)
    with True show ?thesis by (auto simp: mark_pending_eq)
  next
    case False
    with ok show ?thesis by (simp add: mark_pending_eq sys_ok_def)
  qed
  ultimately show ?thesis using ok b(2)
    unfolding sys_ok_def new unfolding b(5)
    by (auto simp: lessThan_Suc mark_pending_eq dest: uncached)
qed

lemma sys_ok_fulfill:
  assumes ok: "sys_ok libs lhm s" and req: "req \<in> set (sys_batches s)"
    and keys: "list_all2 (\<lambda>key chunk. key = chunk_key libs chunk) (br_batch_keys req) chunks"
    and small: "list_all (\<lambda>chunk. unat (rc_max_size (cc_raw_cache (sys_cache s))) + length chunk < 2 ^ 64) chunks"
    and run: "fulfill lhm (sys_cache s) req chunks = Inr cache'"
  shows "sys_ok libs lhm (s\<lparr>sys_cache := cache', sys_batches := remove1 req (sys_batches s)\<rparr>)"
    (is "sys_ok libs lhm ?s")
proof -
  have raw: "raw_ok lhm (cc_raw_cache (sys_cache s))" using ok by (simp add: sys_ok_def)
  from fulfill_spec [OF raw list_all2_lengthD [OF keys] small] run obtain raw' where
    c: "cache' = (sys_cache s)\<lparr>cc_raw_cache := raw',
           cc_pending_chunks := unpend (set (br_batch_keys req)) (cc_pending_chunks (sys_cache s)),
           cc_closed := br_event req # cc_closed (sys_cache s)\<rparr>"
    and r: "raw_ok lhm raw'" "cached lhm raw' = insert_all (unat (rc_max_size raw'))
        (zip (br_batch_keys req) chunks) (cached lhm (cc_raw_cache (sys_cache s)))"
    by auto
  have "valid_entries libs (zip (br_batch_keys req) chunks)"
    using keys by (auto simp: valid_entries_def list_all_iff list_all2_iff)
  then have valid: "valid_entries libs (cached lhm raw')"
    using ok by (simp add: r(2) sys_ok_def valid_insert_all)
  have m: "mset (handed_out s) = mset (req # handed_out ?s)" using req by (simp add: handed_out_def)
  then have bs: "batches_ok (req # handed_out ?s)" using ok batches_ok_mset [OF m] by (simp add: sys_ok_def)
  have set: "set (handed_out s) = insert req (set (handed_out ?s))" using mset_eq_setD [OF m] by simp
  have pend: "unpend (set (br_batch_keys req)) (cc_pending_chunks (sys_cache s)) key = Some event \<longleftrightarrow>
      (\<exists>r \<in> set (handed_out ?s). br_event r = event \<and> key \<in> set (br_batch_keys r))" for key event
    using ok bs unfolding sys_ok_def set by (auto simp: unpend_def batches_ok_Cons)
  have ev: "br_event r \<notin> set (br_event req # cc_closed (sys_cache s))" if "r \<in> set (handed_out ?s)" for r
    using that ok bs unfolding sys_ok_def set by (auto simp: batches_ok_Cons)
  have "set (br_event req # cc_closed (sys_cache s)) \<union> br_event ` set (handed_out ?s) = {..<cc_next_event (sys_cache s)}"
    using ok unfolding sys_ok_def set by auto
  moreover have "unpend (set (br_batch_keys req)) (cc_pending_chunks (sys_cache s)) key = None"
    if "(key, chunk) \<in> set (cached lhm raw')" for key chunk
  proof -
    from that have "(key, chunk) \<in> set (zip (br_batch_keys req) chunks) \<union> set (cached lhm (cc_raw_cache (sys_cache s)))"
      unfolding r(2) using set_insert_all by blast
    then show ?thesis using ok by (auto simp: sys_ok_def unpend_def dest: set_zip_leftD)
  qed
  ultimately show ?thesis using bs r(1) valid pend ev
    unfolding sys_ok_def by (auto simp: c batches_ok_Cons)
qed

lemma sys_ok_step:
  assumes "cache_step libs lhm s s'" and ok: "sys_ok libs lhm s"
  shows "sys_ok libs lhm s'"
  using assms(1)
proof cases
  case (request keys out n req keys' out' cache')
  then show ?thesis using sys_ok_request [OF ok] by simp
next
  case (fulfilled req chunks cache')
  then show ?thesis using sys_ok_fulfill [OF ok] by simp
next
  case (dropped req)
  then have m: "mset (handed_out s') = mset (handed_out s)" by (simp add: handed_out_def)
  then have "set (handed_out s') = set (handed_out s)" by (rule mset_eq_setD)
  then show ?thesis using ok dropped(1) batches_ok_mset [OF m] by (simp add: sys_ok_def)
next
  case dirty
  then show ?thesis using ok by (simp add: sys_ok_def handed_out_def mark_dirty_def)
next
  case (save zstd io path fs result cache' fs')
  have "cache' = (sys_cache s)\<lparr>cc_needs_saving := False\<rparr>" using try_save_inner [OF save(2)] .
  then show ?thesis using ok save(1) by (simp add: sys_ok_def handed_out_def)
qed

lemma sys_ok_steps: "(cache_step libs lhm)\<^sup>*\<^sup>* s s' \<Longrightarrow> sys_ok libs lhm s \<Longrightarrow> sys_ok libs lhm s'"
  by (induction rule: rtranclp_induct) (auto intro: sys_ok_step)

end

text \<open>A dropped batch stays what it is: its event is never closed and its keys stay pending.\<close>

lemma dropped_step: "cache_step libs lhm s s' \<Longrightarrow> set (sys_dropped s) \<subseteq> set (sys_dropped s')"
  by (induction rule: cache_step.induct) auto

lemma dropped_steps: "(cache_step libs lhm)\<^sup>*\<^sup>* s s' \<Longrightarrow> set (sys_dropped s) \<subseteq> set (sys_dropped s')"
  by (induction rule: rtranclp_induct) (auto dest: dropped_step)

lemma next_event_fulfill_loop: "fulfill_loop lhm inner new = Inr inner' \<Longrightarrow> cc_next_event inner' = cc_next_event inner"
  by (induction lhm inner new rule: fulfill_loop.induct) (auto simp: case_Inr_iff)

lemma next_event_step: "cache_step libs lhm s s' \<Longrightarrow> cc_next_event (sys_cache s) \<le> cc_next_event (sys_cache s')"
proof (induction rule: cache_step.induct)
  case (request s keys out n req keys' out' cache')
  then show ?case using get_chunks_batched_cases [OF request] by simp
next
  case (fulfilled req s chunks cache')
  then show ?case by (auto simp: fulfill_def case_Inr_iff dest!: next_event_fulfill_loop split: if_splits)
next
  case (save zstd io s path fs result cache' fs')
  then show ?case using try_save_inner [OF save] by simp
qed (simp_all add: mark_dirty_def)

lemma next_event_steps: "(cache_step libs lhm)\<^sup>*\<^sup>* s s' \<Longrightarrow> cc_next_event (sys_cache s) \<le> cc_next_event (sys_cache s')"
  by (induction rule: rtranclp_induct) (auto dest: next_event_step)

lemma sys_ok_handed_out:
  assumes "sys_ok libs lhm s" and "req \<in> set (handed_out s)" and "key \<in> set (br_batch_keys req)"
  shows "cc_pending_chunks (sys_cache s) key = Some (br_event req)"
    and "key \<notin> fst ` set (cached lhm (cc_raw_cache (sys_cache s)))"
proof -
  show pend: "cc_pending_chunks (sys_cache s) key = Some (br_event req)"
    using assms by (auto simp: sys_ok_def)
  have "\<forall>(key, chunk) \<in> set (cached lhm (cc_raw_cache (sys_cache s))). cc_pending_chunks (sys_cache s) key = None"
    using assms(1) by (simp add: sys_ok_def)
  with pend show "key \<notin> fst ` set (cached lhm (cc_raw_cache (sys_cache s)))" by fastforce
qed

section \<open>Properties\<close>

text \<open>
  C13. No chunk is fetched twice at the same time, and no unchecked chunk enters. In every
  state that the tasks sharing a new cache reach, in whatever order they run: the batches
  handed out have no key in common; a key is pending exactly when it is in such a batch, with
  the event of that batch, which is not closed; the cache is within its size bound, with
  the right total size; every entry is filed under its hash; and fulfilling a batch with
  as many chunks as keys does not panic.
\<close>

theorem shared_cache_safe:
  assumes "linked_hash_map lhm" and "(cache_step libs lhm)\<^sup>*\<^sup>* (CacheSystem_new lhm limit) s"
  shows "distinct (concat (map br_batch_keys (handed_out s)))
     \<and> (\<forall>key event. cc_pending_chunks (sys_cache s) key = Some event \<longleftrightarrow>
          (\<exists>req \<in> set (handed_out s). br_event req = event \<and> key \<in> set (br_batch_keys req)))
     \<and> raw_ok lhm (cc_raw_cache (sys_cache s))
     \<and> store_valid libs (RawChunkCache_get lhm (cc_raw_cache (sys_cache s)))
     \<and> (\<forall>req \<in> set (sys_batches s). \<forall>chunks.
          br_event req \<notin> set (cc_closed (sys_cache s))
          \<and> (length chunks = length (br_batch_keys req) \<longrightarrow>
             list_all (\<lambda>chunk. unat (rc_max_size (cc_raw_cache (sys_cache s))) + length chunk < 2 ^ 64) chunks \<longrightarrow>
             (\<exists>cache'. fulfill lhm (sys_cache s) req chunks = Inr cache')))"
proof -
  from linked_hash_map.sys_ok_steps [OF assms] linked_hash_map.sys_ok_new [OF assms(1)]
  have ok: "sys_ok libs lhm s" by blast
  then have raw: "raw_ok lhm (cc_raw_cache (sys_cache s))"
    and valid: "valid_entries libs (cached lhm (cc_raw_cache (sys_cache s)))" by (simp_all add: sys_ok_def)
  have "RawChunkCache_get lhm (cc_raw_cache (sys_cache s)) = map_of (cached lhm (cc_raw_cache (sys_cache s)))"
    by (rule ext) (rule linked_hash_map.raw_get [OF assms(1)])
  then have "store_valid libs (RawChunkCache_get lhm (cc_raw_cache (sys_cache s)))"
    using valid_entries_store [OF valid] by simp
  moreover have "\<exists>cache'. fulfill lhm (sys_cache s) req chunks = Inr cache'"
    if "length chunks = length (br_batch_keys req)"
      "list_all (\<lambda>chunk. unat (rc_max_size (cc_raw_cache (sys_cache s))) + length chunk < 2 ^ 64) chunks"
    for req chunks
    using linked_hash_map.fulfill_spec [OF assms(1) raw _ that(2)] that(1) by metis
  ultimately show ?thesis using ok raw by (simp add: sys_ok_def batches_ok_def handed_out_def)
qed

text \<open>
  Waiting ends when the fetching ends: take any reachable state in which a task starts to
  wait, and any later state. An event the task waits for is closed there unless its batch is
  still handed out; so when all batches have been fulfilled, the wait is over.
\<close>

theorem waiters_are_released:
  assumes "linked_hash_map lhm" and "(cache_step libs lhm)\<^sup>*\<^sup>* (CacheSystem_new lhm limit) s"
    and "get_chunks_batched lhm (sys_cache s) keys out n = (Waiting ps, keys', out', cache')" and "0 < n"
    and "(cache_step libs lhm)\<^sup>*\<^sup>* s s'"
  shows "(\<forall>(k, e) \<in> set ps. e \<in> set (cc_closed (sys_cache s')) \<longleftrightarrow> e \<notin> br_event ` set (handed_out s'))
     \<and> (handed_out s' = [] \<longrightarrow> events_closed (sys_cache s') ps)"
proof -
  note steps = linked_hash_map.sys_ok_steps [OF assms(1)] linked_hash_map.sys_ok_new [OF assms(1)]
  have ok: "sys_ok libs lhm s" "sys_ok libs lhm s'" using steps assms(2,5) by blast+
  have below: "e < cc_next_event (sys_cache s')" if "(k, e) \<in> set ps" for k e
  proof -
    have "cc_pending_chunks (sys_cache s) k = Some e"
      using get_chunks_batched_cases [OF assms(3,4)] that by auto
    then have "e < cc_next_event (sys_cache s)" using ok(1) by (auto simp: sys_ok_def)
    also have "\<dots> \<le> cc_next_event (sys_cache s')" using assms(5) by (rule next_event_steps)
    finally show ?thesis .
  qed
  have "e \<in> set (cc_closed (sys_cache s')) \<longleftrightarrow> e \<notin> br_event ` set (handed_out s')"
    if "(k, e) \<in> set ps" for k e
  proof -
    have "set (cc_closed (sys_cache s')) \<union> br_event ` set (handed_out s') = {..<cc_next_event (sys_cache s')}"
      "\<forall>req \<in> set (handed_out s'). br_event req \<notin> set (cc_closed (sys_cache s'))"
      using ok(2) by (simp_all add: sys_ok_def)
    with below [OF that] show ?thesis by blast
  qed
  then show ?thesis by (auto simp: events_closed_def list_all_iff)
qed

text \<open>
  A chunk that was waited for is there: when the chunks of a batch fit into the cache
  beside what it holds, then after the batch is fulfilled a task that waited for keys
  of the batch collects exactly their chunks.
\<close>

theorem fulfilled_batch_is_collected:
  assumes "linked_hash_map lhm" and "(cache_step libs lhm)\<^sup>*\<^sup>* (CacheSystem_new lhm limit) s"
    and "req \<in> set (sys_batches s)" and "length chunks = length (br_batch_keys req)"
    and "entries_size (cached lhm (cc_raw_cache (sys_cache s))) + length (concat chunks)
          \<le> unat (rc_max_size (cc_raw_cache (sys_cache s)))"
    and "unat (rc_max_size (cc_raw_cache (sys_cache s))) < 2 ^ 63"
    and "fst ` set ps \<subseteq> set (br_batch_keys req)"
  shows "\<exists>cache'. fulfill lhm (sys_cache s) req chunks = Inr cache'
     \<and> collect_waited lhm cache' ps out
         = Inr (\<lambda>k. if k \<in> fst ` set ps then map_of (zip (br_batch_keys req) chunks) k else out k)"
proof -
  let ?c = "cc_raw_cache (sys_cache s)" and ?new = "zip (br_batch_keys req) chunks"
  from linked_hash_map.sys_ok_steps [OF assms(1,2)] linked_hash_map.sys_ok_new [OF assms(1)]
  have ok: "sys_ok libs lhm s" by blast
  then have raw: "raw_ok lhm ?c" by (simp add: sys_ok_def)
  have sum: "entries_size ?new = length (concat chunks)"
    using assms(4) by (simp add: entries_size_def length_concat flip: map_map)
  have small: "length chunk \<le> length (concat chunks)" if "chunk \<in> set chunks" for chunk
    using that member_le_sum_list [of "length chunk" "map length chunks"] by (simp add: length_concat)
  have "list_all (\<lambda>chunk. unat (rc_max_size ?c) + length chunk < 2 ^ 64) chunks"
  proof (unfold list_all_iff, rule ballI)
    fix chunk assume "chunk \<in> set chunks"
    then have "length chunk \<le> unat (rc_max_size ?c)" using small assms(5) by fastforce
    with assms(6) show "unat (rc_max_size ?c) + length chunk < 2 ^ 64" by simp
  qed
  from linked_hash_map.fulfill_spec [OF assms(1) raw _ this] assms(4) obtain cache' where
    run: "fulfill lhm (sys_cache s) req chunks = Inr cache'"
    and entries: "cached lhm (cc_raw_cache cache') = insert_all (unat (rc_max_size ?c)) ?new (cached lhm ?c)"
    by force
  have disj: "set (br_batch_keys req) \<inter> fst ` set (cached lhm ?c) = {}"
    using sys_ok_handed_out(2) [OF ok, of req] assms(3) by (auto simp: handed_out_def)
  have "distinct (br_batch_keys req)"
    using ok assms(3) by (auto simp: sys_ok_def batches_ok_def handed_out_def distinct_concat_iff)
  with disj raw assms(4) have "distinct (map fst (cached lhm ?c @ ?new))"
    by (auto simp: raw_ok_def)
  with entries assms(5) sum have all: "cached lhm (cc_raw_cache cache') = cached lhm ?c @ ?new"
    by (simp add: insert_all_fits)
  have look: "look lhm cache' k = map_of ?new k" if "k \<in> set (br_batch_keys req)" for k
  proof -
    have "map_of (cached lhm ?c) k = None" using that disj by (auto simp: map_of_eq_None_iff)
    then show ?thesis by (simp add: linked_hash_map.raw_get [OF assms(1)] all map_add_def)
  qed
  have "map_of ?new k \<noteq> None" if "k \<in> set (br_batch_keys req)" for k
    using that assms(4) by (simp add: map_of_eq_None_iff flip: set_map)
  with look assms(7) have "\<forall>k \<in> fst ` set ps. look lhm cache' k \<noteq> None" by auto
  moreover have "(\<lambda>k. if k \<in> fst ` set ps then look lhm cache' k else out k)
      = (\<lambda>k. if k \<in> fst ` set ps then map_of ?new k else out k)"
    using assms(7) by (intro ext if_cong refl look) blast
  ultimately show ?thesis using run unfolding collect_waited_eq by simp
qed

text \<open>
  C39. A dropped batch blocks its chunks for good: once a task has dropped a batch without
  fulfilling it (it returned early on an error), every later request for one of its chunks,
  in whatever state, waits for the event of that batch, and that event is never closed.
\<close>

theorem dropped_batch_never_released:
  assumes "linked_hash_map lhm" and "(cache_step libs lhm)\<^sup>*\<^sup>* (CacheSystem_new lhm limit) s"
    and "req \<in> set (sys_dropped s)" and "key \<in> set (br_batch_keys req)"
    and "(cache_step libs lhm)\<^sup>*\<^sup>* s s'"
  shows "get_chunks_batched lhm (sys_cache s') [key] out n
       = (Waiting [(key, br_event req)], [], out, sys_cache s')
     \<and> \<not> events_closed (sys_cache s') [(key, br_event req)]"
proof -
  note steps = linked_hash_map.sys_ok_steps [OF assms(1)] linked_hash_map.sys_ok_new [OF assms(1)]
  have ok: "sys_ok libs lhm s'" using steps assms(2,5) by (meson rtranclp_trans)
  have req: "req \<in> set (handed_out s')" using dropped_steps [OF assms(5)] assms(3) by (auto simp: handed_out_def)
  then have "br_event req \<notin> set (cc_closed (sys_cache s'))" using ok by (simp add: sys_ok_def)
  moreover have "look lhm (sys_cache s') key = None"
    using sys_ok_handed_out(2) [OF ok req assms(4)]
    by (simp add: linked_hash_map.raw_get [OF assms(1)] map_of_eq_None_iff)
  ultimately show ?thesis
    using sys_ok_handed_out(1) [OF ok req assms(4)]
    by (simp add: get_chunks_batched_def events_closed_def)
qed

text \<open>An example: one task fetches a chunk, another waits for it.\<close>

definition example_key :: ChunkKey where
  "example_key = chunk_key example_libs [1, 2, 3]"

definition example_batch :: BatchChunkRequest where
  "example_batch = \<lparr>br_event = 0, br_batch_keys = [example_key]\<rparr>"

definition example_fetching :: "entries CacheSystem" where
  "example_fetching =
     \<lparr>sys_cache = (ChunkCache_new list_map 100)\<lparr>cc_next_event := 1, cc_pending_chunks := [example_key \<mapsto> 0]\<rparr>,
      sys_batches = [example_batch], sys_dropped = []\<rparr>"

definition example_done :: "entries CacheSystem" where
  "example_done =
     \<lparr>sys_cache = (ChunkCache_new list_map 100)\<lparr>cc_next_event := 1, cc_closed := [0],
        cc_raw_cache := \<lparr>rc_chunks = [(example_key, [1, 2, 3])], rc_total_size = 3, rc_max_size = 100\<rparr>\<rparr>,
      sys_batches = [], sys_dropped = []\<rparr>"

lemmas example_defs = ChunkCache_new_def RawChunkCache_new_def RawChunkCache_get_def list_map_def
  example_batch_def example_fetching_def example_done_def CacheSystem_new_def

lemma example_request:
  "(cache_step example_libs list_map)\<^sup>*\<^sup>* (CacheSystem_new list_map 100) example_fetching"
proof -
  let ?s = "CacheSystem_new list_map 100"
  have "get_chunks_batched list_map (sys_cache ?s) [example_key] Map.empty 512
      = (Batch example_batch, [], Map.empty, sys_cache example_fetching)"
    by (simp add: get_chunks_batched_def example_defs)
  from cache_step.request [OF this] have "cache_step example_libs list_map ?s
      (?s\<lparr>sys_cache := sys_cache example_fetching, sys_batches := [example_batch]\<rparr>)"
    by (simp add: CacheSystem_new_def)
  moreover have "?s\<lparr>sys_cache := sys_cache example_fetching, sys_batches := [example_batch]\<rparr> = example_fetching"
    by (simp add: example_defs)
  ultimately show ?thesis by simp
qed

lemma example_waiting:
  "get_chunks_batched list_map (sys_cache example_fetching) [example_key] Map.empty 512
     = (Waiting [(example_key, 0)], [], Map.empty, sys_cache example_fetching)"
  by (simp add: get_chunks_batched_def example_defs)

lemma example_fulfill: "(cache_step example_libs list_map)\<^sup>*\<^sup>* example_fetching example_done"
proof -
  have run: "fulfill list_map (sys_cache example_fetching) example_batch [[1, 2, 3]] = Inr (sys_cache example_done)"
    by (simp add: fulfill_def example_defs RawChunkCache_insert_def Let_def)
  have "cache_step example_libs list_map example_fetching
      (example_fetching\<lparr>sys_cache := sys_cache example_done, sys_batches := remove1 example_batch (sys_batches example_fetching)\<rparr>)"
    by (rule cache_step.fulfilled [OF _ _ _ run])
      (simp_all add: example_defs example_key_def)
  moreover have "example_fetching\<lparr>sys_cache := sys_cache example_done,
      sys_batches := remove1 example_batch (sys_batches example_fetching)\<rparr> = example_done"
    by (simp add: example_defs)
  ultimately show ?thesis by simp
qed

theorem shared_cache_safe_witness:
  "(cache_step example_libs list_map)\<^sup>*\<^sup>* (CacheSystem_new list_map 100) example_fetching
   \<and> distinct (concat (map br_batch_keys (handed_out example_fetching)))
   \<and> raw_ok list_map (cc_raw_cache (sys_cache example_fetching))"
  using shared_cache_safe [OF list_map.linked_hash_map_axioms example_request] example_request by blast

theorem waiters_are_released_witness:
  "handed_out example_done = [] \<and> events_closed (sys_cache example_done) [(example_key, 0)]"
  using waiters_are_released [OF list_map.linked_hash_map_axioms example_request example_waiting _ example_fulfill]
  by (simp add: handed_out_def example_done_def)

theorem fulfilled_batch_is_collected_witness:
  "\<exists>cache'. fulfill list_map (sys_cache example_fetching) example_batch [[1, 2, 3]] = Inr cache'
     \<and> collect_waited list_map cache' [(example_key, 0)] Map.empty = Inr [example_key \<mapsto> [1, 2, 3]]"
proof -
  have b: "example_batch \<in> set (sys_batches example_fetching)"
    "length [[1, 2, 3 :: u8]] = length (br_batch_keys example_batch)"
    "fst ` set [(example_key, 0 :: nat)] \<subseteq> set (br_batch_keys example_batch)"
    "(\<lambda>k. if k \<in> fst ` set [(example_key, 0 :: nat)] then map_of (zip (br_batch_keys example_batch) [[1, 2, 3]]) k
        else Map.empty k) = [example_key \<mapsto> [1, 2, 3]]"
    by (auto simp: example_fetching_def example_batch_def)
  have c: "entries_size (cached list_map (cc_raw_cache (sys_cache example_fetching))) + length (concat [[1, 2, 3 :: u8]])
      \<le> unat (rc_max_size (cc_raw_cache (sys_cache example_fetching)))"
    "unat (rc_max_size (cc_raw_cache (sys_cache example_fetching))) < 2 ^ 63"
    by (simp_all add: example_defs cached_def)
  from fulfilled_batch_is_collected [OF list_map.linked_hash_map_axioms example_request b(1,2) c b(3), of Map.empty]
  show ?thesis unfolding b(4) .
qed

theorem dropped_batch_never_released_witness:
  "\<exists>s'. (cache_step example_libs list_map)\<^sup>*\<^sup>* (CacheSystem_new list_map 100) s'
     \<and> get_chunks_batched list_map (sys_cache s') [example_key] Map.empty 512
         = (Waiting [(example_key, 0)], [], Map.empty, sys_cache s')
     \<and> \<not> events_closed (sys_cache s') [(example_key, 0)]"
proof -
  let ?s = "example_fetching\<lparr>sys_batches := remove1 example_batch (sys_batches example_fetching),
      sys_dropped := example_batch # sys_dropped example_fetching\<rparr>"
  have "cache_step example_libs list_map example_fetching ?s"
    by (rule cache_step.dropped) (simp add: example_fetching_def)
  with example_request have reach: "(cache_step example_libs list_map)\<^sup>*\<^sup>* (CacheSystem_new list_map 100) ?s"
    by (rule rtranclp.rtrancl_into_rtrancl)
  have b: "example_batch \<in> set (sys_dropped ?s)" "example_key \<in> set (br_batch_keys example_batch)"
    "br_event example_batch = 0"
    by (simp_all add: example_batch_def)
  from dropped_batch_never_released [OF list_map.linked_hash_map_axioms reach b(1,2) rtranclp.rtrancl_refl, of Map.empty 512]
    reach b(3) show ?thesis by auto
qed

end
