(* ===== verification/Client_Proxy.thy ===== *)
theory Client_Proxy
  imports Proxy_Common Cache_Sharing
begin

text \<open>
  The proxy beside the game client, \<open>src/src/proxy/client_proxy.rs\<close>: per peer, the answers to
  the block requests of the game from the world data that has arrived (\<open>ClientProxyState\<close>),
  the task that fetches the world through the shared chunk cache and rebuilds it
  (\<open>transfer_world_data\<close>), and the loops around them. Third-party code is a parameter, as in
  the other theories.
\<close>

definition WORLD_DATA_TIMEOUT :: nat where
  "WORLD_DATA_TIMEOUT = 60000"

section \<open>Answering the game\<close>

record ClientProxyState =
  cp_world_data :: bytes
  cp_last_block_request :: instant
  cp_pending_requests :: btree_set
  cp_pending_requests_swap :: btree_set
  cp_world_data_done :: bool

definition ClientProxyState_new :: "instant \<Rightarrow> ClientProxyState" where
  "ClientProxyState_new now =
     \<lparr>cp_world_data = [], cp_last_block_request = now, cp_pending_requests = [],
      cp_pending_requests_swap = [], cp_world_data_done = False\<rparr>"

definition try_fulfill_block_request :: "ClientProxyState \<Rightarrow> u32 \<Rightarrow> TransferBlockPacket option" where
  "try_fulfill_block_request self requested_block_id =
     (let offset = unat requested_block_id * unat TRANSFER_BLOCK_SIZE
      in if offset + unat TRANSFER_BLOCK_SIZE \<le> length (cp_world_data self)
         then Some \<lparr>blk_block_id = requested_block_id,
                    blk_data = take (unat TRANSFER_BLOCK_SIZE) (drop offset (cp_world_data self))\<rparr>
         else None)"

definition answer_packet :: "TransferBlockPacket \<Rightarrow> bytes \<times> PacketDirection" where
  "answer_packet response = (block_full_packet response, ToClient)"

text \<open>The end of \<open>on_packet_from_client\<close> for packets that are no block requests.\<close>

definition pass_on :: "instant \<Rightarrow> ClientProxyState \<Rightarrow> bytes \<Rightarrow> out_packets \<Rightarrow> ClientProxyState \<times> out_packets" where
  "pass_on now self packet_data out_packets =
     (if cp_world_data self \<noteq> [] \<and> cp_world_data_done self
          \<and> now - cp_last_block_request self > WORLD_DATA_TIMEOUT
      then self\<lparr>cp_world_data := []\<rparr> else self,
      out_packets @ [(packet_data, ToServer)])"

definition on_packet_from_client ::
    "instant \<Rightarrow> ClientProxyState \<Rightarrow> bytes \<Rightarrow> out_packets \<Rightarrow> ClientProxyState \<times> out_packets" where
  "on_packet_from_client now self packet_data out_packets =
     (case FactorioPacketHeader_decode packet_data of
        Inr (header, msg_data) \<Rightarrow>
          if packet_type header = TransferBlockRequest then
            (case TransferBlockRequestPacket_decode msg_data of
               Inr request \<Rightarrow>
                 (case try_fulfill_block_request self (req_block_id request) of
                    Some response \<Rightarrow>
                      (self\<lparr>cp_last_block_request := now\<rparr>, out_packets @ [answer_packet response])
                  | None \<Rightarrow>
                      (self\<lparr>cp_pending_requests := btree_insert (req_block_id request) (cp_pending_requests self),
                            cp_last_block_request := now\<rparr>, out_packets))
             | Inl _ \<Rightarrow> pass_on now self packet_data out_packets)
          else pass_on now self packet_data out_packets
      | Inl _ \<Rightarrow> pass_on now self packet_data out_packets)"

text \<open>The loop of \<open>on_new_world_data\<close> over the pending requests.\<close>

fun answer_pending ::
    "ClientProxyState \<Rightarrow> btree_set \<Rightarrow> btree_set \<Rightarrow> out_packets \<Rightarrow> btree_set \<times> out_packets" where
  "answer_pending self [] swap out_packets = (swap, out_packets)"
| "answer_pending self (requested_block_id # rest) swap out_packets =
     (case try_fulfill_block_request self requested_block_id of
        Some response \<Rightarrow> answer_pending self rest swap (out_packets @ [answer_packet response])
      | None \<Rightarrow> answer_pending self rest (btree_insert requested_block_id swap) out_packets)"

definition on_new_world_data ::
    "instant \<Rightarrow> ClientProxyState \<Rightarrow> bytes option \<Rightarrow> out_packets \<Rightarrow> ClientProxyState \<times> out_packets" where
  "on_new_world_data now self new_data out_packets =
     (case new_data of
        None \<Rightarrow> (self\<lparr>cp_world_data_done := True, cp_last_block_request := now\<rparr>, out_packets)
      | Some new_data \<Rightarrow>
          let self = self\<lparr>cp_world_data := cp_world_data self @ new_data\<rparr>;
              (swap, out_packets) =
                answer_pending self (cp_pending_requests self) (cp_pending_requests_swap self) out_packets
          in (self\<lparr>cp_pending_requests := swap, cp_pending_requests_swap := [],
                   cp_last_block_request := now\<rparr>, out_packets))"

section \<open>Fetching and rebuilding the world\<close>

text \<open>
  The task \<open>transfer_world_data\<close> between its awaits. It is running, or it has sent a batch
  request and awaits the response, or it awaits the events of chunks others fetch, or it has
  returned. \<open>tr_files\<close> are the files still to rebuild, \<open>tr_world_data\<close> the data blocks sent on
  the channel so far.
\<close>

datatype TransferPhase =
    Running
  | AwaitResponse BatchChunkRequest
  | AwaitEvents "(ChunkKey \<times> nat) list"
  | Returned "unit outcome"

record 'io Transfer =
  tr_world_ready :: WorldReadyMessage
  tr_files :: "FactorioFileDescription list"
  tr_all_chunks :: "ChunkKey list"
  tr_local_cache :: chunk_map
  tr_reconstructor :: WorldReconstructor
  tr_world_data :: "bytes list"
  tr_send_stream :: 'io
  tr_phase :: TransferPhase

text \<open>
  The third-party code the task uses: \<open>env_send_ok\<close> tells which blocks the channel to the
  proxy takes (\<open>send\<close> fails once the receiver is gone).
\<close>

record ('m, 'io) ClientEnv =
  env_crc :: Crc
  env_libs :: Libs
  env_lhm :: "'m LinkedHashMap"
  env_messages :: ProxyMessages
  env_write_all :: "'io write_all"
  env_send_ok :: "bytes \<Rightarrow> bool"

text \<open>
  The beginning, up to the loop over the files: the announcement of the world from the
  server. A stream that ends before it is no error (\<open>Inr None\<close>). The rest of the stream is
  returned too.
\<close>

definition transfer_begin ::
    "('m, 'io) ClientEnv \<Rightarrow> 'io \<Rightarrow> bytes \<Rightarrow> ('io Transfer \<times> bytes) option outcome" where
  "transfer_begin env send_stream recv_stream =
     (case read_message recv_stream [] of
        Inl err \<Rightarrow> if err = UNEXPECTED_EOF then Inr None else Inl err
      | Inr (world_ready_message_data, recv_stream, buf) \<Rightarrow>
          (case decode_message_async (world_ready_libs (env_messages env)) world_ready_message_data of
             Inl e \<Rightarrow> Inl e
           | Inr world_ready \<Rightarrow>
               Inr (Some
                 (\<lparr>tr_world_ready = world_ready, tr_files = wd_files (wm_world world_ready),
                   tr_all_chunks = concat (map fd_content_chunks (wd_files (wm_world world_ready))),
                   tr_local_cache = Map.empty,
                   tr_reconstructor = WorldReconstructor_new (env_crc env), tr_world_data = [],
                   tr_send_stream = send_stream, tr_phase = Running\<rparr>, recv_stream))))"

text \<open>The loop over the files, until a file needs more data: the files left are the result.\<close>

fun reconstruct_loop ::
    "('m, 'io) ClientEnv \<Rightarrow> chunk_map \<Rightarrow> WorldReconstructor \<Rightarrow> FactorioFileDescription list \<Rightarrow> bytes list
       \<Rightarrow> (FactorioFileDescription list \<times> WorldReconstructor \<times> bytes list) outcome" where
  "reconstruct_loop env local_cache world_reconstructor [] sent = Inr ([], world_reconstructor, sent)"
| "reconstruct_loop env local_cache world_reconstructor (file_desc # files) sent =
     (case reconstruct_world_file (env_crc env) (env_libs env) world_reconstructor file_desc local_cache of
        Inl e \<Rightarrow> Inl e
      | Inr None \<Rightarrow> Inr (file_desc # files, world_reconstructor, sent)
      | Inr (Some ((header, file_data), world_reconstructor)) \<Rightarrow>
          if \<not> env_send_ok env header \<or> \<not> env_send_ok env file_data then Inl (Error ''channel closed'')
          else reconstruct_loop env local_cache world_reconstructor files (sent @ [header, file_data]))"

text \<open>
  One run of the task from \<open>Running\<close> to its next await or its end, with the shared cache it
  finds and leaves: the files that can be rebuilt are; when a file needs more data, the next
  chunks are looked up or requested; after the last file the world is completed.
\<close>

definition transfer_run ::
    "('m, 'io) ClientEnv \<Rightarrow> 'io Transfer \<Rightarrow> 'm ChunkCache \<Rightarrow> 'io Transfer \<times> 'm ChunkCache" where
  "transfer_run env t chunk_cache =
     (case reconstruct_loop env (tr_local_cache t) (tr_reconstructor t) (tr_files t) (tr_world_data t) of
        Inl e \<Rightarrow> (t\<lparr>tr_phase := Returned (Inl e)\<rparr>, chunk_cache)
      | Inr ([], world_reconstructor, sent) \<Rightarrow>
          let t = t\<lparr>tr_files := [], tr_reconstructor := world_reconstructor, tr_world_data := sent\<rparr>;
              chunk_cache = mark_dirty chunk_cache;
              world_ready = tr_world_ready t
          in (case finalize_world_file (env_crc env) world_reconstructor (wm_world world_ready)
                  (unat (world_size (wm_new_info world_ready))) (world_crc (wm_new_info world_ready)) of
                Inl e \<Rightarrow> (t\<lparr>tr_phase := Returned (Inl e)\<rparr>, chunk_cache)
              | Inr last_data \<Rightarrow>
                  if \<not> env_send_ok env last_data
                  then (t\<lparr>tr_phase := Returned (Inl (Error ''channel closed''))\<rparr>, chunk_cache)
                  else (t\<lparr>tr_world_data := sent @ [last_data], tr_phase := Returned (Inr ())\<rparr>, chunk_cache))
      | Inr (files, world_reconstructor, sent) \<Rightarrow>
          let t = t\<lparr>tr_files := files, tr_reconstructor := world_reconstructor, tr_world_data := sent\<rparr>
          in if tr_all_chunks t = []
             then (t\<lparr>tr_phase := Returned (Inl (Panic ''Emptied chunk list but reconstructor wants more data''))\<rparr>,
                   chunk_cache)
             else
               let (step, all_chunks, local_cache, chunk_cache) =
                     get_chunks_batched (env_lhm env) chunk_cache (tr_all_chunks t) (tr_local_cache t) 512;
                   t = t\<lparr>tr_all_chunks := all_chunks, tr_local_cache := local_cache\<rparr>
               in (case step of
                     Finished \<Rightarrow> (t\<lparr>tr_phase := Running\<rparr>, chunk_cache)
                   | Waiting pending_requests \<Rightarrow> (t\<lparr>tr_phase := AwaitEvents pending_requests\<rparr>, chunk_cache)
                   | Batch batch \<Rightarrow>
                       (case encode_message_async (request_chunks_libs (env_messages env))
                           \<lparr>requested_chunks = br_batch_keys batch\<rparr> of
                          Inl e \<Rightarrow> (t\<lparr>tr_phase := Returned (Inl e)\<rparr>, chunk_cache)
                        | Inr request_data \<Rightarrow>
                       (case write_message (env_write_all env) (tr_send_stream t) request_data of
                          Inl e \<Rightarrow> (t\<lparr>tr_phase := Returned (Inl e)\<rparr>, chunk_cache)
                        | Inr send_stream \<Rightarrow>
                            (t\<lparr>tr_send_stream := send_stream, tr_phase := AwaitResponse batch\<rparr>, chunk_cache)))))"

text \<open>The loop that checks the chunks of a response; \<open>zip\<close> stops at the shorter list.\<close>

fun check_chunks :: "Libs \<Rightarrow> (ChunkKey \<times> bytes) list \<Rightarrow> chunk_map \<Rightarrow> chunk_map outcome" where
  "check_chunks libs [] local_cache = Inr local_cache"
| "check_chunks libs ((key, chunk) # rest) local_cache =
     (if ChunkKey (blake3_hash libs chunk) \<noteq> key then Inl (Error ''Chunk hash mismatch'')
      else check_chunks libs rest (local_cache(key \<mapsto> chunk)))"

text \<open>The response to a batch has arrived, or the stream has ended.\<close>

definition transfer_response ::
    "('m, 'io) ClientEnv \<Rightarrow> 'io Transfer \<Rightarrow> BatchChunkRequest \<Rightarrow> bytes \<Rightarrow> 'm ChunkCache
       \<Rightarrow> 'io Transfer \<times> bytes \<times> 'm ChunkCache" where
  "transfer_response env t batch recv_stream chunk_cache =
     (case read_message recv_stream [] of
        Inl e \<Rightarrow> (t\<lparr>tr_phase := Returned (Inl e)\<rparr>, recv_stream, chunk_cache)
      | Inr (response_data, recv_stream, buf) \<Rightarrow>
     (case decode_message_async (send_chunks_libs (env_messages env)) response_data of
        Inl e \<Rightarrow> (t\<lparr>tr_phase := Returned (Inl e)\<rparr>, recv_stream, chunk_cache)
      | Inr response \<Rightarrow>
     (case check_chunks (env_libs env) (zip (br_batch_keys batch) (sent_chunks response)) (tr_local_cache t) of
        Inl e \<Rightarrow> (t\<lparr>tr_phase := Returned (Inl e)\<rparr>, recv_stream, chunk_cache)
      | Inr local_cache \<Rightarrow>
     (case fulfill (env_lhm env) chunk_cache batch (sent_chunks response) of
        Inl e \<Rightarrow> (t\<lparr>tr_phase := Returned (Inl e)\<rparr>, recv_stream, chunk_cache)
      | Inr chunk_cache \<Rightarrow>
          (t\<lparr>tr_local_cache := local_cache, tr_phase := Running\<rparr>, recv_stream, chunk_cache)))))"

text \<open>All awaited events are closed; the chunks are collected.\<close>

definition transfer_resume ::
    "('m, 'io) ClientEnv \<Rightarrow> 'io Transfer \<Rightarrow> (ChunkKey \<times> nat) list \<Rightarrow> 'm ChunkCache \<Rightarrow> 'io Transfer" where
  "transfer_resume env t pending_requests chunk_cache =
     (case collect_waited (env_lhm env) chunk_cache pending_requests (tr_local_cache t) of
        Inl e \<Rightarrow> t\<lparr>tr_phase := Returned (Inl e)\<rparr>
      | Inr local_cache \<Rightarrow> t\<lparr>tr_local_cache := local_cache, tr_phase := Running\<rparr>)"

section \<open>The loops around them\<close>

text \<open>The start of \<open>proxy_client\<close>: the new stream begins with the id of the peer.\<close>

definition proxy_client_init :: "'io write_all \<Rightarrow> 'io outcome \<Rightarrow> VarInt \<Rightarrow> 'io outcome" where
  "proxy_client_init write_all open_bi peer_id =
     (case open_bi of
        Inl e \<Rightarrow> Inl e
      | Inr comp_send \<Rightarrow> write_all comp_send (u32_to_le_bytes (of_nat peer_id)))"

text \<open>One round of the loop of \<open>proxy_client\<close>; \<open>None\<close> as the next state is its return.\<close>

datatype ClientEvent =
    FromClient "bytes option"
  | FromServer "bytes option"
  | WorldData "bytes option"
  | ClientIdleTimeout

record ProxyClient =
  pc_proxy_state :: ClientProxyState
  pc_world_data_done :: bool

fun drain_client ::
    "VarIntCodec \<Rightarrow> ('a Action \<Rightarrow> bool) \<Rightarrow> VarInt \<Rightarrow> 'a \<Rightarrow> out_packets \<Rightarrow> bool \<times> 'a Action list" where
  "drain_client vc send_ok peer_id peer_addr [] = (True, [])"
| "drain_client vc send_ok peer_id peer_addr ((packet_data, dir) # rest) =
     (let action = (case dir of
            ToClient \<Rightarrow> SendTo packet_data peer_addr
          | ToServer \<Rightarrow> SendDatagram (Datagram_encode vc (Datagram_new peer_id packet_data) []))
      in if send_ok action then
           let (alive, actions) = drain_client vc send_ok peer_id peer_addr rest
           in (alive, action # actions)
         else (False, []))"

text \<open>
  The branch for world data is disabled once the channel has reported its end; such an event
  then changes nothing.
\<close>

definition proxy_client_step ::
    "VarIntCodec \<Rightarrow> ('a Action \<Rightarrow> bool) \<Rightarrow> VarInt \<Rightarrow> 'a \<Rightarrow> instant \<Rightarrow> ProxyClient \<Rightarrow> ClientEvent
       \<Rightarrow> ProxyClient option \<times> 'a Action list" where
  "proxy_client_step vc send_ok peer_id peer_addr now pc event =
     (let drain = (\<lambda>pc out_packets.
            let (alive, actions) = drain_client vc send_ok peer_id peer_addr out_packets
            in (if alive then Some pc else None, actions))
      in case event of
           FromClient None \<Rightarrow> (None, [])
         | FromClient (Some packet_data) \<Rightarrow>
             let (proxy_state, out_packets) = on_packet_from_client now (pc_proxy_state pc) packet_data []
             in drain (pc\<lparr>pc_proxy_state := proxy_state\<rparr>) out_packets
         | FromServer None \<Rightarrow> (None, [])
         | FromServer (Some packet_data) \<Rightarrow> drain pc [(packet_data, ToClient)]
         | WorldData result \<Rightarrow>
             if pc_world_data_done pc then (Some pc, [])
             else let pc = (if result = None then pc\<lparr>pc_world_data_done := True\<rparr> else pc);
                      (proxy_state, out_packets) = on_new_world_data now (pc_proxy_state pc) result []
                  in drain (pc\<lparr>pc_proxy_state := proxy_state\<rparr>) out_packets
         | ClientIdleTimeout \<Rightarrow> (None, []))"

text \<open>
  One round of the loop of \<open>run_client_proxy\<close>: a packet from the game goes to the queue of
  its address, a new address (or one whose task has ended) becomes a new peer with the next
  id; a datagram goes to the queue of its peer. The second result is the peer whose task is
  started.
\<close>

record ('a, 'tx) ClientPeers =
  addr_to_queue :: "'a \<rightharpoonup> 'tx"
  id_to_queue :: "VarInt \<rightharpoonup> 'tx"
  next_peer_id :: u32

definition ClientPeers_new :: "('a, 'tx) ClientPeers" where
  "ClientPeers_new = \<lparr>addr_to_queue = Map.empty, id_to_queue = Map.empty, next_peer_id = 0\<rparr>"

datatype 'a ClientConnEvent = RecvFrom "(bytes \<times> 'a) outcome" | RecvDatagram "bytes outcome"

text \<open>The \<open>None\<close> branch of the lookup: a new peer, its queues, and the packet as its first.\<close>

definition new_peer ::
    "'tx Mpsc \<Rightarrow> ('a, 'tx) ClientPeers \<Rightarrow> bytes \<Rightarrow> 'a \<Rightarrow> (('a, 'tx) ClientPeers \<times> (VarInt \<times> 'a) option) outcome" where
  "new_peer mpsc peers packet_data peer_addr =
     (let peer_id = unat (next_peer_id peers)
      in if next_peer_id peers = 0xFFFFFFFF then Inl (Error ''Ran out of peer ids'')
         else
           let client_receive_queue_tx = mpsc_channel mpsc UDP_QUEUE_SIZE
           in Inr (peers\<lparr>next_peer_id := next_peer_id peers + 1,
                         addr_to_queue := (addr_to_queue peers)
                           (peer_addr \<mapsto> snd (mpsc_try_send mpsc client_receive_queue_tx packet_data)),
                         id_to_queue := (id_to_queue peers)
                           (peer_id \<mapsto> mpsc_channel mpsc UDP_QUEUE_SIZE)\<rparr>, Some (peer_id, peer_addr)))"

definition run_client_proxy_step ::
    "VarIntCodec \<Rightarrow> 'tx Mpsc \<Rightarrow> ('a, 'tx) ClientPeers \<Rightarrow> 'a ClientConnEvent
       \<Rightarrow> (('a, 'tx) ClientPeers \<times> (VarInt \<times> 'a) option) outcome" where
  "run_client_proxy_step vc mpsc peers event =
     (case event of
        RecvFrom result \<Rightarrow>
          (case result of Inl e \<Rightarrow> Inl e | Inr (packet_data, peer_addr) \<Rightarrow>
          (case addr_to_queue peers peer_addr of
             Some sender \<Rightarrow>
               if \<not> mpsc_is_closed mpsc sender
               then Inr (peers\<lparr>addr_to_queue := (addr_to_queue peers)
                            (peer_addr \<mapsto> snd (mpsc_try_send mpsc sender packet_data))\<rparr>, None)
               else new_peer mpsc peers packet_data peer_addr
           | None \<Rightarrow> new_peer mpsc peers packet_data peer_addr))
      | RecvDatagram result \<Rightarrow>
          (case result of Inl e \<Rightarrow> Inl e | Inr data \<Rightarrow>
          (case Datagram_decode vc data of Inl e \<Rightarrow> Inl e | Inr datagram \<Rightarrow>
             Inr (case id_to_queue peers (dg_peer_id datagram) of
                    Some outgoing_queue \<Rightarrow>
                      peers\<lparr>id_to_queue := (id_to_queue peers)
                        (dg_peer_id datagram \<mapsto> snd (mpsc_try_send mpsc outgoing_queue (dg_data datagram)))\<rparr>
                  | None \<Rightarrow> peers, None))))"

end
