(* ===== verification/Client_Blocks.thy ===== *)
theory Client_Blocks
  imports Client_Proxy "HOL-Library.Sublist"
begin

text \<open>
  How the client-side proxy answers the game: which block requests are answered when, with
  which bytes, over runs of the loop of \<open>proxy_client\<close>; and how it numbers its peers.
\<close>

section \<open>Blocks that are there\<close>

definition block_there :: "bytes \<Rightarrow> u32 \<Rightarrow> bool" where
  "block_there data i \<longleftrightarrow> 503 * unat i + 503 \<le> length data"

definition block_answer :: "bytes \<Rightarrow> u32 \<Rightarrow> TransferBlockPacket" where
  "block_answer data i = \<lparr>blk_block_id = i, blk_data = nth_block data (unat i)\<rparr>"

lemma try_fulfill_eq:
  "try_fulfill_block_request s i
     = (if block_there (cp_world_data s) i then Some (block_answer (cp_world_data s) i) else None)"
  by (simp add: try_fulfill_block_request_def block_there_def block_answer_def nth_block_def
      TRANSFER_BLOCK_SIZE_def mult.commute)

lemma block_there_append: "block_there data i \<Longrightarrow> block_there (data @ extra) i"
  by (simp add: block_there_def)

lemma block_answer_append: "block_there data i \<Longrightarrow> block_answer (data @ extra) i = block_answer data i"
  by (simp add: block_there_def block_answer_def nth_block_def)

lemma answer_pending_eq:
  "btree_ok (swap @ ids) \<Longrightarrow>
   answer_pending s ids swap out =
     (swap @ filter (\<lambda>i. \<not> block_there (cp_world_data s) i) ids,
      out @ map (answer_packet \<circ> block_answer (cp_world_data s)) (filter (block_there (cp_world_data s)) ids))"
proof (induction ids arbitrary: swap out)
  case (Cons i ids)
  show ?case
  proof (cases "block_there (cp_world_data s) i")
    case True
    moreover have "btree_ok (swap @ ids)" using Cons.prems by (auto simp: btree_ok_def sorted_append)
    ultimately show ?thesis using Cons.IH by (simp add: try_fulfill_eq)
  next
    case False
    have "insort i swap = swap @ [i]" if "sorted swap" "\<forall>x \<in> set swap. x \<le> i" "i \<notin> set swap"
      using that by (induction swap) auto
    then have "btree_insert i swap = swap @ [i]"
      using Cons.prems by (auto simp: btree_ok_def sorted_append btree_insert_def)
    with False Cons show ?thesis by (simp add: try_fulfill_eq)
  qed
qed simp

section \<open>The invariant\<close>

text \<open>Between calls, no pending request can be answered and the swap set is empty.\<close>

definition cp_ok :: "ClientProxyState \<Rightarrow> bool" where
  "cp_ok s \<longleftrightarrow> btree_ok (cp_pending_requests s) \<and> cp_pending_requests_swap s = []
     \<and> list_all (\<lambda>i. \<not> block_there (cp_world_data s) i) (cp_pending_requests s)"

lemma cp_ok_new: "cp_ok (ClientProxyState_new now)"
  by (simp add: cp_ok_def ClientProxyState_new_def btree_ok_def)

lemma new_world_data_spec:
  assumes "cp_ok s" and "on_new_world_data now s (Some data) out = (s', out')"
  shows "cp_ok s' \<and> cp_world_data s' = cp_world_data s @ data
     \<and> cp_pending_requests s' = filter (\<lambda>i. \<not> block_there (cp_world_data s') i) (cp_pending_requests s)
     \<and> out' = out @ map (answer_packet \<circ> block_answer (cp_world_data s'))
          (filter (block_there (cp_world_data s')) (cp_pending_requests s))"
proof -
  let ?s = "s\<lparr>cp_world_data := cp_world_data s @ data\<rparr>"
  have ok: "btree_ok ([] @ cp_pending_requests s)" "cp_pending_requests_swap s = []"
    using assms(1) by (simp_all add: cp_ok_def)
  show ?thesis
    using assms(2) ok answer_pending_eq [OF ok(1), of ?s out]
    by (auto simp: on_new_world_data_def cp_ok_def btree_ok_def sorted_wrt_filter list_all_iff)
qed

text \<open>The block a packet of the game asks for.\<close>

definition request_of :: "bytes \<Rightarrow> u32 option" where
  "request_of packet =
     (case FactorioPacketHeader_decode packet of
        Inl _ \<Rightarrow> None
      | Inr (header, msg_data) \<Rightarrow>
          if packet_type header = TransferBlockRequest
          then (case TransferBlockRequestPacket_decode msg_data of
                  Inl _ \<Rightarrow> None | Inr request \<Rightarrow> Some (req_block_id request))
          else None)"

lemma on_packet_from_client_eq:
  "on_packet_from_client now s packet out =
     (case request_of packet of
        None \<Rightarrow> pass_on now s packet out
      | Some i \<Rightarrow>
          if block_there (cp_world_data s) i
          then (s\<lparr>cp_last_block_request := now\<rparr>, out @ [answer_packet (block_answer (cp_world_data s) i)])
          else (s\<lparr>cp_pending_requests := btree_insert i (cp_pending_requests s), cp_last_block_request := now\<rparr>, out))"
  by (simp add: on_packet_from_client_def request_of_def try_fulfill_eq split: sum.splits)

lemma cp_ok_on_packet:
  assumes "cp_ok s" and "on_packet_from_client now s packet out = (s', out')"
  shows "cp_ok s'"
  using assms
  by (auto simp: on_packet_from_client_eq pass_on_def cp_ok_def block_there_def list_all_iff
      split: option.splits if_splits)

section \<open>Runs\<close>

definition ProxyClient_new :: "instant \<Rightarrow> ProxyClient" where
  "ProxyClient_new now = \<lparr>pc_proxy_state = ClientProxyState_new now, pc_world_data_done = False\<rparr>"

text \<open>A run of the loop of \<open>proxy_client\<close> over the events of its \<open>select!\<close>, with their times.\<close>

fun run_proxy_client ::
    "VarIntCodec \<Rightarrow> ('a Action \<Rightarrow> bool) \<Rightarrow> VarInt \<Rightarrow> 'a \<Rightarrow> ProxyClient \<Rightarrow> (instant \<times> ClientEvent) list
       \<Rightarrow> ProxyClient option \<times> 'a Action list" where
  "run_proxy_client vc send_ok peer_id addr pc [] = (Some pc, [])"
| "run_proxy_client vc send_ok peer_id addr pc ((now, event) # events) =
     (case proxy_client_step vc send_ok peer_id addr now pc event of
        (None, actions) \<Rightarrow> (None, actions)
      | (Some pc, actions) \<Rightarrow>
          let (result, rest) = run_proxy_client vc send_ok peer_id addr pc events
          in (result, actions @ rest))"

text \<open>The world data that arrives in a run, up to the end of its channel.\<close>

fun data_of :: "(instant \<times> ClientEvent) list \<Rightarrow> bytes" where
  "data_of [] = []"
| "data_of ((_, WorldData (Some data)) # events) = data @ data_of events"
| "data_of ((_, WorldData None) # events) = []"
| "data_of (_ # events) = data_of events"

definition requests_of :: "(instant \<times> ClientEvent) list \<Rightarrow> u32 set" where
  "requests_of events = {i. \<exists>now packet. (now, FromClient (Some packet)) \<in> set events \<and> request_of packet = Some i}"

text \<open>
  \<open>D\<close> is the data that has arrived. The state holds it, unless the channel has ended and the
  copy was cleaned up.
\<close>

definition pc_ok :: "bytes \<Rightarrow> ProxyClient \<Rightarrow> bool" where
  "pc_ok D pc \<longleftrightarrow> cp_ok (pc_proxy_state pc)
     \<and> (cp_world_data (pc_proxy_state pc) = D
        \<or> pc_world_data_done pc \<and> cp_world_data (pc_proxy_state pc) = [])
     \<and> (cp_world_data_done (pc_proxy_state pc) \<longrightarrow> pc_world_data_done pc)"

definition sent_block :: "'a \<Rightarrow> bytes \<Rightarrow> u32 \<Rightarrow> 'a Action" where
  "sent_block addr D i = SendTo (block_full_packet (block_answer D i)) addr"

text \<open>A request is settled when its block has been sent, or when it is pending.\<close>

definition settled :: "'a \<Rightarrow> bytes \<Rightarrow> ProxyClient \<Rightarrow> 'a Action set \<Rightarrow> u32 \<Rightarrow> bool" where
  "settled addr D pc actions i \<longleftrightarrow>
     sent_block addr D i \<in> actions \<and> block_there D i \<or> i \<in> set (cp_pending_requests (pc_proxy_state pc))"

lemma drain_client_all:
  assumes "\<forall>a. send_ok a"
  shows "fst (drain_client vc send_ok peer_id addr ps)"
    and "SendTo p addr \<in> set (snd (drain_client vc send_ok peer_id addr ps)) \<longleftrightarrow> (p, ToClient) \<in> set ps"
proof (induction ps)
  case (Cons x ps)
  case 1
  show ?case using assms Cons by (cases x) (simp add: Let_def case_prod_unfold)
  case 2
  show ?case using assms Cons
    by (cases x; cases "snd x") (auto simp: Let_def case_prod_unfold)
qed simp_all

text \<open>The data an event adds; nothing once the channel has ended.\<close>

definition event_data :: "ProxyClient \<Rightarrow> ClientEvent \<Rightarrow> bytes" where
  "event_data pc event =
     (case event of WorldData (Some data) \<Rightarrow> if pc_world_data_done pc then [] else data | _ \<Rightarrow> [])"

lemma data_of_step:
  assumes "proxy_client_step vc send_ok peer_id addr now pc event = (Some pc', actions)"
  shows "event_data pc event @ (if pc_world_data_done pc' then [] else data_of events)
     = (if pc_world_data_done pc then [] else data_of ((now, event) # events))"
  using assms
  by (cases event rule: ClientEvent.exhaust; cases "pc_world_data_done pc")
    (auto simp: proxy_client_step_def event_data_def Let_def case_prod_unfold
      split: option.splits if_splits)

lemma cp_fields_on_packet:
  "cp_world_data_done (fst (on_packet_from_client now s packet out)) = cp_world_data_done s"
  "cp_world_data (fst (on_packet_from_client now s packet out)) = cp_world_data s
     \<or> cp_world_data_done s \<and> cp_world_data (fst (on_packet_from_client now s packet out)) = []"
  by (auto simp: on_packet_from_client_eq pass_on_def split: option.splits)

lemma from_client_step:
  assumes "proxy_client_step vc send_ok peer_id addr now pc (FromClient packet) = (Some pc', actions)"
  obtains p where "packet = Some p"
    and "pc' = pc\<lparr>pc_proxy_state := fst (on_packet_from_client now (pc_proxy_state pc) p [])\<rparr>"
    and "actions = snd (drain_client vc send_ok peer_id addr (snd (on_packet_from_client now (pc_proxy_state pc) p [])))"
  using assms that
  by (cases packet) (auto simp: proxy_client_step_def Let_def case_prod_unfold split: if_splits)

lemma world_data_step:
  assumes "proxy_client_step vc send_ok peer_id addr now pc (WorldData result) = (Some pc', actions)"
  obtains (over) "event_data pc (WorldData result) = []" and "actions = []"
    and "cp_world_data (pc_proxy_state pc') = cp_world_data (pc_proxy_state pc)"
    and "cp_pending_requests (pc_proxy_state pc') = cp_pending_requests (pc_proxy_state pc)"
    and "cp_pending_requests_swap (pc_proxy_state pc') = cp_pending_requests_swap (pc_proxy_state pc)"
    and "pc_world_data_done pc'"
  | (more_data) data where "result = Some data" and "\<not> pc_world_data_done pc"
    and "pc' = pc\<lparr>pc_proxy_state := fst (on_new_world_data now (pc_proxy_state pc) (Some data) [])\<rparr>"
    and "actions = snd (drain_client vc send_ok peer_id addr (snd (on_new_world_data now (pc_proxy_state pc) (Some data) [])))"
proof (cases "pc_world_data_done pc \<or> result = None")
  case True
  then have "event_data pc (WorldData result) = [] \<and> actions = [] \<and> pc_world_data_done pc'
      \<and> cp_world_data (pc_proxy_state pc') = cp_world_data (pc_proxy_state pc)
      \<and> cp_pending_requests (pc_proxy_state pc') = cp_pending_requests (pc_proxy_state pc)
      \<and> cp_pending_requests_swap (pc_proxy_state pc') = cp_pending_requests_swap (pc_proxy_state pc)"
    using assms
    by (auto simp: proxy_client_step_def event_data_def Let_def case_prod_unfold on_new_world_data_def
        split: if_splits option.splits)
  with over show ?thesis by blast
next
  case False
  then obtain data where "result = Some data" by auto
  with False assms show ?thesis
    by (intro more_data) (auto simp: proxy_client_step_def Let_def case_prod_unfold split: if_splits)
qed

lemma pc_ok_step:
  assumes ok: "pc_ok D pc"
    and step: "proxy_client_step vc send_ok peer_id addr now pc event = (Some pc', actions)"
  shows "pc_ok (D @ event_data pc event) pc'"
proof (cases event)
  case (FromClient packet)
  from step [unfolded FromClient] show ?thesis
  proof (cases rule: from_client_step)
    case (1 p)
    let ?r = "on_packet_from_client now (pc_proxy_state pc) p []"
    have "cp_ok (fst ?r)"
      using ok cp_ok_on_packet [of "pc_proxy_state pc" now p "[]" "fst ?r" "snd ?r"] by (simp add: pc_ok_def)
    with 1 ok cp_fields_on_packet [of now "pc_proxy_state pc" p "[]"] show ?thesis
      by (auto simp: pc_ok_def FromClient event_data_def)
  qed
next
  case (WorldData result)
  from step [unfolded WorldData] show ?thesis
  proof (cases rule: world_data_step)
    case over
    with ok show ?thesis by (auto simp: WorldData pc_ok_def cp_ok_def)
  next
    case (more_data data)
    let ?r = "on_new_world_data now (pc_proxy_state pc) (Some data) []"
    have "cp_world_data_done (fst ?r) = cp_world_data_done (pc_proxy_state pc)"
      by (simp add: on_new_world_data_def Let_def case_prod_unfold)
    with more_data ok new_world_data_spec [of "pc_proxy_state pc" now data "[]" "fst ?r" "snd ?r"]
    show ?thesis by (simp add: pc_ok_def WorldData event_data_def)
  qed
qed (use ok step in \<open>auto simp: proxy_client_step_def event_data_def Let_def case_prod_unfold
  split: option.splits if_splits\<close>)

lemma not_there_Nil [simp]: "\<not> block_there [] i"
  by (simp add: block_there_def)

lemma settled_more: "settled addr D pc A i \<Longrightarrow> A \<subseteq> B \<Longrightarrow> settled addr D pc B i"
  by (auto simp: settled_def)

lemma settled_step:
  assumes ok: "pc_ok D pc" and all: "\<forall>a. send_ok a"
    and step: "proxy_client_step vc send_ok peer_id addr now pc event = (Some pc', actions)"
    and i: "settled addr D pc A i \<or> (\<exists>p. event = FromClient (Some p) \<and> request_of p = Some i)"
  shows "settled addr (D @ event_data pc event) pc' (A \<union> set actions) i"
proof (cases event)
  case (FromClient packet)
  from step [unfolded FromClient] show ?thesis
  proof (cases rule: from_client_step)
    case (1 p)
    let ?s = "pc_proxy_state pc" and ?r = "on_packet_from_client now (pc_proxy_state pc) p []"
    have "set (cp_pending_requests ?s) \<subseteq> set (cp_pending_requests (fst ?r))"
      by (auto simp: on_packet_from_client_eq pass_on_def split: option.splits)
    moreover have "settled addr D pc' (set actions) j" if j: "request_of p = Some j" for j
    proof (cases "block_there (cp_world_data ?s) j")
      case True
      then have "cp_world_data ?s = D" using ok by (auto simp: pc_ok_def)
      with True j have "(block_full_packet (block_answer D j), ToClient) \<in> set (snd ?r)" and "block_there D j"
        by (simp_all add: on_packet_from_client_eq answer_packet_def)
      then show ?thesis by (simp add: settled_def 1 sent_block_def drain_client_all [OF all])
    next
      case False
      with j show ?thesis by (simp add: settled_def 1 on_packet_from_client_eq)
    qed
    ultimately show ?thesis using i FromClient 1 by (auto simp: settled_def event_data_def)
  qed
next
  case (WorldData result)
  from step [unfolded WorldData] show ?thesis
  proof (cases rule: world_data_step)
    case over
    with i show ?thesis by (auto simp: settled_def WorldData)
  next
    case (more_data data)
    let ?s = "pc_proxy_state pc" and ?r = "on_new_world_data now (pc_proxy_state pc) (Some data) []"
    have D: "cp_world_data ?s = D" using ok more_data(2) by (simp add: pc_ok_def)
    have "settled addr (D @ data) pc' (set actions) j" if "j \<in> set (cp_pending_requests ?s)" for j
      using that ok D new_world_data_spec [of ?s now data "[]" "fst ?r" "snd ?r"]
      by (auto simp: settled_def more_data sent_block_def drain_client_all [OF all] answer_packet_def
          pc_ok_def)
    then show ?thesis using i more_data
      by (auto simp: settled_def WorldData event_data_def sent_block_def block_answer_append
          block_there_append)
  qed
qed (use i step in \<open>auto simp: proxy_client_step_def event_data_def Let_def case_prod_unfold settled_def
  split: option.splits if_splits\<close>)

lemma requests_of_Cons:
  "i \<in> requests_of ((now, event) # events) \<longleftrightarrow>
     (\<exists>p. event = FromClient (Some p) \<and> request_of p = Some i) \<or> i \<in> requests_of events"
  by (auto simp: requests_of_def)

lemma run_proxy_client_settles:
  assumes "\<forall>a. send_ok a"
  shows "run_proxy_client vc send_ok peer_id addr pc events = (Some pc', actions) \<Longrightarrow> pc_ok D pc \<Longrightarrow>
    pc_ok (D @ (if pc_world_data_done pc then [] else data_of events)) pc'
    \<and> (settled addr D pc A i \<or> i \<in> requests_of events \<longrightarrow>
        settled addr (D @ (if pc_world_data_done pc then [] else data_of events)) pc' (A \<union> set actions) i)"
proof (induction events arbitrary: pc D A actions)
  case Nil
  then show ?case by (simp add: requests_of_def)
next
  case (Cons e events)
  obtain now event where e: "e = (now, event)" by (cases e)
  obtain pc1 acts1 rest where step: "proxy_client_step vc send_ok peer_id addr now pc event = (Some pc1, acts1)"
    and rest: "run_proxy_client vc send_ok peer_id addr pc1 events = (Some pc', rest)"
    and actions: "actions = acts1 @ rest"
    using Cons.prems(1) e by (auto split: prod.splits option.splits)
  have data: "D @ (if pc_world_data_done pc then [] else data_of (e # events))
      = (D @ event_data pc event) @ (if pc_world_data_done pc1 then [] else data_of events)"
    using data_of_step [OF step, of events] e by simp
  note ok = pc_ok_step [OF Cons.prems(2) step]
  note IH = Cons.IH [OF rest ok, of "A \<union> set acts1"]
  have "settled addr (D @ event_data pc event) pc1 (A \<union> set acts1) i \<or> i \<in> requests_of events"
    if "settled addr D pc A i \<or> i \<in> requests_of (e # events)"
    using that settled_step [OF Cons.prems(2) assms step, of A i]
    by (auto simp: e requests_of_Cons)
  with IH show ?case unfolding data actions set_append Un_assoc [symmetric] by blast
qed

lemma pc_ok_new: "pc_ok [] (ProxyClient_new now)"
  by (simp add: pc_ok_def ProxyClient_new_def cp_ok_new) (simp add: ClientProxyState_new_def)

text \<open>The packets of the game that are passed on, in order.\<close>

fun forwarded :: "(instant \<times> ClientEvent) list \<Rightarrow> bytes list" where
  "forwarded [] = []"
| "forwarded ((_, FromClient (Some packet)) # events) =
     (if request_of packet = None then packet # forwarded events else forwarded events)"
| "forwarded (_ # events) = forwarded events"

text \<open>What each action of a run is due to.\<close>

definition justified :: "'a \<Rightarrow> (instant \<times> ClientEvent) list \<Rightarrow> bytes \<Rightarrow> u32 set \<Rightarrow> 'a Action \<Rightarrow> bool" where
  "justified addr events D R a \<longleftrightarrow>
     (\<exists>packet. a = SendTo packet addr \<and> FromServer (Some packet) \<in> snd ` set events)
     \<or> (\<exists>i \<in> R. a = sent_block addr D i \<and> block_there D i)"

definition is_datagram :: "'a Action \<Rightarrow> bool" where
  "is_datagram a = (case a of SendDatagram _ \<Rightarrow> True | SendTo _ _ \<Rightarrow> False)"

lemma is_datagram_simps [simp]: "is_datagram (SendDatagram d)" "\<not> is_datagram (SendTo p addr)"
  by (simp_all add: is_datagram_def)

lemma drain_client_datagrams:
  assumes "\<forall>a. send_ok a"
  shows "filter is_datagram (snd (drain_client vc send_ok peer_id addr ps))
     = map (\<lambda>p. SendDatagram (Datagram_encode vc (Datagram_new peer_id (fst p)) [])) (filter (\<lambda>p. snd p = ToServer) ps)"
  using assms
  by (induction ps) (auto simp: Let_def case_prod_unfold split: PacketDirection.splits)

fun from_server :: "(instant \<times> ClientEvent) list \<Rightarrow> bytes list" where
  "from_server [] = []"
| "from_server ((_, FromServer (Some packet)) # events) = packet # from_server events"
| "from_server (_ # events) = from_server events"

lemma forwarded_Cons: "forwarded (e # events) = forwarded [e] @ forwarded events"
  by (cases "e # events" rule: forwarded.cases) auto

lemma from_server_Cons: "from_server (e # events) = from_server [e] @ from_server events"
  by (cases "e # events" rule: from_server.cases) auto

lemma sent_packets_step:
  assumes all: "\<forall>a. send_ok a"
    and step: "proxy_client_step vc send_ok peer_id addr now pc event = (Some pc', actions)"
  shows "filter is_datagram actions
       = map (\<lambda>p. SendDatagram (Datagram_encode vc (Datagram_new peer_id p) [])) (forwarded [(now, event)])"
    and "subseq (map (\<lambda>p. SendTo p addr) (from_server [(now, event)])) actions"
proof (atomize (full), cases event)
  case (FromClient packet)
  then show "filter is_datagram actions
       = map (\<lambda>p. SendDatagram (Datagram_encode vc (Datagram_new peer_id p) [])) (forwarded [(now, event)])
     \<and> subseq (map (\<lambda>p. SendTo p addr) (from_server [(now, event)])) actions"
    using step
    by (auto simp: proxy_client_step_def Let_def case_prod_unfold drain_client_datagrams [OF all]
        on_packet_from_client_eq pass_on_def answer_packet_def split: if_splits option.splits)
next
  case (WorldData result)
  have "filter is_datagram (snd (drain_client vc send_ok peer_id addr
      (snd (on_new_world_data now s result [])))) = []" for s
  proof -
    have "snd (answer_pending s' ids swap out) = out @ map (answer_packet \<circ> block_answer (cp_world_data s'))
        (filter (block_there (cp_world_data s')) ids)" for s' ids swap out
      by (induction ids arbitrary: swap out) (simp_all add: try_fulfill_eq)
    then show ?thesis
      by (simp add: drain_client_datagrams [OF all] on_new_world_data_def Let_def case_prod_unfold
          filter_map comp_def answer_packet_def split: option.splits)
  qed
  then show "filter is_datagram actions
       = map (\<lambda>p. SendDatagram (Datagram_encode vc (Datagram_new peer_id p) [])) (forwarded [(now, event)])
     \<and> subseq (map (\<lambda>p. SendTo p addr) (from_server [(now, event)])) actions"
    using step WorldData
    by (auto simp: proxy_client_step_def Let_def case_prod_unfold split: if_splits)
qed (use step all in \<open>auto simp: proxy_client_step_def Let_def split: option.splits if_splits\<close>)

lemma justified_mono:
  assumes "justified addr es D R a" and "set es \<subseteq> set es'" and "R \<subseteq> R'"
  shows "justified addr es' (D @ extra) R' a"
  using assms unfolding justified_def sent_block_def
  by (metis (no_types, lifting) block_answer_append block_there_append image_mono subsetD)

lemma requests_of_Nil [simp]: "requests_of [] = {}"
  by (simp add: requests_of_def)

lemma requests_of_single: "requests_of (e # events) = requests_of [e] \<union> requests_of events"
  by (auto simp: requests_of_def)

lemma drained_justified:
  assumes all: "\<forall>a. send_ok a" and a: "a \<in> set (snd (drain_client vc send_ok peer_id addr ps))"
    and ps: "\<And>p. (p, ToClient) \<in> set ps \<Longrightarrow> justified addr es D R (SendTo p addr)"
  shows "is_datagram a \<or> justified addr es D R a"
  using a ps
proof (induction ps)
  case (Cons x ps)
  then show ?case using all
    by (cases x; cases "snd x") (auto simp: Let_def case_prod_unfold)
qed simp

lemma justified_step:
  assumes ok: "pc_ok D pc" and all: "\<forall>a. send_ok a"
    and R: "set (cp_pending_requests (pc_proxy_state pc)) \<subseteq> R"
    and step: "proxy_client_step vc send_ok peer_id addr now pc event = (Some pc', actions)"
  shows "set (cp_pending_requests (pc_proxy_state pc')) \<subseteq> R \<union> requests_of [(now, event)]
    \<and> (\<forall>a \<in> set actions. is_datagram a
        \<or> justified addr [(now, event)] (D @ event_data pc event) (R \<union> requests_of [(now, event)]) a)"
proof (cases event)
  case (FromClient packet)
  from step [unfolded FromClient] show ?thesis
  proof (cases rule: from_client_step)
    case (1 p)
    let ?s = "pc_proxy_state pc" and ?r = "on_packet_from_client now (pc_proxy_state pc) p []"
    have D: "cp_world_data ?s = D" if "block_there (cp_world_data ?s) i" for i
      using that ok by (auto simp: pc_ok_def)
    have "justified addr [(now, event)] D (R \<union> requests_of [(now, event)]) (SendTo q addr)"
      if "(q, ToClient) \<in> set (snd ?r)" for q
      using that D FromClient 1(1)
      by (auto simp: on_packet_from_client_eq pass_on_def answer_packet_def justified_def sent_block_def
          requests_of_def split: option.splits if_splits)
    note drained = drained_justified [OF all _ this]
    have "set (cp_pending_requests (fst ?r)) \<subseteq> R \<union> requests_of [(now, event)]"
      using R FromClient 1(1)
      by (auto simp: on_packet_from_client_eq pass_on_def requests_of_def split: option.splits)
    with drained show ?thesis by (simp add: 1 FromClient event_data_def)
  qed
next
  case (WorldData result)
  from step [unfolded WorldData] show ?thesis
  proof (cases rule: world_data_step)
    case over
    with R show ?thesis by auto
  next
    case (more_data data)
    let ?s = "pc_proxy_state pc" and ?r = "on_new_world_data now (pc_proxy_state pc) (Some data) []"
    have D: "cp_world_data ?s = D" using ok more_data(2) by (simp add: pc_ok_def)
    note spec = new_world_data_spec [of ?s now data "[]" "fst ?r" "snd ?r"]
    have "justified addr [(now, event)] (D @ event_data pc event) (R \<union> requests_of [(now, event)]) (SendTo q addr)"
      if "(q, ToClient) \<in> set (snd ?r)" for q
      using that ok D R more_data spec
      by (auto simp: pc_ok_def answer_packet_def justified_def sent_block_def WorldData event_data_def)
    note drained = drained_justified [OF all _ this]
    have "set (cp_pending_requests (fst ?r)) \<subseteq> R" using R spec ok by (auto simp: pc_ok_def)
    with drained show ?thesis unfolding more_data by auto
  qed
qed (use R step all in \<open>auto simp: proxy_client_step_def Let_def justified_def
  split: option.splits if_splits\<close>)

lemma run_proxy_client_justified:
  assumes all: "\<forall>a. send_ok a"
  shows "run_proxy_client vc send_ok peer_id addr pc events = (Some pc', actions) \<Longrightarrow> pc_ok D pc \<Longrightarrow>
    set (cp_pending_requests (pc_proxy_state pc)) \<subseteq> R \<Longrightarrow> a \<in> set actions \<Longrightarrow>
    is_datagram a \<or> justified addr events (D @ (if pc_world_data_done pc then [] else data_of events))
      (R \<union> requests_of events) a"
proof (induction events arbitrary: pc D R actions)
  case (Cons e events)
  obtain now event where e: "e = (now, event)" by (cases e)
  obtain pc1 acts1 rest where step: "proxy_client_step vc send_ok peer_id addr now pc event = (Some pc1, acts1)"
    and rest: "run_proxy_client vc send_ok peer_id addr pc1 events = (Some pc', rest)"
    and actions: "actions = acts1 @ rest"
    using Cons.prems(1) e by (auto split: prod.splits option.splits)
  have data: "D @ (if pc_world_data_done pc then [] else data_of (e # events))
      = (D @ event_data pc event) @ (if pc_world_data_done pc1 then [] else data_of events)"
    using data_of_step [OF step, of events] e by simp
  note js = justified_step [OF Cons.prems(2) all Cons.prems(3) step]
  note IH = Cons.IH [OF rest pc_ok_step [OF Cons.prems(2) step] conjunct1 [OF js]]
  have reqs: "R \<union> requests_of (e # events) = R \<union> requests_of [(now, event)] \<union> requests_of events"
    using requests_of_single [of "(now, event)" events] by (simp add: e Un_assoc)
  show ?case
  proof (cases "a \<in> set acts1")
    case True
    with js have "is_datagram a \<or> justified addr [(now, event)] (D @ event_data pc event)
        (R \<union> requests_of [(now, event)]) a" by blast
    moreover have "justified addr (e # events)
        ((D @ event_data pc event) @ (if pc_world_data_done pc1 then [] else data_of events))
        (R \<union> requests_of [(now, event)] \<union> requests_of events) a"
      if "justified addr [(now, event)] (D @ event_data pc event) (R \<union> requests_of [(now, event)]) a"
      using that by (rule justified_mono) (simp add: e, rule Un_upper1)
    ultimately show ?thesis unfolding data reqs by blast
  next
    case False
    then have "a \<in> set rest" using Cons.prems(4) actions by simp
    note IH [OF this]
    moreover have "justified addr (e # events) X Y a" if "justified addr events X Y a" for X Y
      using justified_mono [OF that, of "e # events" Y "[]"] by auto
    ultimately show ?thesis unfolding data reqs by blast
  qed
qed simp

lemma run_proxy_client_packets:
  assumes all: "\<forall>a. send_ok a"
  shows "run_proxy_client vc send_ok peer_id addr pc events = (Some pc', actions) \<Longrightarrow>
    filter is_datagram actions
      = map (\<lambda>p. SendDatagram (Datagram_encode vc (Datagram_new peer_id p) [])) (forwarded events)
    \<and> subseq (map (\<lambda>p. SendTo p addr) (from_server events)) actions"
proof (induction events arbitrary: pc actions)
  case (Cons e events)
  obtain now event where e: "e = (now, event)" by (cases e)
  obtain pc1 acts1 rest where step: "proxy_client_step vc send_ok peer_id addr now pc event = (Some pc1, acts1)"
    and rest: "run_proxy_client vc send_ok peer_id addr pc1 events = (Some pc', rest)"
    and actions: "actions = acts1 @ rest"
    using Cons.prems(1) e by (auto split: prod.splits option.splits)
  show ?case
    using Cons.IH [OF rest] sent_packets_step [OF all step]
    unfolding e actions forwarded_Cons [of "(now, event)" events] from_server_Cons [of "(now, event)" events]
    by (simp add: list_emb_append_mono)
qed simp

section \<open>Properties\<close>

text \<open>
  C7. Every block the game asks for is answered, whenever the data arrives. Take any run of
  the task of a peer from its start, in which no send fails, with requests and world data in
  any order. A requested block has been sent, with the 503 bytes of the world that belong to
  it, or its request is still pending; and one that is pending asks for a block that the data
  so far does not reach, or the copy of the data was discarded after the download.
\<close>

theorem block_requests_are_answered:
  assumes "\<forall>a. send_ok a"
    and "run_proxy_client vc send_ok peer_id addr (ProxyClient_new now) events = (Some pc, actions)"
    and "i \<in> requests_of events"
  shows "if i \<in> set (cp_pending_requests (pc_proxy_state pc))
     then \<not> block_there (data_of events) i
        \<or> pc_world_data_done pc \<and> cp_world_data (pc_proxy_state pc) = []
     else block_there (data_of events) i \<and> sent_block addr (data_of events) i \<in> set actions"
proof -
  have "pc_ok (data_of events) pc \<and> settled addr (data_of events) pc (set actions) i"
    using run_proxy_client_settles [OF assms(1,2) pc_ok_new, of "{}" i] assms(3)
    by (simp add: ProxyClient_new_def)
  then show ?thesis by (auto simp: pc_ok_def settled_def cp_ok_def list_all_iff)
qed

text \<open>
  C21. Otherwise the proxy is transparent. Over any run of the task of a peer in which no send
  fails, the datagrams it sends are exactly the packets of the game that are no block
  requests, in order; every packet of the server reaches the game, in order; and what else the
  game gets is a block it asked for, with the bytes of the world. So the announcement the game
  gets is the one the server-side proxy has forwarded, and not a packet of the client-side
  proxy, as the README has it.
\<close>

theorem proxy_client_transparent:
  assumes "\<forall>a. send_ok a"
    and "run_proxy_client vc send_ok peer_id addr (ProxyClient_new now) events = (Some pc, actions)"
  shows "filter is_datagram actions
       = map (\<lambda>p. SendDatagram (Datagram_encode vc (Datagram_new peer_id p) [])) (forwarded events)
    \<and> subseq (map (\<lambda>p. SendTo p addr) (from_server events)) actions
    \<and> (\<forall>a \<in> set actions. is_datagram a
        \<or> (\<exists>packet. a = SendTo packet addr \<and> FromServer (Some packet) \<in> snd ` set events)
        \<or> (\<exists>i \<in> requests_of events. a = sent_block addr (data_of events) i \<and> block_there (data_of events) i))"
  using run_proxy_client_packets [OF assms]
    run_proxy_client_justified [OF assms pc_ok_new, of "{}"]
  by (auto simp: ProxyClient_new_def ClientProxyState_new_def justified_def)

section \<open>An example\<close>

lemma request_of_request: "request_of (request_full_packet r) = Some (req_block_id r)"
  using TransferBlockRequestPacket_decode_le [of "req_block_id r" "[]"]
  by (simp add: request_of_def full_packet_header FactorioPacketHeader_new_unfragmented_def)

definition example_client_events :: "(instant \<times> ClientEvent) list" where
  "example_client_events =
     [(1, FromClient (Some (request_full_packet \<lparr>req_block_id = 0\<rparr>))),
      (2, WorldData (Some (replicate 503 7))),
      (3, FromClient (Some [])),
      (4, FromServer (Some [2])),
      (5, FromClient (Some (request_full_packet \<lparr>req_block_id = 1\<rparr>)))]"

lemma example_request_of_Nil: "request_of [] = None"
  by (simp add: request_of_def FactorioPacketHeader_decode_def)

lemma example_data: "data_of example_client_events = replicate 503 7"
  by (simp add: example_client_events_def)

lemma example_requests: "requests_of example_client_events = {0, 1}"
  by (rule set_eqI) (auto simp: example_client_events_def requests_of_Cons request_of_request example_request_of_Nil)

lemma example_there: "block_there (replicate 503 7) 0" "\<not> block_there (replicate 503 7) 1"
  by (simp_all add: block_there_def)

lemma example_client_run:
  "\<exists>pc actions. run_proxy_client rfc9000_varint (\<lambda>_. True) 3 () (ProxyClient_new 0) example_client_events
      = (Some pc, actions) \<and> cp_pending_requests (pc_proxy_state pc) = [1]"
  by (simp add: example_client_events_def proxy_client_step_def on_packet_from_client_eq request_of_request
      example_request_of_Nil example_there ProxyClient_new_def ClientProxyState_new_def on_new_world_data_def
      answer_packet_def try_fulfill_eq pass_on_def btree_insert_def Let_def)

theorem block_requests_are_answered_witness:
  "0 \<in> requests_of example_client_events \<and> 1 \<in> requests_of example_client_events
   \<and> (\<exists>pc actions. run_proxy_client rfc9000_varint (\<lambda>_. True) 3 () (ProxyClient_new 0) example_client_events
        = (Some pc, actions)
      \<and> sent_block () (replicate 503 7) 0 \<in> set actions \<and> \<not> block_there (data_of example_client_events) 1)"
proof -
  obtain pc actions where run: "run_proxy_client rfc9000_varint (\<lambda>_. True) 3 () (ProxyClient_new 0)
      example_client_events = (Some pc, actions)" and "cp_pending_requests (pc_proxy_state pc) = [1]"
    using example_client_run by blast
  with block_requests_are_answered [OF _ run, of 0] show ?thesis
    using example_there by (auto simp: example_requests example_data)
qed

theorem proxy_client_transparent_witness:
  "\<exists>pc actions. run_proxy_client rfc9000_varint (\<lambda>_. True) 3 () (ProxyClient_new 0) example_client_events
      = (Some pc, actions)
    \<and> filter is_datagram actions = [SendDatagram (Datagram_encode rfc9000_varint (Datagram_new 3 []) [])]
    \<and> subseq [SendTo [2] ()] actions"
proof -
  obtain pc actions where run: "run_proxy_client rfc9000_varint (\<lambda>_. True) 3 () (ProxyClient_new 0)
      example_client_events = (Some pc, actions)"
    using example_client_run by blast
  have "forwarded example_client_events = [[]]" "from_server example_client_events = [[2]]"
    by (simp_all add: example_client_events_def request_of_request example_request_of_Nil)
  with proxy_client_transparent [OF _ run] run show ?thesis by auto
qed

end
