(* ===== verification/Client_Transfer.thy ===== *)
theory Client_Transfer
  imports Client_Proxy
begin

text \<open>
  The task \<open>transfer_world_data\<close> of \<open>src/src/proxy/client_proxy.rs\<close> over whole runs. Between
  its steps other tasks may change the shared cache in any way that keeps its entries filed
  under their hashes, and the bytes that arrive on the stream are arbitrary.
\<close>

section \<open>Runs\<close>

text \<open>
  \<open>U\<close> bounds the chunks in play: all that enter the local cache of the task. BLAKE3 is later
  assumed to have no collision among these and the chunks of the world.
\<close>

inductive transfer_step :: "('m, 'io) ClientEnv \<Rightarrow> bytes set \<Rightarrow> 'io Transfer \<Rightarrow> 'io Transfer \<Rightarrow> bool"
  for env U where
  transfer_runs: "tr_phase t = Running \<Longrightarrow> store_valid (env_libs env) (look (env_lhm env) cache) \<Longrightarrow>
     transfer_run env t cache = (t', cache') \<Longrightarrow> ran (tr_local_cache t') \<subseteq> U \<Longrightarrow> transfer_step env U t t'"
| transfer_responds: "tr_phase t = AwaitResponse batch \<Longrightarrow>
     transfer_response env t batch recv_stream cache = (t', recv_stream', cache') \<Longrightarrow>
     ran (tr_local_cache t') \<subseteq> U \<Longrightarrow> transfer_step env U t t'"
| transfer_resumes: "tr_phase t = AwaitEvents ps \<Longrightarrow> store_valid (env_libs env) (look (env_lhm env) cache) \<Longrightarrow>
     transfer_resume env t ps cache = t' \<Longrightarrow> ran (tr_local_cache t') \<subseteq> U \<Longrightarrow> transfer_step env U t t'"

text \<open>The keys a phase awaits.\<close>

fun awaited :: "TransferPhase \<Rightarrow> ChunkKey set" where
  "awaited Running = {}"
| "awaited (AwaitResponse batch) = set (br_batch_keys batch)"
| "awaited (AwaitEvents ps) = fst ` set ps"
| "awaited (Returned r) = {}"

fun returned :: "TransferPhase \<Rightarrow> bool" where
  "returned (Returned r) = True"
| "returned _ = False"

section \<open>Checked chunks\<close>

lemma check_chunks_eq:
  "check_chunks libs kvs m =
     (if \<forall>(k, c) \<in> set kvs. k = chunk_key libs c then Inr (m ++ map_of (rev kvs))
      else Inl (Error ''Chunk hash mismatch''))"
proof (induction kvs arbitrary: m)
  case (Cons kv kvs)
  then show ?case by (cases kv) (auto simp: chunk_key_def map_add_assoc [symmetric])
qed simp

lemma store_valid_add_checked:
  assumes "store_valid libs m" and "\<forall>(k, c) \<in> set kvs. k = chunk_key libs c"
  shows "store_valid libs (m ++ map_of (rev kvs))"
  using assms by (auto simp: store_valid_def map_add_Some_iff dest!: map_of_SomeD)

lemma reconstruct_none_iff:
  "reconstruct_world_file crc libs r d m = Inr None \<longleftrightarrow> \<not> set (fd_content_chunks d) \<subseteq> dom m"
  by (auto simp: reconstruct_world_file_def gather_chunks_eq Let_def split: sum.splits)

lemma reconstruct_loop_cases:
  assumes "reconstruct_loop env m r (d # files) sent = Inr (files', r', sent')"
  obtains (stops) "\<not> set (fd_content_chunks d) \<subseteq> dom m" and "files' = d # files" and "r' = r" and "sent' = sent"
  | (rebuilds) hdr data r1 where
      "reconstruct_world_file (env_crc env) (env_libs env) r d m = Inr (Some ((hdr, data), r1))"
      and "reconstruct_loop env m r1 files (sent @ [hdr, data]) = Inr (files', r', sent')"
proof (cases "reconstruct_world_file (env_crc env) (env_libs env) r d m")
  case (Inr result)
  show ?thesis
  proof (cases result)
    case None
    with Inr have "\<not> set (fd_content_chunks d) \<subseteq> dom m" by (simp add: reconstruct_none_iff)
    with None Inr assms stops show ?thesis by simp
  next
    case (Some x)
    obtain hdr data r1 where "x = ((hdr, data), r1)" by (metis prod.exhaust)
    with Some Inr assms rebuilds show ?thesis by (simp split: if_splits)
  qed
qed (use assms in simp)

lemma reconstruct_loop_stops:
  "reconstruct_loop env m r files sent = Inr (files', r', sent') \<Longrightarrow>
     set files' \<subseteq> set files \<and> (files' = [] \<or> \<not> set (fd_content_chunks (hd files')) \<subseteq> dom m)"
proof (induction files arbitrary: r sent)
  case (Cons d files)
  from Cons.prems show ?case by (cases rule: reconstruct_loop_cases) (auto dest: Cons.IH)
qed simp

lemma reconstruct_loop_rebuilds:
  assumes crc: "crc_crate (env_crc env) poly" and valid: "store_valid (env_libs env) m"
  shows "list_all2 (describes (env_libs env)) fs files \<Longrightarrow>
    inj_on (blake3_hash (env_libs env)) (set (concat (map (file_chunks (env_libs env)) fs)) \<union> ran m) \<Longrightarrow>
    wr_inv (env_crc env) r (concat sent) before \<Longrightarrow>
    reconstruct_loop env m r files sent = Inr (files', r', sent') \<Longrightarrow>
    \<exists>fs1 fs2. fs = fs1 @ fs2 \<and> list_all2 (describes (env_libs env)) fs2 files'
      \<and> wr_inv (env_crc env) r' (concat sent') (before @ map (recoded (env_libs env)) fs1)"
proof (induction fs files arbitrary: r sent before rule: list_all2_induct)
  case (Cons f fs d files)
  note desc = list_all2_Cons [THEN iffD2, OF conjI [OF Cons.hyps]]
  from Cons.prems(1) have inj: "inj_on (blake3_hash (env_libs env)) (set (file_chunks (env_libs env) f) \<union> ran m)"
    "inj_on (blake3_hash (env_libs env)) (set (concat (map (file_chunks (env_libs env)) fs)) \<union> ran m)"
    by (auto elim!: inj_on_subset)
  from Cons.prems(3) show ?case
  proof (cases rule: reconstruct_loop_cases)
    case stops
    with desc Cons.prems(2) show ?thesis by (intro exI [of _ "[]"] exI [of _ "f # fs"]) simp
  next
    case (rebuilds hdr data r1)
    then have "set (fd_content_chunks d) \<subseteq> dom m" using reconstruct_none_iff by (metis option.distinct(1) sum.inject(2))
    from gather_described [OF Cons.hyps(1) valid inj(1) this] obtain ff where
      ff: "decode_factorio_file (env_libs env) (fst f) (snd f) = Inr ff"
      "gather_chunks (fd_content_chunks d) m [] = Some (ff_data ff)"
      "fd_file_type d = ff_file_type ff" "fd_file_name d = fst f" by blast
    note w = crc_crate.wr_inv_reconstruct [OF crc Cons.prems(2) rebuilds(1)]
    then have "wr_inv (env_crc env) r1 (concat (sent @ [hdr, data])) (before @ [recoded (env_libs env) f])"
      using ff by (auto simp: recoded_def)
    from Cons.IH [OF inj(2) this rebuilds(2)] obtain fs1 fs2 where
      "fs = fs1 @ fs2" "list_all2 (describes (env_libs env)) fs2 files'"
      "wr_inv (env_crc env) r' (concat sent') (before @ map (recoded (env_libs env)) (f # fs1))" by auto
    then show ?thesis by (intro exI [of _ "f # fs1"] exI [of _ fs2]) simp
  qed
qed auto

section \<open>One step\<close>

text \<open>How a run from \<open>Running\<close> ends.\<close>

lemma transfer_run_cases:
  assumes "transfer_run env t cache = (t', cache')"
  obtains (fails) e where "tr_phase t' = Returned (Inl e)"
  | (completes) r sent last where
      "reconstruct_loop env (tr_local_cache t) (tr_reconstructor t) (tr_files t) (tr_world_data t) = Inr ([], r, sent)"
      and "finalize_world_file (env_crc env) r (wm_world (tr_world_ready t))
        (unat (world_size (wm_new_info (tr_world_ready t)))) (world_crc (wm_new_info (tr_world_ready t))) = Inr last"
      and "tr_phase t' = Returned (Inr ())" and "tr_world_data t' = sent @ [last]"
  | (continues) files r sent step keys local cache1 where
      "reconstruct_loop env (tr_local_cache t) (tr_reconstructor t) (tr_files t) (tr_world_data t) = Inr (files, r, sent)"
      and "tr_all_chunks t \<noteq> []"
      and "get_chunks_batched (env_lhm env) cache (tr_all_chunks t) (tr_local_cache t) 512 = (step, keys, local, cache1)"
      and "tr_world_ready t' = tr_world_ready t" and "tr_files t' = files" and "tr_reconstructor t' = r"
      and "tr_world_data t' = sent" and "tr_all_chunks t' = keys" and "tr_local_cache t' = local"
      and "tr_phase t' = (case step of Finished \<Rightarrow> Running | Waiting ps \<Rightarrow> AwaitEvents ps | Batch batch \<Rightarrow> AwaitResponse batch)"
proof (cases "reconstruct_loop env (tr_local_cache t) (tr_reconstructor t) (tr_files t) (tr_world_data t)")
  case (Inl e)
  with assms fails show ?thesis by (auto simp: transfer_run_def)
next
  case (Inr result)
  obtain files r sent where result: "result = (files, r, sent)" by (cases result)
  show ?thesis
  proof (cases files)
    case Nil
    with Inr result assms fails completes show ?thesis
      by (auto simp: transfer_run_def Let_def split: sum.splits if_splits)
  next
    case (Cons d ds)
    obtain step keys local cache1 where batched: "get_chunks_batched (env_lhm env) cache (tr_all_chunks t)
        (tr_local_cache t) 512 = (step, keys, local, cache1)" by (metis prod_cases4)
    note run = assms [unfolded transfer_run_def Inr result Cons sum.case prod.case list.case batched Let_def]
    show ?thesis
    proof (cases "tr_all_chunks t = []")
      case True
      with run fails show ?thesis by auto
    next
      case False
      then consider "\<exists>e. tr_phase t' = Returned (Inl e)"
        | "tr_world_ready t' = tr_world_ready t \<and> tr_files t' = files \<and> tr_reconstructor t' = r
          \<and> tr_world_data t' = sent \<and> tr_all_chunks t' = keys \<and> tr_local_cache t' = local
          \<and> tr_phase t' = (case step of Finished \<Rightarrow> Running | Waiting ps \<Rightarrow> AwaitEvents ps | Batch batch \<Rightarrow> AwaitResponse batch)"
        using run batched by (cases step) (auto simp: Cons split: sum.splits)
      then show ?thesis
      proof cases
        case 1
        with fails show ?thesis by blast
      next
        case 2
        with continues [OF Inr [unfolded result] False batched] show ?thesis by blast
      qed
    qed
  qed
qed

lemma transfer_response_cases:
  assumes "transfer_response env t batch recv_stream cache = (t', recv_stream', cache')"
  obtains (fails) e where "tr_phase t' = Returned (Inl e)"
  | (accepts) chunks where "length chunks = length (br_batch_keys batch)"
      and "\<forall>(k, c) \<in> set (zip (br_batch_keys batch) chunks). k = chunk_key (env_libs env) c"
      and "t' = t\<lparr>tr_local_cache := tr_local_cache t ++ map_of (rev (zip (br_batch_keys batch) chunks)),
             tr_phase := Running\<rparr>"
  using assms
  by (auto simp: transfer_response_def check_chunks_eq fulfill_def
      split: sum.splits prod.splits if_splits)

lemma transfer_resume_cases:
  assumes "transfer_resume env t ps cache = t'"
  obtains (fails) e where "tr_phase t' = Returned (Inl e)"
  | (collects) "fst ` set ps \<subseteq> dom (look (env_lhm env) cache)"
      and "t' = t\<lparr>tr_local_cache := (\<lambda>k. if k \<in> fst ` set ps then look (env_lhm env) cache k else tr_local_cache t k),
             tr_phase := Running\<rparr>"
proof (cases "fst ` set ps \<subseteq> dom (look (env_lhm env) cache)")
  case True
  then have "\<forall>k \<in> fst ` set ps. look (env_lhm env) cache k \<noteq> None" by blast
  with assms collects [OF True] show ?thesis by (simp add: transfer_resume_def collect_waited_eq)
next
  case False
  then have "\<not> (\<forall>k \<in> fst ` set ps. look (env_lhm env) cache k \<noteq> None)" by blast
  then have "collect_waited (env_lhm env) cache ps (tr_local_cache t)
      = Inl (Panic ''waited on chunk, but chunk was not put in cache'')"
    unfolding collect_waited_eq by (rule if_not_P)
  with assms fails show ?thesis by (auto simp: transfer_resume_def)
qed

lemma dom_if_in: "K \<subseteq> dom f \<Longrightarrow> dom (\<lambda>k. if k \<in> K then f k else g k) = dom g \<union> K"
  by (auto split: if_splits)

section \<open>Supply\<close>

text \<open>Every chunk of a file still to rebuild is at hand, awaited, or on the list to fetch.\<close>

definition supply_ok :: "'io Transfer \<Rightarrow> bool" where
  "supply_ok t \<longleftrightarrow> returned (tr_phase t)
     \<or> set (concat (map fd_content_chunks (tr_files t)))
        \<subseteq> set (tr_all_chunks t) \<union> dom (tr_local_cache t) \<union> awaited (tr_phase t)"

lemma batched_supply:
  assumes "get_chunks_batched lhm inner keys out 512 = (step, keys', out', inner')"
  shows "set keys \<union> dom out \<subseteq> set keys' \<union> dom out' \<union> awaited (case step of
      Finished \<Rightarrow> Running | Waiting ps \<Rightarrow> AwaitEvents ps | Batch batch \<Rightarrow> AwaitResponse batch)"
proof -
  note cases = get_chunks_batched_cases [OF assms]
  then have out': "out' = (\<lambda>k. if k \<in> set keys \<and> look lhm inner k \<noteq> None then look lhm inner k else out k)"
    by simp
  have "k \<in> dom out'" if "k \<in> dom out \<or> k \<in> set keys \<and> look lhm inner k \<noteq> None" for k
    using that by (auto simp: out')
  moreover have "k \<in> set keys' \<union> awaited (case step of
      Finished \<Rightarrow> Running | Waiting ps \<Rightarrow> AwaitEvents ps | Batch batch \<Rightarrow> AwaitResponse batch)"
    if "k \<in> set keys" and "look lhm inner k = None" for k
    using that cases by (cases step) auto
  ultimately show ?thesis by blast
qed

lemma supply_ok_step:
  assumes "transfer_step env U t t'" and ok: "supply_ok t"
  shows "supply_ok t'"
  using assms(1)
proof cases
  case (transfer_runs cache cache')
  from transfer_runs(3) show ?thesis
  proof (cases rule: transfer_run_cases)
    case (continues files r sent step keys local cache1)
    have "set (concat (map fd_content_chunks files)) \<subseteq> set (concat (map fd_content_chunks (tr_files t)))"
      using reconstruct_loop_stops [OF continues(1)] by auto
    also have "\<dots> \<subseteq> set (tr_all_chunks t) \<union> dom (tr_local_cache t)"
      using ok transfer_runs(1) by (simp add: supply_ok_def)
    also note batched_supply [OF continues(3)]
    finally show ?thesis by (simp add: supply_ok_def continues)
  qed (simp_all add: supply_ok_def)
next
  case (transfer_responds batch recv_stream cache recv_stream' cache')
  from transfer_responds(2) show ?thesis
  proof (cases rule: transfer_response_cases)
    case (accepts chunks)
    have "fst ` set (zip (br_batch_keys batch) chunks) = set (br_batch_keys batch)"
      using accepts(1) by (metis list.set_map map_fst_zip)
    then show ?thesis using ok by (auto simp: supply_ok_def accepts transfer_responds(1) dom_map_of_conv_image_fst)
  qed (simp add: supply_ok_def)
next
  case (transfer_resumes ps cache)
  from transfer_resumes(3) show ?thesis
  proof (cases rule: transfer_resume_cases)
    case collects
    have "dom (tr_local_cache t') = dom (tr_local_cache t) \<union> fst ` set ps"
      using dom_if_in [OF collects(1)] by (simp add: collects(2))
    then show ?thesis using ok by (auto simp: supply_ok_def collects(2) transfer_resumes(1))
  qed (simp add: supply_ok_def)
qed

lemma transfer_begin_start:
  assumes "transfer_begin env send_stream recv_stream = Inr (Some (t, rest))"
  shows "tr_phase t = Running \<and> tr_files t = wd_files (wm_world (tr_world_ready t))
     \<and> tr_all_chunks t = concat (map fd_content_chunks (tr_files t)) \<and> tr_local_cache t = Map.empty
     \<and> tr_reconstructor t = WorldReconstructor_new (env_crc env) \<and> tr_world_data t = []"
  using assms by (auto simp: transfer_begin_def split: sum.splits prod.splits if_splits)

lemma supply_ok_steps:
  assumes "transfer_begin env send_stream recv_stream = Inr (Some (t0, rest))"
    and "(transfer_step env U)\<^sup>*\<^sup>* t0 t"
  shows "supply_ok t"
  using assms(2)
proof (induction rule: rtranclp_induct)
  case base
  show ?case using transfer_begin_start [OF assms(1)] by (auto simp: supply_ok_def)
qed (rule supply_ok_step)

lemma supply_left:
  assumes "supply_ok t" and "tr_phase t = Running"
    and loop: "reconstruct_loop env (tr_local_cache t) (tr_reconstructor t) (tr_files t) (tr_world_data t)
      = Inr (d # files, r, sent)"
  shows "set (concat (map fd_content_chunks (d # files))) - dom (tr_local_cache t) \<subseteq> set (tr_all_chunks t)
     \<and> tr_all_chunks t \<noteq> []"
proof -
  have "set (concat (map fd_content_chunks (tr_files t))) - dom (tr_local_cache t) \<subseteq> set (tr_all_chunks t)"
    using assms(1,2) by (auto simp: supply_ok_def)
  moreover note stop = reconstruct_loop_stops [OF loop]
  then have "set (concat (map fd_content_chunks (d # files))) \<subseteq> set (concat (map fd_content_chunks (tr_files t)))"
    unfolding set_concat set_map by blast
  ultimately have "set (concat (map fd_content_chunks (d # files))) - dom (tr_local_cache t) \<subseteq> set (tr_all_chunks t)"
    by blast
  moreover from stop have "set (concat (map fd_content_chunks (d # files))) - dom (tr_local_cache t) \<noteq> {}" by auto
  ultimately show ?thesis by auto
qed

section \<open>Termination\<close>

definition transfer_measure :: "'io Transfer \<Rightarrow> nat" where
  "transfer_measure t =
     (case tr_phase t of
        Returned _ \<Rightarrow> 0
      | Running \<Rightarrow> 2 * length (tr_all_chunks t) + 1
      | _ \<Rightarrow> 2 * length (tr_all_chunks t) + 2)"

lemma batched_shorter:
  assumes "get_chunks_batched lhm inner keys out 512 = (step, keys', out', inner')" and "keys \<noteq> []"
  shows "length keys' < length keys"
  using get_chunks_batched_cases [OF assms(1)] assms(2) by (cases step) auto

lemma transfer_measure_step:
  assumes "transfer_step env U t t'"
  shows "transfer_measure t' < transfer_measure t"
  using assms
proof cases
  case (transfer_runs cache cache')
  from transfer_runs(3) show ?thesis
  proof (cases rule: transfer_run_cases)
    case (continues files r sent step keys local cache1)
    then show ?thesis using transfer_runs(1) batched_shorter [OF continues(3,2)]
      by (cases step) (simp_all add: transfer_measure_def)
  qed (simp_all add: transfer_measure_def transfer_runs(1))
next
  case (transfer_responds batch recv_stream cache recv_stream' cache')
  from transfer_responds(2) show ?thesis
    by (cases rule: transfer_response_cases) (simp_all add: transfer_measure_def transfer_responds(1))
next
  case (transfer_resumes ps cache)
  from transfer_resumes(3) show ?thesis
    by (cases rule: transfer_resume_cases) (simp_all add: transfer_measure_def transfer_resumes(1))
qed

lemma transfer_measure_steps: "(transfer_step env U ^^ k) t t' \<Longrightarrow> transfer_measure t' + k \<le> transfer_measure t"
proof (induction k arbitrary: t')
  case (Suc k)
  then obtain t1 where "(transfer_step env U ^^ k) t t1" and "transfer_step env U t1 t'" by auto
  with Suc.IH [OF this(1)] transfer_measure_step [OF this(2)] show ?case by simp
qed simp

section \<open>Content\<close>

text \<open>
  The data sent so far holds the files rebuilt so far: \<open>fs\<close> are the files of the archive the
  server described in \<open>wm\<close>.
\<close>

definition content_ok ::
    "('m, 'io) ClientEnv \<Rightarrow> WorldReadyMessage \<Rightarrow> (bytes \<times> bytes) list \<Rightarrow> 'io Transfer \<Rightarrow> bool" where
  "content_ok env wm fs t \<longleftrightarrow>
     tr_world_ready t = wm \<and> store_valid (env_libs env) (tr_local_cache t)
     \<and> (\<exists>fs1 fs2. fs = fs1 @ fs2 \<and> list_all2 (describes (env_libs env)) fs2 (tr_files t)
          \<and> wr_inv (env_crc env) (tr_reconstructor t) (concat (tr_world_data t)) (map (recoded (env_libs env)) fs1))"

text \<open>What the task has sent when it returns without an error.\<close>

definition world_sent ::
    "('m, 'io) ClientEnv \<Rightarrow> WorldReadyMessage \<Rightarrow> (bytes \<times> bytes) list \<Rightarrow> bytes \<Rightarrow> bool" where
  "world_sent env wm fs stream \<longleftrightarrow>
     (let size = unat (world_size (wm_new_info wm)); aux = wd_aux_data (wm_world wm)
      in length stream = aligned_length size + aligned_length (length aux)
         \<and> zip_read (env_crc env) (take size stream) = Some (map (recoded (env_libs env)) fs)
         \<and> take (length aux) (drop (aligned_length size) stream) = aux
         \<and> crc_checksum (env_crc env) (take size stream @ aux) = world_crc (wm_new_info wm))"

text \<open>The sizes for which the last step can be trusted.\<close>

definition sizes_ok :: "WorldReadyMessage \<Rightarrow> (bytes \<times> bytes) list \<Rightarrow> bool" where
  "sizes_ok wm fs \<longleftrightarrow> length fs < 2 ^ 16 \<and> unat (world_size (wm_new_info wm)) + 502 < 2 ^ 32
     \<and> length (wd_aux_data (wm_world wm)) + 502 < 2 ^ 32"

definition transfer_ok ::
    "('m, 'io) ClientEnv \<Rightarrow> WorldReadyMessage \<Rightarrow> (bytes \<times> bytes) list \<Rightarrow> 'io Transfer \<Rightarrow> bool" where
  "transfer_ok env wm fs t \<longleftrightarrow>
     (case tr_phase t of
        Returned (Inl e) \<Rightarrow> True
      | Returned (Inr _) \<Rightarrow> world_sent env wm fs (concat (tr_world_data t))
      | _ \<Rightarrow> content_ok env wm fs t)"

lemma finalize_fits:
  assumes "wr_inv crc r out files" and "finalize_world_file crc r desc target target_crc = Inr final"
  shows "length out + central_directory_size (wr_zip_writer r) + 4 \<le> target"
proof (rule ccontr)
  have "current_size (wr_zip_writer r) = length out"
    using assms(1) by (simp add: wr_inv_def zip_inv_def current_size_def)
  moreover assume "\<not> length out + central_directory_size (wr_zip_writer r) + 4 \<le> target"
  ultimately show False using assms(2) by (simp add: finalize_world_file_def Let_def)
qed

lemma store_valid_if:
  "store_valid libs f \<Longrightarrow> store_valid libs g \<Longrightarrow> store_valid libs (\<lambda>k. if P k then f k else g k)"
  by (auto simp: store_valid_def)

lemma content_run:
  assumes crc: "crc_crate (env_crc env) poly" and ok: "content_ok env wm fs t"
    and inj: "inj_on (blake3_hash (env_libs env)) (set (concat (map (file_chunks (env_libs env)) fs)) \<union> U)"
    and U: "ran (tr_local_cache t) \<subseteq> U"
    and loop: "reconstruct_loop env (tr_local_cache t) (tr_reconstructor t) (tr_files t) (tr_world_data t)
      = Inr (files, r, sent)"
  shows "\<exists>fs1 fs2. fs = fs1 @ fs2 \<and> list_all2 (describes (env_libs env)) fs2 files
     \<and> wr_inv (env_crc env) r (concat sent) (map (recoded (env_libs env)) fs1)"
proof -
  from ok obtain fs1 fs2 where fs: "fs = fs1 @ fs2" "list_all2 (describes (env_libs env)) fs2 (tr_files t)"
    "wr_inv (env_crc env) (tr_reconstructor t) (concat (tr_world_data t)) (map (recoded (env_libs env)) fs1)"
    and valid: "store_valid (env_libs env) (tr_local_cache t)" by (auto simp: content_ok_def)
  have "inj_on (blake3_hash (env_libs env))
      (set (concat (map (file_chunks (env_libs env)) fs2)) \<union> ran (tr_local_cache t))"
    using inj by (rule inj_on_subset) (use U in \<open>auto simp: fs(1)\<close>)
  from reconstruct_loop_rebuilds [OF crc valid fs(2) this fs(3) loop] obtain gs1 gs2 where
    "fs2 = gs1 @ gs2" "list_all2 (describes (env_libs env)) gs2 files"
    "wr_inv (env_crc env) r (concat sent) (map (recoded (env_libs env)) (fs1 @ gs1))" by auto
  then show ?thesis by (intro exI [of _ "fs1 @ gs1"] exI [of _ gs2]) (simp add: fs(1))
qed

lemma transfer_ok_step:
  assumes crc: "crc_crate (env_crc env) poly" and sizes: "sizes_ok wm fs"
    and inj: "inj_on (blake3_hash (env_libs env)) (set (concat (map (file_chunks (env_libs env)) fs)) \<union> U)"
    and step: "transfer_step env U t t'" and U: "ran (tr_local_cache t) \<subseteq> U" and ok: "transfer_ok env wm fs t"
  shows "transfer_ok env wm fs t'"
  using step
proof cases
  case (transfer_runs cache cache')
  then have c: "content_ok env wm fs t" using ok by (simp add: transfer_ok_def)
  then have wm: "tr_world_ready t = wm" by (simp add: content_ok_def)
  from transfer_runs(3) show ?thesis
  proof (cases rule: transfer_run_cases)
    case (fails e)
    then show ?thesis by (simp add: transfer_ok_def)
  next
    case (completes r sent final)
    from content_run [OF crc c inj U completes(1)]
    have inv: "wr_inv (env_crc env) r (concat sent) (map (recoded (env_libs env)) fs)" by auto
    note fits = finalize_fits [OF inv completes(2)]
    from finalized_stream [OF crc inv _ _ _ fits, of "wm_world wm" "world_crc (wm_new_info wm)"]
      completes(2) sizes wm
    have "world_sent env wm fs (concat sent @ final)"
      by (simp add: sizes_ok_def world_sent_def Let_def)
    then show ?thesis by (simp add: transfer_ok_def completes)
  next
    case (continues files r sent step keys local cache1)
    have "local = (\<lambda>k. if k \<in> set (tr_all_chunks t) \<and> look (env_lhm env) cache k \<noteq> None
        then look (env_lhm env) cache k else tr_local_cache t k)"
      using get_chunks_batched_cases [OF continues(3)] by simp
    then have "store_valid (env_libs env) local"
      using c transfer_runs(2) by (simp only: store_valid_if content_ok_def)
    then have "content_ok env wm fs t'"
      using content_run [OF crc c inj U continues(1)] by (simp add: content_ok_def continues wm)
    then show ?thesis by (cases step) (simp_all add: transfer_ok_def continues(10))
  qed
next
  case (transfer_responds batch recv_stream cache recv_stream' cache')
  from transfer_responds(2) show ?thesis
  proof (cases rule: transfer_response_cases)
    case (accepts chunks)
    then show ?thesis using ok transfer_responds(1) store_valid_add_checked
      by (simp add: transfer_ok_def content_ok_def)
  qed (simp add: transfer_ok_def)
next
  case (transfer_resumes ps cache)
  from transfer_resumes(3) show ?thesis
  proof (cases rule: transfer_resume_cases)
    case collects
    then show ?thesis using ok transfer_resumes(1,2)
      by (simp add: transfer_ok_def content_ok_def store_valid_if)
  qed (simp add: transfer_ok_def)
qed

lemma transfer_step_bound: "transfer_step env U t t' \<Longrightarrow> ran (tr_local_cache t') \<subseteq> U"
  by (induction rule: transfer_step.induct)

lemma transfer_ok_steps:
  assumes crc: "crc_crate (env_crc env) poly" and sizes: "sizes_ok wm fs"
    and inj: "inj_on (blake3_hash (env_libs env)) (set (concat (map (file_chunks (env_libs env)) fs)) \<union> U)"
    and start: "transfer_begin env send_stream recv_stream = Inr (Some (t0, rest))" "tr_world_ready t0 = wm"
    and desc: "list_all2 (describes (env_libs env)) fs (wd_files (wm_world wm))"
    and steps: "(transfer_step env U)\<^sup>*\<^sup>* t0 t"
  shows "transfer_ok env wm fs t \<and> ran (tr_local_cache t) \<subseteq> U"
  using steps
proof (induction rule: rtranclp_induct)
  case base
  show ?case
    using transfer_begin_start [OF start(1)] start(2) desc crc_crate.wr_inv_new [OF crc]
    by (simp add: transfer_ok_def content_ok_def) (intro exI [of _ "[]"] exI [of _ fs], simp)
next
  case (step t t')
  then show ?case using transfer_ok_step [OF crc sizes inj] transfer_step_bound by blast
qed

section \<open>Properties\<close>

text \<open>
  C4. The client hands over the right world or none. The server may send any bytes after its
  announcement and other tasks may change the cache between the steps, as long as its entries
  are filed under their hashes; BLAKE3 has no collision among the chunks of the world and
  those that reach the task. When the announced description is the one of a world archive and
  the task returns without an error, the data it has sent is the announced world: an
  archive of the announced size with the files of the world in order, then the auxiliary
  data, with the announced CRC.
\<close>

theorem transfer_delivers_world:
  assumes "crc_crate (env_crc env) poly"
    and "deconstruct_world (env_libs env) world aux = Inr (wm_world wm, store)"
    and "zip_archive (env_libs env) world = Inr (map (\<lambda>(n, c). Inr (n, Inr c)) fs)"
    and "sizes_ok wm fs"
    and "inj_on (blake3_hash (env_libs env)) (set (concat (map (file_chunks (env_libs env)) fs)) \<union> U)"
    and "transfer_begin env send_stream recv_stream = Inr (Some (t0, rest))" and "tr_world_ready t0 = wm"
    and "(transfer_step env U)\<^sup>*\<^sup>* t0 t" and "tr_phase t = Returned (Inr ())"
  shows "world_sent env wm fs (concat (tr_world_data t))"
proof -
  have "list_all2 (describes (env_libs env)) fs (wd_files (wm_world wm))"
    using deconstruct_world_spec [OF assms(2)] assms(3) by (auto simp: members_inject)
  from transfer_ok_steps [OF assms(1,4,5,6,7) this assms(8)] assms(9) show ?thesis
    by (simp add: transfer_ok_def)
qed

text \<open>
  C11. The panic over an empty chunk list is out of reach, whatever the server announces and
  sends and whatever the cache does: whenever the reconstructor asks for more data, every
  chunk that is missing for the files left is still on the list of chunks to fetch, and the
  list is not empty.
\<close>

theorem transfer_never_runs_dry:
  assumes "transfer_begin env send_stream recv_stream = Inr (Some (t0, rest))"
    and "(transfer_step env U)\<^sup>*\<^sup>* t0 t" and "tr_phase t = Running"
    and "reconstruct_loop env (tr_local_cache t) (tr_reconstructor t) (tr_files t) (tr_world_data t)
      = Inr (d # files, r, sent)"
  shows "set (concat (map fd_content_chunks (d # files))) - dom (tr_local_cache t) \<subseteq> set (tr_all_chunks t)
     \<and> tr_all_chunks t \<noteq> []"
  using supply_left [OF supply_ok_steps [OF assms(1,2)] assms(3,4)] .

text \<open>
  The transfer ends: from the announcement on, the task makes at most twice as many steps
  as the world has chunks, and one more, whatever arrives and whatever the cache holds. Every
  step but a return consumes a chunk of the list or the await of one that did.
\<close>

theorem transfer_terminates:
  assumes "transfer_begin env send_stream recv_stream = Inr (Some (t0, rest))"
    and "(transfer_step env U ^^ k) t0 t"
  shows "k \<le> 2 * length (concat (map fd_content_chunks (wd_files (wm_world (tr_world_ready t0))))) + 1"
  using transfer_measure_steps [OF assms(2)] transfer_begin_start [OF assms(1)]
  by (simp add: transfer_measure_def)

end
