(* ===== verification/World_Transfer.thy ===== *)
theory World_Transfer
  imports Client_Transfer Server_Proxy
begin

text \<open>
  Both ends of a world transfer together: the client task (\<open>transfer_world_data\<close> of
  \<open>src/src/proxy/client_proxy.rs\<close>) against the request loop of the server task
  (\<open>transfer_world_data\<close> of \<open>src/src/proxy/server_proxy.rs\<close>), over a stream that loses nothing.
\<close>

section \<open>The request loop\<close>

text \<open>A stream to which writing never fails.\<close>

definition append_all :: "bytes write_all" where
  "append_all io bs = Inr (io @ bs)"

lemma write_message_append:
  "length msg_data \<le> MESSAGE_SIZE_LIMIT \<Longrightarrow> write_message append_all io msg_data = Inr (io @ frame msg_data)"
  by (simp add: write_message_def append_all_def frame_def)

text \<open>A request and the response the server gives to it.\<close>

definition answered :: "ProxyMessages \<Rightarrow> chunk_map \<Rightarrow> bytes \<Rightarrow> bytes \<Rightarrow> bool" where
  "answered pm chunks req resp \<longleftrightarrow>
     length req \<le> MESSAGE_SIZE_LIMIT \<and> length resp \<le> MESSAGE_SIZE_LIMIT
     \<and> (\<exists>request cs. decode_message_async (request_chunks_libs pm) req = Inr request
          \<and> lookup_chunks chunks (requested_chunks request) = Inr cs
          \<and> encode_message_async (send_chunks_libs pm) \<lparr>sent_chunks = cs\<rparr> = Inr resp)"

lemma serve_frames:
  "list_all2 (answered pm chunks) reqs resps \<Longrightarrow>
     serve_requests pm append_all chunks out (concat (map frame reqs)) buf = Inr (out @ concat (map frame resps))"
proof (induction reqs resps arbitrary: out buf rule: list_all2_induct)
  case Nil
  show ?case by (subst serve_requests.simps) (simp add: read_message_short UNEXPECTED_EOF_def)
next
  case (Cons req reqs resp resps)
  from Cons.hyps(1) show ?case
    by (subst serve_requests.simps)
      (auto simp: answered_def read_message_frame write_message_append Cons.IH simp del: serve_requests.simps)
qed

lemma lookup_chunks_eq:
  "lookup_chunks chunks keys = (if set keys \<subseteq> dom chunks then Inr (map (\<lambda>k. the (chunks k)) keys)
     else Inl (Panic ''Client requested chunk that we don't have''))"
  by (induction keys) (auto split: option.splits)

section \<open>The session\<close>

text \<open>
  The client task alone with its cache and the server: what the client has written is the
  incoming stream of the server's loop; what the loop answers to it is the incoming stream of
  the client, of which it has consumed a part.
\<close>

fun session ::
    "nat \<Rightarrow> ('m, bytes) ClientEnv \<Rightarrow> chunk_map \<Rightarrow> bytes Transfer \<Rightarrow> 'm ChunkCache \<Rightarrow> nat
       \<Rightarrow> bytes Transfer \<times> 'm ChunkCache" where
  "session 0 env chunks t cache consumed = (t, cache)"
| "session (Suc n) env chunks t cache consumed =
     (case tr_phase t of
        Running \<Rightarrow> let (t, cache) = transfer_run env t cache in session n env chunks t cache consumed
      | AwaitResponse batch \<Rightarrow>
          (case serve_requests (env_messages env) append_all chunks [] (tr_send_stream t) [] of
             Inl e \<Rightarrow> (t, cache)
           | Inr answers \<Rightarrow>
               let (t, rest, cache) = transfer_response env t batch (drop consumed answers) cache
               in session n env chunks t cache (length answers - length rest))
      | _ \<Rightarrow> (t, cache))"

text \<open>
  What the session relies on: codecs that read back what they wrote and keep messages of at
  most 512 keys, or 512 chunks of at most 4096 bytes, under the size limit; streams and
  channels that do not fail; hashes of 32 bytes.
\<close>

definition key_wf :: "ChunkKey \<Rightarrow> bool" where
  "key_wf key = (case key of ChunkKey bs \<Rightarrow> length bs = 32)"

definition codecs_ok :: "ProxyMessages \<Rightarrow> bool" where
  "codecs_ok pm \<longleftrightarrow>
     message_libs_ok (request_chunks_libs pm) \<and> message_libs_ok (send_chunks_libs pm)
     \<and> (\<forall>keys. length keys \<le> 512 \<longrightarrow> list_all key_wf keys \<longrightarrow>
          (\<exists>d. encode_message_async (request_chunks_libs pm) \<lparr>requested_chunks = keys\<rparr> = Inr d
             \<and> length d \<le> MESSAGE_SIZE_LIMIT))
     \<and> (\<forall>chunks. length chunks \<le> 512 \<longrightarrow> list_all (\<lambda>c. length c \<le> 4096) chunks \<longrightarrow>
          (\<exists>d. encode_message_async (send_chunks_libs pm) \<lparr>sent_chunks = chunks\<rparr> = Inr d
             \<and> length d \<le> MESSAGE_SIZE_LIMIT))"

definition reliable :: "('m, bytes) ClientEnv \<Rightarrow> bool" where
  "reliable env \<longleftrightarrow> codecs_ok (env_messages env) \<and> env_write_all env = append_all \<and> (\<forall>d. env_send_ok env d)
     \<and> (\<forall>d. length (blake3_hash (env_libs env) d) = 32)"

definition fields_ok :: "Libs \<Rightarrow> (bytes \<times> bytes) list \<Rightarrow> bool" where
  "fields_ok libs fs \<longleftrightarrow>
     list_all (\<lambda>f. length (fst f) < 2 ^ 16 \<and> length (snd (recoded libs f)) < 2 ^ 32) fs"

section \<open>The client side never fails\<close>

lemma reconstruct_loop_succeeds:
  assumes valid: "store_valid (env_libs env) m" and send: "\<forall>d. env_send_ok env d"
  shows "list_all2 (describes (env_libs env)) fs files \<Longrightarrow> fields_ok (env_libs env) fs \<Longrightarrow>
    inj_on (blake3_hash (env_libs env)) (set (concat (map (file_chunks (env_libs env)) fs)) \<union> ran m) \<Longrightarrow>
    \<exists>result. reconstruct_loop env m r files sent = Inr result"
proof (induction fs files arbitrary: r sent rule: list_all2_induct)
  case (Cons f fs d files)
  from Cons.prems(2) have inj: "inj_on (blake3_hash (env_libs env)) (set (file_chunks (env_libs env) f) \<union> ran m)"
    "inj_on (blake3_hash (env_libs env)) (set (concat (map (file_chunks (env_libs env)) fs)) \<union> ran m)"
    by (auto elim!: inj_on_subset)
  have fields: "length (fst f) < 2 ^ 16" "length (snd (recoded (env_libs env) f)) < 2 ^ 32"
    "fields_ok (env_libs env) fs" using Cons.prems(1) by (simp_all add: fields_ok_def)
  show ?case
  proof (cases "set (fd_content_chunks d) \<subseteq> dom m")
    case True
    from reconstruct_described [OF Cons.hyps(1) valid inj(1) True fields(1,2), of "env_crc env" r]
    obtain hdr r' where "reconstruct_world_file (env_crc env) (env_libs env) r d m
        = Inr (Some ((hdr, snd (recoded (env_libs env) f)), r'))" by blast
    then show ?thesis using Cons.IH [OF fields(3) inj(2)] send by simp
  next
    case False
    then have "reconstruct_world_file (env_crc env) (env_libs env) r d m = Inr None"
      by (simp add: reconstruct_none_iff)
    then show ?thesis by simp
  qed
qed simp

text \<open>
  Between the steps of a session. \<open>store\<close> is what the server holds, \<open>U\<close> bounds the chunks in
  play.
\<close>

definition session_cache_ok :: "('m, bytes) ClientEnv \<Rightarrow> bytes set \<Rightarrow> 'm ChunkCache \<Rightarrow> bool" where
  "session_cache_ok env U cache \<longleftrightarrow>
     raw_ok (env_lhm env) (cc_raw_cache cache)
     \<and> valid_entries (env_libs env) (cached (env_lhm env) (cc_raw_cache cache))
     \<and> snd ` set (cached (env_lhm env) (cc_raw_cache cache)) \<subseteq> U
     \<and> unat (rc_max_size (cc_raw_cache cache)) + 4096 < 2 ^ 64"

definition session_ok ::
    "('m, bytes) ClientEnv \<Rightarrow> WorldReadyMessage \<Rightarrow> (bytes \<times> bytes) list \<Rightarrow> chunk_map \<Rightarrow> bytes set
       \<Rightarrow> bytes Transfer \<Rightarrow> 'm ChunkCache \<Rightarrow> nat \<Rightarrow> bool" where
  "session_ok env wm fs store U t cache consumed \<longleftrightarrow>
     content_ok env wm fs t \<and> ran (tr_local_cache t) \<subseteq> U \<and> supply_ok t
     \<and> set (tr_all_chunks t) \<subseteq> dom store \<and> session_cache_ok env U cache
     \<and> (\<exists>reqs resps. tr_send_stream t = concat (map frame reqs)
          \<and> list_all2 (answered (env_messages env) store) reqs resps
          \<and> (case tr_phase t of
               Running \<Rightarrow> cc_pending_chunks cache = Map.empty \<and> consumed = length (concat (map frame resps))
             | AwaitResponse batch \<Rightarrow>
                 dom (cc_pending_chunks cache) \<subseteq> set (br_batch_keys batch)
                 \<and> set (br_batch_keys batch) \<subseteq> dom store \<and> length (br_batch_keys batch) \<le> 512
                 \<and> (\<exists>before resp. resps = before @ [resp] \<and> consumed = length (concat (map frame before))
                      \<and> length resp \<le> MESSAGE_SIZE_LIMIT
                      \<and> encode_message_async (send_chunks_libs (env_messages env))
                          \<lparr>sent_chunks = map (\<lambda>k. the (store k)) (br_batch_keys batch)\<rparr> = Inr resp)
             | _ \<Rightarrow> False))"

text \<open>What the session promises at its end.\<close>

definition session_outcome :: "('m, bytes) ClientEnv \<Rightarrow> WorldReadyMessage \<Rightarrow> (bytes \<times> bytes) list \<Rightarrow> bytes Transfer \<Rightarrow> bool" where
  "session_outcome env wm fs t \<longleftrightarrow>
     (if zip_size (map (recoded (env_libs env)) fs) + 4 \<le> unat (world_size (wm_new_info wm))
      then tr_phase t = Returned (Inr ()) \<and> world_sent env wm fs (concat (tr_world_data t))
      else tr_phase t = Returned (Inl (Error ''Reconstructed world size won't fit inside of estimated size'')))"

definition server_holds :: "Libs \<Rightarrow> chunk_map \<Rightarrow> bytes set \<Rightarrow> bool" where
  "server_holds libs store U \<longleftrightarrow> store_valid libs store \<and> ran store \<subseteq> U \<and> (\<forall>c \<in> ran store. length c \<le> 4096)"

lemma finalize_outcome:
  assumes crc: "crc_crate crc poly" and inv: "wr_inv crc r out files"
    and count: "length files < 2 ^ 16" and size: "target + 502 < 2 ^ 32"
    and aux: "length (wd_aux_data desc) + 502 < 2 ^ 32"
  shows "if zip_size files + 4 \<le> target then \<exists>final. finalize_world_file crc r desc target target_crc = Inr final
     else finalize_world_file crc r desc target target_crc
            = Inl (Error ''Reconstructed world size won't fit inside of estimated size'')"
proof -
  have z: "zip_inv crc (wr_zip_writer r) out files" using inv by (simp add: wr_inv_def)
  note total = zip_inv_size [OF z]
  have cur: "current_size (wr_zip_writer r) = length out" using z by (simp add: zip_inv_def current_size_def)
  show ?thesis
  proof (cases "zip_size files + 4 \<le> target")
    case True
    then show ?thesis using finalized_stream [OF crc inv size aux count] total by (simp add: add.assoc) metis
  next
    case False
    then show ?thesis using total cur by (simp add: finalize_world_file_def Let_def)
  qed
qed

lemma session_cache_valid:
  assumes "linked_hash_map (env_lhm env)" and "session_cache_ok env U cache"
  shows "store_valid (env_libs env) (look (env_lhm env) cache)" and "ran (look (env_lhm env) cache) \<subseteq> U"
proof -
  have eq: "look (env_lhm env) cache = map_of (cached (env_lhm env) (cc_raw_cache cache))"
    by (rule ext) (rule linked_hash_map.raw_get [OF assms(1)])
  show "store_valid (env_libs env) (look (env_lhm env) cache)"
    using assms(2) by (simp add: eq session_cache_ok_def valid_entries_store)
  show "ran (look (env_lhm env) cache) \<subseteq> U"
    using assms(2) by (force simp: eq session_cache_ok_def ran_def dest: map_of_SomeD)
qed

lemma batched_ran:
  assumes "get_chunks_batched lhm inner keys out 512 = (step, keys', out', inner')"
    and "ran out \<subseteq> U" and "ran (look lhm inner) \<subseteq> U"
  shows "ran out' \<subseteq> U"
proof -
  have "out' = (\<lambda>k. if k \<in> set keys \<and> look lhm inner k \<noteq> None then look lhm inner k else out k)"
    using get_chunks_batched_cases [OF assms(1)] by simp
  with assms(2,3) show ?thesis by (auto simp: ran_def split: if_splits)
qed

text \<open>The client between its start and its next request.\<close>

lemma session_completes:
  assumes crc: "crc_crate (env_crc env) poly" and sizes: "sizes_ok wm fs"
    and inj: "inj_on (blake3_hash (env_libs env)) (set (concat (map (file_chunks (env_libs env)) fs)) \<union> U)"
    and rel: "reliable env" and c: "content_ok env wm fs t" and U: "ran (tr_local_cache t) \<subseteq> U"
    and valid: "store_valid (env_libs env) (look (env_lhm env) cache)" and phase: "tr_phase t = Running"
    and loop: "reconstruct_loop env (tr_local_cache t) (tr_reconstructor t) (tr_files t) (tr_world_data t)
      = Inr ([], r, sent)"
    and run: "transfer_run env t cache = (t', cache')"
  shows "session_outcome env wm fs t'"
proof -
  let ?size = "unat (world_size (wm_new_info wm))" and ?crc = "world_crc (wm_new_info wm)"
  have wm: "tr_world_ready t = wm" using c by (simp add: content_ok_def)
  have send: "env_send_ok env d" for d using rel by (simp add: reliable_def)
  from content_run [OF crc c inj U loop]
  have inv: "wr_inv (env_crc env) r (concat sent) (map (recoded (env_libs env)) fs)" by auto
  have "if zip_size (map (recoded (env_libs env)) fs) + 4 \<le> ?size
      then \<exists>final. finalize_world_file (env_crc env) r (wm_world wm) ?size ?crc = Inr final
      else finalize_world_file (env_crc env) r (wm_world wm) ?size ?crc
             = Inl (Error ''Reconstructed world size won't fit inside of estimated size'')"
    using sizes by (intro finalize_outcome [OF crc inv]) (simp_all add: sizes_ok_def)
  then consider (small) "\<not> zip_size (map (recoded (env_libs env)) fs) + 4 \<le> ?size"
      "tr_phase t' = Returned (Inl (Error ''Reconstructed world size won't fit inside of estimated size''))"
    | (fits) "zip_size (map (recoded (env_libs env)) fs) + 4 \<le> ?size" "tr_phase t' = Returned (Inr ())"
        "tr_local_cache t' = tr_local_cache t"
    using run loop wm send by (auto simp: transfer_run_def Let_def split: if_splits)
  then show ?thesis
  proof cases
    case fits
    then have "transfer_step env U t t'" using phase valid run U by (intro transfer_runs) simp_all
    from transfer_ok_step [OF crc sizes inj this U] have "transfer_ok env wm fs t'"
      using c phase by (simp add: transfer_ok_def)
    with fits show ?thesis by (simp add: session_outcome_def transfer_ok_def)
  qed (simp add: session_outcome_def)
qed

lemma session_requests:
  assumes rel: "reliable env" and phase: "tr_phase t = Running" and pend: "cc_pending_chunks cache = Map.empty"
    and nonempty: "tr_all_chunks t \<noteq> []" and wf: "\<forall>k \<in> set (tr_all_chunks t). key_wf k"
    and loop: "reconstruct_loop env (tr_local_cache t) (tr_reconstructor t) (tr_files t) (tr_world_data t)
      = Inr (d # files, r, sent)"
    and run: "transfer_run env t cache = (t', cache')"
  obtains (found) "tr_phase t' = Running" and "tr_send_stream t' = tr_send_stream t" and "cache' = cache"
      and "tr_all_chunks t' = []"
  | (requested) batch data where "tr_phase t' = AwaitResponse batch"
      and "tr_send_stream t' = tr_send_stream t @ frame data" and "length data \<le> MESSAGE_SIZE_LIMIT"
      and "encode_message_async (request_chunks_libs (env_messages env))
        \<lparr>requested_chunks = br_batch_keys batch\<rparr> = Inr data"
      and "set (br_batch_keys batch) \<subseteq> set (tr_all_chunks t)" and "set (tr_all_chunks t') \<subseteq> set (tr_all_chunks t)"
      and "length (br_batch_keys batch) \<le> 512"
      and "cc_raw_cache cache' = cc_raw_cache cache" and "dom (cc_pending_chunks cache') = set (br_batch_keys batch)"
proof -
  obtain step keys local cache1 where batched: "get_chunks_batched (env_lhm env) cache (tr_all_chunks t)
      (tr_local_cache t) 512 = (step, keys, local, cache1)" by (metis prod_cases4)
  note spec = get_chunks_batched_cases [OF batched]
  show ?thesis
  proof (cases step)
    case Finished
    with run loop nonempty batched spec show ?thesis by (intro found) (auto simp: transfer_run_def Let_def)
  next
    case (Waiting ps)
    then show ?thesis using spec pend by (cases ps) auto
  next
    case (Batch batch)
    then have small: "length (br_batch_keys batch) \<le> 512" "list_all key_wf (br_batch_keys batch)"
      using spec wf by (auto simp: list_all_iff)
    from rel have "env_write_all env = append_all" and "codecs_ok (env_messages env)"
      by (simp_all add: reliable_def)
    with small obtain data where enc: "encode_message_async (request_chunks_libs (env_messages env))
        \<lparr>requested_chunks = br_batch_keys batch\<rparr> = Inr data" and len: "length data \<le> MESSAGE_SIZE_LIMIT"
      by (auto simp: codecs_ok_def)
    have t': "tr_phase t' = AwaitResponse batch" "tr_send_stream t' = tr_send_stream t @ frame data"
      "tr_all_chunks t' = keys" "cache' = cache1"
      using run loop nonempty batched Batch enc write_message_append [OF len] \<open>env_write_all env = append_all\<close>
      by (auto simp: transfer_run_def Let_def)
    then show ?thesis using spec Batch small pend
      by (intro requested [OF t'(1,2) len enc]) (auto simp: mark_pending_eq dom_def)
  qed
qed

text \<open>The server has an answer to a request for chunks it holds.\<close>

lemma request_answered:
  assumes codecs: "codecs_ok pm" and srv: "server_holds libs store U" and sub: "set keys \<subseteq> dom store"
    and len: "length keys \<le> 512" and data: "length data \<le> MESSAGE_SIZE_LIMIT"
      "encode_message_async (request_chunks_libs pm) \<lparr>requested_chunks = keys\<rparr> = Inr data"
  shows "\<exists>resp. encode_message_async (send_chunks_libs pm) \<lparr>sent_chunks = map (\<lambda>k. the (store k)) keys\<rparr> = Inr resp
     \<and> length resp \<le> MESSAGE_SIZE_LIMIT \<and> answered pm store data resp"
proof -
  have "list_all (\<lambda>c. length c \<le> 4096) (map (\<lambda>k. the (store k)) keys)"
    using sub srv by (force simp: server_holds_def list_all_iff ran_def)
  with codecs len obtain resp where resp: "encode_message_async (send_chunks_libs pm)
      \<lparr>sent_chunks = map (\<lambda>k. the (store k)) keys\<rparr> = Inr resp" "length resp \<le> MESSAGE_SIZE_LIMIT"
    unfolding codecs_ok_def by (metis length_map)
  moreover have "answered pm store data resp"
    using data resp sub codecs decode_encode_message_async
    by (force simp: answered_def lookup_chunks_eq codecs_ok_def)
  ultimately show ?thesis by blast
qed

text \<open>In a session the loop over the files does not fail.\<close>

lemma session_loop:
  assumes rel: "reliable env" and fields: "fields_ok (env_libs env) fs" and c: "content_ok env wm fs t"
    and inj: "inj_on (blake3_hash (env_libs env)) (set (concat (map (file_chunks (env_libs env)) fs)) \<union> U)"
    and U: "ran (tr_local_cache t) \<subseteq> U"
  obtains files r sent where "reconstruct_loop env (tr_local_cache t) (tr_reconstructor t)
      (tr_files t) (tr_world_data t) = Inr (files, r, sent)"
proof -
  have send: "\<forall>d. env_send_ok env d" using rel by (simp add: reliable_def)
  from c obtain fs1 fs2 where fs: "fs = fs1 @ fs2" "list_all2 (describes (env_libs env)) fs2 (tr_files t)"
    "store_valid (env_libs env) (tr_local_cache t)" by (auto simp: content_ok_def)
  have "inj_on (blake3_hash (env_libs env))
      (set (concat (map (file_chunks (env_libs env)) fs2)) \<union> ran (tr_local_cache t))"
    using inj by (rule inj_on_subset) (use U in \<open>auto simp: fs(1)\<close>)
  moreover have "fields_ok (env_libs env) fs2" using fields by (simp add: fields_ok_def fs(1))
  ultimately show ?thesis using that reconstruct_loop_succeeds [OF fs(3) send fs(2)] by (metis prod_cases3)
qed

lemma store_keys_wf:
  assumes "reliable env" and "server_holds (env_libs env) store U" and "set keys \<subseteq> dom store"
  shows "\<forall>k \<in> set keys. key_wf k"
proof
  fix k assume "k \<in> set keys"
  then obtain d where "store k = Some d" using assms(3) by blast
  then have "k = chunk_key (env_libs env) d" using assms(2) by (simp add: server_holds_def store_valid_def)
  then show "key_wf k" using assms(1) by (simp add: reliable_def key_wf_def chunk_key_def)
qed

lemma session_run_ok:
  assumes lhm: "linked_hash_map (env_lhm env)" and crc: "crc_crate (env_crc env) poly"
    and sizes: "sizes_ok wm fs" and fields: "fields_ok (env_libs env) fs" and rel: "reliable env"
    and inj: "inj_on (blake3_hash (env_libs env)) (set (concat (map (file_chunks (env_libs env)) fs)) \<union> U)"
    and srv: "server_holds (env_libs env) store U"
    and ok: "session_ok env wm fs store U t cache consumed" and phase: "tr_phase t = Running"
    and run: "transfer_run env t cache = (t', cache')"
  shows "transfer_step env U t t'
     \<and> (session_outcome env wm fs t' \<and> tr_send_stream t' = tr_send_stream t
        \<or> session_ok env wm fs store U t' cache' consumed)"
proof -
  from ok phase obtain reqs resps where c: "content_ok env wm fs t" and U: "ran (tr_local_cache t) \<subseteq> U"
    and fed: "supply_ok t" and keys: "set (tr_all_chunks t) \<subseteq> dom store"
    and cache: "session_cache_ok env U cache" and pend: "cc_pending_chunks cache = Map.empty"
    and stream: "tr_send_stream t = concat (map frame reqs)"
      "list_all2 (answered (env_messages env) store) reqs resps" "consumed = length (concat (map frame resps))"
    by (auto simp: session_ok_def)
  note valid = session_cache_valid [OF lhm cache]
  have codecs: "codecs_ok (env_messages env)" using rel by (simp add: reliable_def)
  obtain files r sent where loop: "reconstruct_loop env (tr_local_cache t) (tr_reconstructor t)
      (tr_files t) (tr_world_data t) = Inr (files, r, sent)"
    by (rule session_loop [OF rel fields c inj U])
  show ?thesis
  proof (cases files)
    case Nil
    note loop = loop [unfolded Nil]
    have "tr_local_cache t' = tr_local_cache t" and sent: "tr_send_stream t' = tr_send_stream t"
      using run loop by (auto simp: transfer_run_def Let_def split: sum.splits if_splits)
    then have "transfer_step env U t t'" using phase valid(1) run U by (intro transfer_runs) simp_all
    with sent show ?thesis using session_completes [OF crc sizes inj rel c U valid(1) phase loop run] by simp
  next
    case (Cons d ds)
    note loop = loop [unfolded Cons]
    note left = supply_left [OF fed phase loop]
    obtain step keys1 local1 cache1 where batched: "get_chunks_batched (env_lhm env) cache (tr_all_chunks t)
        (tr_local_cache t) 512 = (step, keys1, local1, cache1)" by (metis prod_cases4)
    have "tr_local_cache t' = local1" using run loop batched conjunct2 [OF left]
      by (auto simp: transfer_run_def Let_def split: sum.splits BatchStep.splits)
    with batched_ran [OF batched U valid(2)] have local: "ran (tr_local_cache t') \<subseteq> U" by simp
    have step: "transfer_step env U t t'" using phase valid(1) run local by (rule transfer_runs)
    have rest: "content_ok env wm fs t'" "supply_ok t'" if "tr_phase t' = Running \<or> (\<exists>b. tr_phase t' = AwaitResponse b)"
      using supply_ok_step [OF step fed] transfer_ok_step [OF crc sizes inj step U] c phase that
      by (auto simp: transfer_ok_def)
    note wf = store_keys_wf [OF rel srv keys]
    from rel phase pend conjunct2 [OF left] wf loop run have "session_ok env wm fs store U t' cache' consumed"
    proof (cases rule: session_requests)
      case found
      then show ?thesis using rest local cache pend stream by (auto simp: session_ok_def)
    next
      case (requested batch data)
      have sub: "set (br_batch_keys batch) \<subseteq> dom store" using requested(5) keys by blast
      from request_answered [OF codecs srv sub requested(7,3,4)] obtain resp where
        resp: "encode_message_async (send_chunks_libs (env_messages env))
          \<lparr>sent_chunks = map (\<lambda>k. the (store k)) (br_batch_keys batch)\<rparr> = Inr resp"
          "length resp \<le> MESSAGE_SIZE_LIMIT" and "answered (env_messages env) store data resp" by blast
      from this(3) have "list_all2 (answered (env_messages env) store) (reqs @ [data]) (resps @ [resp])"
        using stream(2) by (simp add: list_all2_appendI)
      moreover have "tr_send_stream t' = concat (map frame (reqs @ [data]))"
        by (simp add: requested(2) stream(1))
      moreover have "session_cache_ok env U cache'" using cache requested(8) by (simp add: session_cache_ok_def)
      ultimately show ?thesis
        using rest local keys sub requested resp stream(3)
        unfolding session_ok_def requested(1) TransferPhase.case
        by (intro conjI exI [of _ "reqs @ [data]"] exI [of _ "resps @ [resp]"] exI [of _ resps] exI [of _ resp]) auto
    qed
    with step show ?thesis by blast
  qed
qed

lemma insert_all_snd:
  "snd ` set (insert_all limit new es) \<subseteq> snd ` set new \<union> snd ` set es"
  using set_insert_all [of limit new es] by blast

lemma session_cache_fulfilled:
  assumes lhm: "linked_hash_map (env_lhm env)" and cache: "session_cache_ok env U cache"
    and len: "length (br_batch_keys batch) = length chunks"
    and keys: "\<forall>(k, c) \<in> set (zip (br_batch_keys batch) chunks). k = chunk_key (env_libs env) c"
    and chunks: "set chunks \<subseteq> U" "\<forall>c \<in> set chunks. length c \<le> 4096"
    and pend: "dom (cc_pending_chunks cache) \<subseteq> set (br_batch_keys batch)"
  shows "\<exists>cache'. fulfill (env_lhm env) cache batch chunks = Inr cache' \<and> session_cache_ok env U cache'
     \<and> cc_pending_chunks cache' = Map.empty"
proof -
  have "list_all (\<lambda>c. unat (rc_max_size (cc_raw_cache cache)) + length c < 2 ^ 64) chunks"
    using cache chunks(2) unfolding session_cache_ok_def list_all_iff by (meson add_le_mono le_less_trans order_refl)
  moreover have "raw_ok (env_lhm env) (cc_raw_cache cache)" using cache by (simp add: session_cache_ok_def)
  ultimately obtain raw where f: "fulfill (env_lhm env) cache batch chunks
      = Inr (cache\<lparr>cc_raw_cache := raw,
          cc_pending_chunks := unpend (set (br_batch_keys batch)) (cc_pending_chunks cache),
          cc_closed := br_event batch # cc_closed cache\<rparr>)"
    and r: "raw_ok (env_lhm env) raw" "rc_max_size raw = rc_max_size (cc_raw_cache cache)"
      "cached (env_lhm env) raw = insert_all (unat (rc_max_size raw)) (zip (br_batch_keys batch) chunks)
         (cached (env_lhm env) (cc_raw_cache cache))"
    using linked_hash_map.fulfill_spec [OF lhm _ len] by blast
  have "valid_entries (env_libs env) (zip (br_batch_keys batch) chunks)"
    using keys by (simp add: valid_entries_def list_all_iff)
  then have valid: "valid_entries (env_libs env) (cached (env_lhm env) raw)"
    using cache by (simp add: r(3) session_cache_ok_def valid_insert_all)
  have zipped: "snd ` set (zip (br_batch_keys batch) chunks) \<subseteq> U"
    using chunks(1) by (auto dest: set_zip_rightD)
  have "snd ` set (cached (env_lhm env) raw)
      \<subseteq> snd ` set (zip (br_batch_keys batch) chunks) \<union> snd ` set (cached (env_lhm env) (cc_raw_cache cache))"
    unfolding r(3) by (rule insert_all_snd)
  also have "\<dots> \<subseteq> U" using zipped cache by (simp add: session_cache_ok_def)
  finally have bound: "snd ` set (cached (env_lhm env) raw) \<subseteq> U" .
  have "unpend (set (br_batch_keys batch)) (cc_pending_chunks cache) = Map.empty"
    using pend by (intro ext) (auto simp: unpend_def)
  with valid bound show ?thesis using f r(1,2) cache by (simp add: session_cache_ok_def)
qed

lemma session_respond_ok:
  assumes lhm: "linked_hash_map (env_lhm env)" and crc: "crc_crate (env_crc env) poly"
    and sizes: "sizes_ok wm fs" and rel: "reliable env"
    and inj: "inj_on (blake3_hash (env_libs env)) (set (concat (map (file_chunks (env_libs env)) fs)) \<union> U)"
    and srv: "server_holds (env_libs env) store U"
    and ok: "session_ok env wm fs store U t cache consumed" and phase: "tr_phase t = AwaitResponse batch"
  shows "\<exists>answers t' cache'.
     serve_requests (env_messages env) append_all store [] (tr_send_stream t) [] = Inr answers
     \<and> transfer_response env t batch (drop consumed answers) cache = (t', [], cache')
     \<and> transfer_step env U t t'
     \<and> session_ok env wm fs store U t' cache' (length answers)"
proof -
  let ?cs = "map (\<lambda>k. the (store k)) (br_batch_keys batch)"
  from ok phase obtain reqs before resp where c: "content_ok env wm fs t" and U: "ran (tr_local_cache t) \<subseteq> U"
    and fed: "supply_ok t" and cache: "session_cache_ok env U cache"
    and pend: "dom (cc_pending_chunks cache) \<subseteq> set (br_batch_keys batch)"
    and keys: "set (br_batch_keys batch) \<subseteq> dom store"
    and stream: "tr_send_stream t = concat (map frame reqs)"
      "list_all2 (answered (env_messages env) store) reqs (before @ [resp])"
      "consumed = length (concat (map frame before))"
    and resp: "length resp \<le> MESSAGE_SIZE_LIMIT"
      "encode_message_async (send_chunks_libs (env_messages env)) \<lparr>sent_chunks = ?cs\<rparr> = Inr resp"
    unfolding session_ok_def by auto
  let ?answers = "concat (map frame (before @ [resp]))"
  have "serve_requests (env_messages env) append_all store [] (tr_send_stream t) [] = Inr ?answers"
    using serve_frames [OF stream(2), of "[]" "[]"] by (simp add: stream(1) del: serve_requests.simps)
  moreover have rd: "read_message (drop consumed ?answers) [] = Inr (resp, [], [])"
    using read_message_frame [OF resp(1), of "[]" "[]"] by (simp add: stream(3))
  have dec: "decode_message_async (send_chunks_libs (env_messages env)) resp = Inr \<lparr>sent_chunks = ?cs\<rparr>"
    using rel resp(2) by (intro decode_encode_message_async) (simp_all add: reliable_def codecs_ok_def)
  have in_store: "store k = Some (the (store k))" if "k \<in> set (br_batch_keys batch)" for k
    using that keys by auto
  have hash: "\<forall>(k, d) \<in> set (zip (br_batch_keys batch) ?cs). k = chunk_key (env_libs env) d"
    using in_store srv by (auto simp: zip_map2 zip_same_conv_map server_holds_def store_valid_def)
  have held: "set ?cs \<subseteq> U" "\<forall>d \<in> set ?cs. length d \<le> 4096"
    using in_store srv by (auto simp: server_holds_def ran_def)
  from session_cache_fulfilled [OF lhm cache _ hash held pend] obtain cache' where
    ful: "fulfill (env_lhm env) cache batch ?cs = Inr cache'" and cache': "session_cache_ok env U cache'"
      "cc_pending_chunks cache' = Map.empty" by auto
  define t' where "t' = t\<lparr>tr_local_cache := tr_local_cache t ++ map_of (rev (zip (br_batch_keys batch) ?cs)),
      tr_phase := Running\<rparr>"
  have run: "transfer_response env t batch (drop consumed ?answers) cache = (t', [], cache')"
    unfolding transfer_response_def rd using hash by (simp add: dec check_chunks_eq ful t'_def)
  have local: "ran (tr_local_cache t') \<subseteq> U"
    using U held(1) [unfolded set_map image_subset_iff] by (auto simp: t'_def ran_def map_add_Some_iff dest!: map_of_SomeD set_zip_rightD)
  have step: "transfer_step env U t t'" using phase run local by (rule transfer_responds)
  have "transfer_ok env wm fs t'" using transfer_ok_step [OF crc sizes inj step U] c phase by (simp add: transfer_ok_def)
  then have "content_ok env wm fs t'" by (simp add: transfer_ok_def t'_def)
  then have "session_ok env wm fs store U t' cache' (length ?answers)"
    using ok local supply_ok_step [OF step fed] cache' stream(1,2) unfolding session_ok_def
    by (intro conjI exI [of _ reqs] exI [of _ "before @ [resp]"]) (simp_all add: t'_def)
  ultimately show ?thesis using run step by auto
qed

text \<open>All that the client has written is requests the server answers.\<close>

definition requests_served :: "('m, bytes) ClientEnv \<Rightarrow> chunk_map \<Rightarrow> bytes Transfer \<Rightarrow> bool" where
  "requests_served env store t \<longleftrightarrow>
     (\<exists>reqs resps. tr_send_stream t = concat (map frame reqs) \<and> list_all2 (answered (env_messages env) store) reqs resps)"

lemma session_returned: "tr_phase t = Returned r \<Longrightarrow> session n env store t cache consumed = (t, cache)"
  by (cases n) simp_all

lemma session_succeeds:
  assumes lhm: "linked_hash_map (env_lhm env)" and crc: "crc_crate (env_crc env) poly"
    and sizes: "sizes_ok wm fs" and fields: "fields_ok (env_libs env) fs" and rel: "reliable env"
    and inj: "inj_on (blake3_hash (env_libs env)) (set (concat (map (file_chunks (env_libs env)) fs)) \<union> U)"
    and srv: "server_holds (env_libs env) store U"
  shows "session_ok env wm fs store U t cache consumed \<Longrightarrow> transfer_measure t \<le> n \<Longrightarrow>
    (transfer_step env U)\<^sup>*\<^sup>* t (fst (session n env store t cache consumed))
    \<and> session_outcome env wm fs (fst (session n env store t cache consumed))
    \<and> requests_served env store (fst (session n env store t cache consumed))"
proof (induction n arbitrary: t cache consumed)
  case 0
  then show ?case by (cases "tr_phase t") (auto simp: transfer_measure_def session_ok_def)
next
  case (Suc n)
  show ?case
  proof (cases "tr_phase t")
    case Running
    obtain t' cache' where run: "transfer_run env t cache = (t', cache')" by fastforce
    from session_run_ok [OF lhm crc sizes fields rel inj srv Suc.prems(1) Running run]
    have step: "transfer_step env U t t'"
      and "session_outcome env wm fs t' \<and> tr_send_stream t' = tr_send_stream t
        \<or> session_ok env wm fs store U t' cache' consumed" by blast+
    from this(2) show ?thesis
    proof
      assume out: "session_outcome env wm fs t' \<and> tr_send_stream t' = tr_send_stream t"
      then have "\<exists>r. tr_phase t' = Returned r" by (auto simp: session_outcome_def split: if_splits)
      moreover have "requests_served env store t'"
        using out Suc.prems(1) by (auto simp: requests_served_def session_ok_def)
      ultimately show ?thesis using step out by (auto simp: Running run session_returned)
    next
      assume "session_ok env wm fs store U t' cache' consumed"
      from Suc.IH [OF this] transfer_measure_step [OF step] Suc.prems(2) step show ?thesis
        by (simp add: Running run converse_rtranclp_into_rtranclp)
    qed
  next
    case (AwaitResponse batch)
    from session_respond_ok [OF lhm crc sizes rel inj srv Suc.prems(1) AwaitResponse] obtain answers t' cache' where
      run: "serve_requests (env_messages env) append_all store [] (tr_send_stream t) [] = Inr answers"
      "transfer_response env t batch (drop consumed answers) cache = (t', [], cache')"
      and step: "transfer_step env U t t'" and ok: "session_ok env wm fs store U t' cache' (length answers)" by blast
    from Suc.IH [OF ok] transfer_measure_step [OF step] Suc.prems(2) step show ?thesis
      by (simp add: AwaitResponse run converse_rtranclp_into_rtranclp del: serve_requests.simps)
  qed (use Suc.prems(1) in \<open>simp_all add: session_ok_def\<close>)
qed

section \<open>Properties\<close>

text \<open>What a deconstruction leaves on the server.\<close>

lemma deconstructed_server:
  assumes "deconstruct_world libs world aux = Inr (desc, store)"
    and "zip_archive libs world = Inr (map (\<lambda>(n, c). Inr (n, Inr c)) fs)"
  shows "list_all2 (describes libs) fs (wd_files desc)"
    and "server_holds libs store (set (concat (map (file_chunks libs) fs)))"
    and "dom store = set (concat (map fd_content_chunks (wd_files desc)))"
proof -
  from deconstruct_world_spec [OF assms(1)] assms(2) have
    d: "list_all2 (describes libs) fs (wd_files desc)"
    and store: "store = store_all libs (concat (map (file_chunks libs) fs)) Map.empty"
    by (auto simp: members_inject)
  show "list_all2 (describes libs) fs (wd_files desc)" by fact
  have ran: "ran store \<subseteq> set (concat (map (file_chunks libs) fs))"
    unfolding store using ran_store_all [of libs "concat (map (file_chunks libs) fs)" Map.empty] by simp
  have "length c \<le> 4096" if "c \<in> set (file_chunks libs f)" for c f
    using that chunk_list_sizes by (auto simp: file_chunks_def MAX_CHUNK_SIZE_def split: sum.splits)
  then have "\<forall>c \<in> ran store. length c \<le> 4096" using ran by auto
  then show "server_holds libs store (set (concat (map (file_chunks libs) fs)))"
    using ran by (simp add: server_holds_def) (simp add: store valid_store_all)
  show "dom store = set (concat (map fd_content_chunks (wd_files desc)))"
    unfolding described_keys [OF d] store dom_store_all by simp
qed

lemma session_start:
  assumes crc: "crc_crate (env_crc env) poly"
    and dec: "deconstruct_world (env_libs env) world aux = Inr (wm_world wm, store)"
    and zip: "zip_archive (env_libs env) world = Inr (map (\<lambda>(n, c). Inr (n, Inr c)) fs)"
    and cache: "session_cache_ok env U cache" and idle: "cc_pending_chunks cache = Map.empty"
    and libs: "message_libs_ok (world_ready_libs (env_messages env))"
    and enc: "encode_message_async (world_ready_libs (env_messages env)) wm = Inr announcement"
    and len: "length announcement \<le> MESSAGE_SIZE_LIMIT"
  shows "\<exists>t0. transfer_begin env [] (frame announcement @ later) = Inr (Some (t0, later)) \<and> tr_world_ready t0 = wm
     \<and> session_ok env wm fs store (set (concat (map (file_chunks (env_libs env)) fs)) \<union> U) t0 cache 0
     \<and> transfer_measure t0 = 2 * length (concat (map fd_content_chunks (wd_files (wm_world wm)))) + 1"
proof -
  let ?chunks = "set (concat (map (file_chunks (env_libs env)) fs))"
  note srv = deconstructed_server [OF dec zip]
  obtain t0 where t0: "transfer_begin env [] (frame announcement @ later) = Inr (Some (t0, later))"
      "tr_world_ready t0 = wm" "tr_send_stream t0 = []"
    using decode_encode_message_async [OF libs enc]
    by (auto simp: transfer_begin_def read_message_frame [OF len])
  note start = transfer_begin_start [OF t0(1)]
  have "content_ok env wm fs t0"
    unfolding content_ok_def using start t0(2) srv(1) crc_crate.wr_inv_new [OF crc]
    by (intro conjI exI [of _ "[]"] exI [of _ fs]) simp_all
  moreover have "supply_ok t0" using supply_ok_steps [OF t0(1)] by blast
  moreover have "session_cache_ok env (?chunks \<union> U) cache" using cache by (auto simp: session_cache_ok_def)
  moreover have "\<exists>reqs resps. tr_send_stream t0 = concat (map frame reqs)
      \<and> list_all2 (answered (env_messages env) store) reqs resps \<and> 0 = length (concat (map frame resps))"
    using t0(3) by (intro exI [of _ "[]"]) simp
  ultimately have "session_ok env wm fs store (?chunks \<union> U) t0 cache 0"
    using start t0(2) srv(3) idle by (simp add: session_ok_def)
  with start t0 show ?thesis by (simp add: transfer_measure_def)
qed

text \<open>
  C3. The two tasks bring the world across. Both ends together, over streams and channels that
  do not fail, with codecs that read back what they wrote, a cache whose entries are filed
  under their hashes and no fetch of another task under way: the client understands the
  announcement; the server then answers every request, for chunks from its deconstruction of
  the world; and after at most twice as many steps as the world has chunks, and one more, the
  client has returned. When the rebuilt archive fits into the announced size, which the
  proxies know only afterwards, the client has sent the world to the game; else it has
  reported exactly that. No panic and no other error is possible.
\<close>

theorem world_transfer_succeeds:
  assumes lhm: "linked_hash_map (env_lhm env)" and crc: "crc_crate (env_crc env) poly"
    and dec: "deconstruct_world (env_libs env) world aux = Inr (wm_world wm, store)"
    and zip: "zip_archive (env_libs env) world = Inr (map (\<lambda>(n, c). Inr (n, Inr c)) fs)"
    and sizes: "sizes_ok wm fs" and fields: "fields_ok (env_libs env) fs" and rel: "reliable env"
    and cache: "session_cache_ok env U cache" and idle: "cc_pending_chunks cache = Map.empty"
    and hash: "inj_on (blake3_hash (env_libs env)) (set (concat (map (file_chunks (env_libs env)) fs)) \<union> U)"
    and libs: "message_libs_ok (world_ready_libs (env_messages env))"
    and enc: "encode_message_async (world_ready_libs (env_messages env)) wm = Inr announcement"
    and len: "length announcement \<le> MESSAGE_SIZE_LIMIT"
  shows "\<exists>t0. transfer_begin env [] (frame announcement @ later) = Inr (Some (t0, later))
     \<and> session_outcome env wm fs
         (fst (session (2 * length (concat (map fd_content_chunks (wd_files (wm_world wm)))) + 1) env store t0 cache 0))"
proof -
  let ?chunks = "set (concat (map (file_chunks (env_libs env)) fs))"
  from session_start [OF crc dec zip cache idle libs enc len] obtain t0 where
    t0: "transfer_begin env [] (frame announcement @ later) = Inr (Some (t0, later))"
      "session_ok env wm fs store (?chunks \<union> U) t0 cache 0"
      "transfer_measure t0 = 2 * length (concat (map fd_content_chunks (wd_files (wm_world wm)))) + 1" by blast
  have "server_holds (env_libs env) store (?chunks \<union> U)"
    using deconstructed_server(2) [OF dec zip] by (auto simp: server_holds_def)
  moreover have "inj_on (blake3_hash (env_libs env)) (?chunks \<union> (?chunks \<union> U))"
    using hash by (simp only: Un_left_absorb)
  ultimately show ?thesis
    using session_succeeds [OF lhm crc sizes fields rel _ _ t0(2) eq_imp_le [OF t0(3)]] t0(1) by blast
qed

section \<open>An example\<close>

text \<open>A codec for lists of byte strings: the number of strings, then each with its length.\<close>

definition plain_write :: "bytes list \<Rightarrow> bytes outcome" where
  "plain_write items =
     (if length items < 2 ^ 32 \<and> list_all (\<lambda>bs. length bs < 2 ^ 32) items
      then Inr (u32_to_le_bytes (of_nat (length items))
        @ concat (map (\<lambda>bs. u32_to_le_bytes (of_nat (length bs)) @ bs) items))
      else Inl (Error ''too long''))"

fun plain_items :: "nat \<Rightarrow> bytes \<Rightarrow> bytes list outcome" where
  "plain_items 0 bs = Inr []"
| "plain_items (Suc n) bs =
     (case try_get_u32_le bs of
        Inl _ \<Rightarrow> Inl UNEXPECTED_EOF
      | Inr (len, bs) \<Rightarrow>
          (case plain_items n (drop (unat len) bs) of
             Inl e \<Rightarrow> Inl e | Inr items \<Rightarrow> Inr (take (unat len) bs # items)))"

definition plain_read :: "bytes \<Rightarrow> bytes list outcome" where
  "plain_read bs =
     (case try_get_u32_le bs of
        Inl _ \<Rightarrow> Inl UNEXPECTED_EOF
      | Inr (n, bs) \<Rightarrow> plain_items (unat n) bs)"

lemma plain_read_write: "plain_write items = Inr bs \<Longrightarrow> plain_read bs = Inr items"
proof -
  have "list_all (\<lambda>bs. length bs < 2 ^ 32) items \<Longrightarrow>
      plain_items (length items) (concat (map (\<lambda>bs. u32_to_le_bytes (of_nat (length bs)) @ bs) items)) = Inr items"
    for items :: "bytes list"
    by (induction items) (simp_all add: unat_of_nat_u32)
  then show "plain_write items = Inr bs \<Longrightarrow> plain_read bs = Inr items"
    by (auto simp: plain_write_def plain_read_def unat_of_nat_u32 split: if_splits)
qed

lemma plain_write_length:
  assumes "length items \<le> 512" and "list_all (\<lambda>bs. length bs \<le> 4096) items"
  shows "\<exists>bs. plain_write items = Inr bs \<and> length bs \<le> MESSAGE_SIZE_LIMIT"
proof -
  have "list_all (\<lambda>bs. length bs \<le> 4096) items \<Longrightarrow>
      length (concat (map (\<lambda>bs. u32_to_le_bytes (of_nat (length bs)) @ bs) items)) \<le> 4100 * length items"
    for items :: "bytes list"
    by (induction items) simp_all
  from this [OF assms(2)] have "length (concat (map (\<lambda>bs. u32_to_le_bytes (of_nat (length bs)) @ bs) items)) \<le> 4100 * 512"
    using assms(1) by simp
  moreover have "list_all (\<lambda>bs. length bs < 2 ^ 32) items"
    using assms(2) by (rule list.pred_mono_strong) simp
  ultimately show ?thesis using assms(1) by (simp add: plain_write_def MESSAGE_SIZE_LIMIT_def)
qed

text \<open>Message codecs over it, with a compression that does nothing.\<close>

definition plain_libs :: "('m \<Rightarrow> bytes list option) \<Rightarrow> (bytes list \<Rightarrow> 'm) \<Rightarrow> 'm MessageLibs" where
  "plain_libs items_of message_of =
     \<lparr>zstd_encoder = (\<lambda>level. Inr Inr), zstd_decoder = (\<lambda>data. Inr (data, None)),
      rmp_write = (\<lambda>message. case items_of message of None \<Rightarrow> Inl (Error ''message'') | Some items \<Rightarrow> plain_write items),
      rmp_from_read = (\<lambda>(bs, failure). case plain_read bs of Inl e \<Rightarrow> Inl e | Inr items \<Rightarrow> Inr (message_of items))\<rparr>"

lemma plain_libs_ok:
  assumes "\<And>message items. items_of message = Some items \<Longrightarrow> message_of items = message"
  shows "message_libs_ok (plain_libs items_of message_of)"
  using assms by (auto simp: message_libs_ok_def plain_libs_def plain_read_write split: option.splits)

lemma plain_libs_encode:
  "encode_message_async (plain_libs items_of message_of) message
     = (case items_of message of None \<Rightarrow> Inl (Error ''message'') | Some items \<Rightarrow> plain_write items)"
  by (simp add: plain_libs_def encode_message_async_def encode_message_def spawn_blocking_def plain_write_def
      split: option.splits)

definition example_ready :: WorldReadyMessage where
  "example_ready =
     \<lparr>wm_world = example_desc,
      wm_old_info = \<lparr>world_size = 350, no_idea1 = 0, aux_size = 2, no_idea2 = 0, world_crc = 7\<rparr>,
      wm_new_info = \<lparr>world_size = 700, no_idea1 = 0, aux_size = 2, no_idea2 = 0, world_crc = 7\<rparr>\<rparr>"

definition example_messages :: ProxyMessages where
  "example_messages =
     \<lparr>world_ready_libs = plain_libs (\<lambda>m. if m = example_ready then Some [] else None) (\<lambda>_. example_ready),
      request_chunks_libs = plain_libs (\<lambda>m. Some (map (\<lambda>k. case k of ChunkKey bs \<Rightarrow> bs) (requested_chunks m)))
        (\<lambda>items. \<lparr>requested_chunks = map ChunkKey items\<rparr>),
      send_chunks_libs = plain_libs (\<lambda>m. Some (sent_chunks m)) (\<lambda>items. \<lparr>sent_chunks = items\<rparr>)\<rparr>"

definition example_env :: "(entries, bytes) ClientEnv" where
  "example_env =
     \<lparr>env_crc = crc32_iso_hdlc, env_libs = example_libs, env_lhm = list_map, env_messages = example_messages,
      env_write_all = append_all, env_send_ok = (\<lambda>_. True)\<rparr>"

lemma example_messages_ok:
  "message_libs_ok (world_ready_libs example_messages)"
  "message_libs_ok (request_chunks_libs example_messages)"
  "message_libs_ok (send_chunks_libs example_messages)"
proof -
  show "message_libs_ok (world_ready_libs example_messages)"
    unfolding example_messages_def ProxyMessages.select_convs by (rule plain_libs_ok) (simp split: if_splits)
  have "map (ChunkKey \<circ> case_ChunkKey (\<lambda>bs. bs)) ks = ks" for ks
    by (induction ks) (simp_all split: ChunkKey.splits)
  then show "message_libs_ok (request_chunks_libs example_messages)"
    unfolding example_messages_def ProxyMessages.select_convs by (intro plain_libs_ok) auto
  show "message_libs_ok (send_chunks_libs example_messages)"
    unfolding example_messages_def ProxyMessages.select_convs by (rule plain_libs_ok) auto
qed

lemma example_reliable: "reliable example_env"
proof -
  have "\<exists>d. encode_message_async (request_chunks_libs example_messages) \<lparr>requested_chunks = keys\<rparr> = Inr d
      \<and> length d \<le> MESSAGE_SIZE_LIMIT" if "length keys \<le> 512" "list_all key_wf keys" for keys
  proof -
    have "list_all (\<lambda>bs. length bs \<le> 4096) (map (\<lambda>k. case k of ChunkKey bs \<Rightarrow> bs) keys)"
      using that(2) by (auto simp: list_all_iff key_wf_def split: ChunkKey.splits)
    from plain_write_length [OF _ this] that(1) show ?thesis
      unfolding example_messages_def ProxyMessages.select_convs by (simp add: plain_libs_encode)
  qed
  moreover have "\<exists>d. encode_message_async (send_chunks_libs example_messages) \<lparr>sent_chunks = chunks\<rparr> = Inr d
      \<and> length d \<le> MESSAGE_SIZE_LIMIT" if "length chunks \<le> 512" "list_all (\<lambda>c. length c \<le> 4096) chunks" for chunks
    using plain_write_length [OF that]
    unfolding example_messages_def ProxyMessages.select_convs by (simp add: plain_libs_encode)
  ultimately have "codecs_ok example_messages" using example_messages_ok by (simp add: codecs_ok_def)
  then show ?thesis by (simp add: reliable_def example_env_def) (auto simp: example_libs_def)
qed

definition example_new_cache :: "entries ChunkCache" where
  "example_new_cache = ChunkCache_new list_map 1000"

lemma example_cache_ok:
  "session_cache_ok example_env {} example_new_cache \<and> cc_pending_chunks example_new_cache = Map.empty"
  using list_map.raw_ok_new [of 1000]
  by (simp add: session_cache_ok_def example_new_cache_def ChunkCache_new_def example_env_def valid_entries_def)
    (simp add: RawChunkCache_new_def)

lemma example_world_chunks:
  "set (concat (map (file_chunks example_libs) example_files)) = {[1, 2, 3], [4, 5]}"
  by (simp add: example_files_def example_file_chunks)

lemma example_hash: "inj_on (blake3_hash example_libs)
    (set (concat (map (file_chunks example_libs) example_files)) \<union> {[1, 2, 3], [4, 5]})"
  unfolding example_world_chunks by (simp add: inj_on_def example_libs_def)

lemma example_sizes: "sizes_ok example_ready example_files" "fields_ok example_libs example_files"
  "zip_size (map (recoded example_libs) example_files) + 4 \<le> unat (world_size (wm_new_info example_ready))"
  by (simp_all add: sizes_ok_def fields_ok_def zip_size_def example_ready_def example_files_def example_recoded)
    (simp_all add: example_desc_def LEVEL_DAT_def)

lemma example_zip: "zip_archive example_libs world = Inr (map (\<lambda>(n, c). Inr (n, Inr c)) example_files)"
  by (simp add: example_libs_def)

lemma example_announcement_encoded:
  "encode_message_async (world_ready_libs example_messages) example_ready = Inr [0, 0, 0, 0]"
  unfolding example_messages_def ProxyMessages.select_convs
  by (simp add: plain_libs_encode plain_write_def u32_to_le_bytes_def)

lemma example_env_select:
  "env_crc example_env = crc32_iso_hdlc" "env_libs example_env = example_libs" "env_lhm example_env = list_map"
  "env_messages example_env = example_messages"
  by (simp_all add: example_env_def)

lemma example_wm_world: "wm_world example_ready = example_desc"
  by (simp add: example_ready_def)

theorem world_transfer_succeeds_witness:
  "\<exists>t0. transfer_begin example_env [] (frame [0, 0, 0, 0]) = Inr (Some (t0, []))
     \<and> tr_phase (fst (session 5 example_env example_store t0 example_new_cache 0)) = Returned (Inr ())
     \<and> world_sent example_env example_ready example_files
         (concat (tr_world_data (fst (session 5 example_env example_store t0 example_new_cache 0))))"
proof -
  have "2 * length (concat (map fd_content_chunks (wd_files (wm_world example_ready)))) + 1 = 5"
    by (simp add: example_wm_world example_desc_def)
  moreover have "\<exists>t0. transfer_begin example_env [] (frame [0, 0, 0, 0] @ []) = Inr (Some (t0, []))
     \<and> session_outcome example_env example_ready example_files (fst (session
         (2 * length (concat (map fd_content_chunks (wd_files (wm_world example_ready)))) + 1)
         example_env example_store t0 example_new_cache 0))"
  proof (rule world_transfer_succeeds)
    show "inj_on (blake3_hash (env_libs example_env))
        (set (concat (map (file_chunks (env_libs example_env)) example_files)) \<union> {})"
      using example_hash unfolding example_env_select example_world_chunks by simp
    show "crc_crate (env_crc example_env) 0xEDB88320"
      unfolding example_env_select by (rule iso_hdlc.crc_crate_axioms)
    show "deconstruct_world (env_libs example_env) [] [9, 9] = Inr (wm_world example_ready, example_store)"
      unfolding example_env_select example_wm_world by (rule example_deconstruct)
  qed (use example_cache_ok in \<open>simp_all add: example_env_select list_map.linked_hash_map_axioms example_zip
      example_sizes example_reliable example_messages_ok example_announcement_encoded MESSAGE_SIZE_LIMIT_def\<close>)
  ultimately show ?thesis
    using example_sizes(3) by (auto simp: session_outcome_def example_env_select)
qed

text \<open>The same run as steps of the client task.\<close>

lemma example_session:
  fixes U :: "bytes set"
  defines "U \<equiv> {[1, 2, 3], [4, 5]}"
  shows "crc_crate (env_crc example_env) 0xEDB88320" and "server_holds (env_libs example_env) example_store U"
    and "inj_on (blake3_hash (env_libs example_env))
      (set (concat (map (file_chunks (env_libs example_env)) example_files)) \<union> U)"
    and "\<exists>t0. transfer_begin example_env [] (frame [0, 0, 0, 0]) = Inr (Some (t0, [])) \<and> tr_world_ready t0 = example_ready
      \<and> session_ok example_env example_ready example_files example_store U t0 example_new_cache 0"
proof -
  let ?U = "set (concat (map (file_chunks (env_libs example_env)) example_files)) \<union> {}"
  have U: "?U = U" by (simp only: example_env_select example_world_chunks Un_empty_right U_def)
  have dec: "deconstruct_world (env_libs example_env) [] [9, 9] = Inr (wm_world example_ready, example_store)"
    unfolding example_env_select example_wm_world by (rule example_deconstruct)
  have zip: "zip_archive (env_libs example_env) [] = Inr (map (\<lambda>(n, c). Inr (n, Inr c)) example_files)"
    unfolding example_env_select by (rule example_zip)
  show crc: "crc_crate (env_crc example_env) 0xEDB88320"
    unfolding example_env_select by (rule iso_hdlc.crc_crate_axioms)
  show "server_holds (env_libs example_env) example_store U"
    using deconstructed_server(2) [OF dec zip] unfolding U [symmetric] by simp
  show "inj_on (blake3_hash (env_libs example_env))
      (set (concat (map (file_chunks (env_libs example_env)) example_files)) \<union> U)"
    using example_hash by (simp only: example_env_select U_def)
  from session_start [OF crc dec zip conjunct1 [OF example_cache_ok] conjunct2 [OF example_cache_ok],
      unfolded example_env_select, OF example_messages_ok(1) example_announcement_encoded, of "[]",
      folded example_env_select] U
  show "\<exists>t0. transfer_begin example_env [] (frame [0, 0, 0, 0]) = Inr (Some (t0, [])) \<and> tr_world_ready t0 = example_ready
      \<and> session_ok example_env example_ready example_files example_store U t0 example_new_cache 0"
    by (auto simp: MESSAGE_SIZE_LIMIT_def)
qed

lemma example_session_end:
  assumes "session_ok example_env example_ready example_files example_store {[1, 2, 3], [4, 5]} t0 example_new_cache 0"
  shows "(transfer_step example_env {[1, 2, 3], [4, 5]})\<^sup>*\<^sup>* t0
        (fst (session (transfer_measure t0) example_env example_store t0 example_new_cache 0))"
    and "session_outcome example_env example_ready example_files
        (fst (session (transfer_measure t0) example_env example_store t0 example_new_cache 0))"
  using session_succeeds [OF _ example_session(1) _ _ example_reliable example_session(3,2) assms order_refl]
    example_sizes list_map.linked_hash_map_axioms by (simp_all add: example_env_select)

lemma example_transfer:
  "\<exists>t0 t. transfer_begin example_env [] (frame [0, 0, 0, 0]) = Inr (Some (t0, []))
     \<and> tr_world_ready t0 = example_ready
     \<and> (transfer_step example_env {[1, 2, 3], [4, 5]})\<^sup>*\<^sup>* t0 t \<and> tr_phase t = Returned (Inr ())
     \<and> world_sent example_env example_ready example_files (concat (tr_world_data t))"
proof -
  from example_session(4) obtain t0 where t0: "transfer_begin example_env [] (frame [0, 0, 0, 0]) = Inr (Some (t0, []))"
    "tr_world_ready t0 = example_ready"
    "session_ok example_env example_ready example_files example_store {[1, 2, 3], [4, 5]} t0 example_new_cache 0"
    by blast
  from example_session_end [OF t0(3)] t0(1,2) show ?thesis
    using example_sizes(3) by (auto simp: session_outcome_def example_env_select)
qed

theorem transfer_delivers_world_witness:
  "\<exists>t0 t. transfer_begin example_env [] (frame [0, 0, 0, 0]) = Inr (Some (t0, []))
     \<and> (transfer_step example_env {[1, 2, 3], [4, 5]})\<^sup>*\<^sup>* t0 t
     \<and> world_sent example_env example_ready example_files (concat (tr_world_data t))"
proof -
  from example_transfer obtain t0 t where
    run: "transfer_begin example_env [] (frame [0, 0, 0, 0]) = Inr (Some (t0, []))"
      "tr_world_ready t0 = example_ready" "(transfer_step example_env {[1, 2, 3], [4, 5]})\<^sup>*\<^sup>* t0 t"
      "tr_phase t = Returned (Inr ())" by blast
  have dec: "deconstruct_world example_libs [] [9, 9] = Inr (wm_world example_ready, example_store)"
    unfolding example_wm_world by (rule example_deconstruct)
  from transfer_delivers_world [where env = example_env, unfolded example_env_select,
      OF iso_hdlc.crc_crate_axioms dec example_zip example_sizes(1) example_hash run] run
  show ?thesis by blast
qed

theorem transfer_never_runs_dry_witness:
  "\<exists>t0 d files r sent. transfer_begin example_env [] (frame [0, 0, 0, 0]) = Inr (Some (t0, []))
     \<and> reconstruct_loop example_env (tr_local_cache t0) (tr_reconstructor t0) (tr_files t0) (tr_world_data t0)
         = Inr (d # files, r, sent)
     \<and> tr_all_chunks t0 \<noteq> []"
proof -
  from example_transfer obtain t0 where t0: "transfer_begin example_env [] (frame [0, 0, 0, 0]) = Inr (Some (t0, []))"
    "tr_world_ready t0 = example_ready" by blast
  note start = transfer_begin_start [OF t0(1)]
  have "\<exists>d files. tr_files t0 = d # files \<and> \<not> set (fd_content_chunks d) \<subseteq> {}"
    using start t0(2) by (simp add: example_wm_world example_desc_def)
  then obtain d files where d: "tr_files t0 = d # files" "\<not> set (fd_content_chunks d) \<subseteq> {}" by blast
  have "reconstruct_world_file (env_crc example_env) (env_libs example_env) (tr_reconstructor t0) d
      (tr_local_cache t0) = Inr None"
    using d(2) start by (simp add: reconstruct_none_iff)
  then have loop: "reconstruct_loop example_env (tr_local_cache t0) (tr_reconstructor t0) (tr_files t0) (tr_world_data t0)
      = Inr (d # files, tr_reconstructor t0, tr_world_data t0)" by (simp add: d(1))
  from transfer_never_runs_dry [OF t0(1) rtranclp.rtrancl_refl conjunct1 [OF start] loop] t0(1) loop
  show ?thesis by blast
qed

theorem transfer_terminates_witness:
  "\<exists>t0 t k. transfer_begin example_env [] (frame [0, 0, 0, 0]) = Inr (Some (t0, []))
     \<and> (transfer_step example_env {[1, 2, 3], [4, 5]} ^^ k) t0 t \<and> returned (tr_phase t) \<and> k \<le> 5"
proof -
  from example_transfer obtain t0 t where
    run: "transfer_begin example_env [] (frame [0, 0, 0, 0]) = Inr (Some (t0, []))"
      "tr_world_ready t0 = example_ready" "(transfer_step example_env {[1, 2, 3], [4, 5]})\<^sup>*\<^sup>* t0 t"
      "tr_phase t = Returned (Inr ())" by blast
  from rtranclp_imp_relpowp [OF run(3)] obtain k where
    k: "(transfer_step example_env {[1, 2, 3], [4, 5]} ^^ k) t0 t" by blast
  have "k \<le> 5" using transfer_terminates [OF run(1) k] by (simp add: run(2) example_wm_world example_desc_def)
  with run k show ?thesis by fastforce
qed

end
