(* ===== verification/Shared_Transfers.thy ===== *)
theory Shared_Transfers
  imports World_Transfer
begin

text \<open>
  The world transfers of all peers of a client-side proxy together: \<open>proxy_client\<close> of
  \<open>src/src/proxy/client_proxy.rs\<close> spawns one task \<open>transfer_world_data\<close> per peer, and all of them,
  and the writer of \<open>src/src/chunk_cache.rs\<close>, share one chunk cache. Each task runs on the cache
  the others leave behind; what \<open>transfer_step\<close> assumed of the cache is proved here, and the
  whole refines the system of \<open>Cache_Sharing\<close>.
\<close>

section \<open>The tasks and their cache\<close>

record ('m, 'io) SharedTransfers =
  st_cache :: "'m ChunkCache"
  st_transfers :: "'io Transfer list"

definition SharedTransfers_new :: "'m ChunkCache \<Rightarrow> ('m, 'io) SharedTransfers" where
  "SharedTransfers_new cache = \<lparr>st_cache = cache, st_transfers = []\<rparr>"

text \<open>Each task has a channel of its own to its proxy; the rest of its environment is shared.\<close>

definition task_env :: "('m, 'io) ClientEnv \<Rightarrow> (nat \<Rightarrow> bytes \<Rightarrow> bool) \<Rightarrow> nat \<Rightarrow> ('m, 'io) ClientEnv" where
  "task_env env send_ok i = env\<lparr>env_send_ok := send_ok i\<rparr>"

lemma task_env_select [simp]:
  "env_crc (task_env env send_ok i) = env_crc env" "env_libs (task_env env send_ok i) = env_libs env"
  "env_lhm (task_env env send_ok i) = env_lhm env" "env_messages (task_env env send_ok i) = env_messages env"
  by (simp_all add: task_env_def)

text \<open>
  One task runs to its next await on the cache as it is: from \<open>Running\<close>; with the response to
  its batch; or, when all the events it waits for are closed, with the chunks others fetched.
  As in \<open>transfer_step\<close>, \<open>U\<close> bounds the chunks that enter local caches.
\<close>

inductive task_step ::
    "('m, 'io) ClientEnv \<Rightarrow> (nat \<Rightarrow> bytes \<Rightarrow> bool) \<Rightarrow> bytes set
       \<Rightarrow> ('m, 'io) SharedTransfers \<Rightarrow> ('m, 'io) SharedTransfers \<Rightarrow> bool"
  for env send_ok U where
  task_runs: "i < length (st_transfers s) \<Longrightarrow> t = st_transfers s ! i \<Longrightarrow> tr_phase t = Running \<Longrightarrow>
     transfer_run (task_env env send_ok i) t (st_cache s) = (t', cache') \<Longrightarrow> ran (tr_local_cache t') \<subseteq> U \<Longrightarrow>
     task_step env send_ok U s \<lparr>st_cache = cache', st_transfers = (st_transfers s)[i := t']\<rparr>"
| task_responds: "i < length (st_transfers s) \<Longrightarrow> t = st_transfers s ! i \<Longrightarrow> tr_phase t = AwaitResponse batch \<Longrightarrow>
     transfer_response (task_env env send_ok i) t batch recv_stream (st_cache s) = (t', recv_stream', cache') \<Longrightarrow>
     ran (tr_local_cache t') \<subseteq> U \<Longrightarrow>
     task_step env send_ok U s \<lparr>st_cache = cache', st_transfers = (st_transfers s)[i := t']\<rparr>"
| task_resumes: "i < length (st_transfers s) \<Longrightarrow> t = st_transfers s ! i \<Longrightarrow> tr_phase t = AwaitEvents ps \<Longrightarrow>
     events_closed (st_cache s) ps \<Longrightarrow>
     transfer_resume (task_env env send_ok i) t ps (st_cache s) = t' \<Longrightarrow> ran (tr_local_cache t') \<subseteq> U \<Longrightarrow>
     task_step env send_ok U s \<lparr>st_cache = st_cache s, st_transfers = (st_transfers s)[i := t']\<rparr>"

text \<open>Besides, a new peer starts a task, and the writer saves the cache.\<close>

inductive shared_step ::
    "('m, 'io) ClientEnv \<Rightarrow> (nat \<Rightarrow> bytes \<Rightarrow> bool) \<Rightarrow> bytes set
       \<Rightarrow> ('m, 'io) SharedTransfers \<Rightarrow> ('m, 'io) SharedTransfers \<Rightarrow> bool"
  for env send_ok U where
  task: "task_step env send_ok U s s' \<Longrightarrow> shared_step env send_ok U s s'"
| spawned: "transfer_begin (task_env env send_ok (length (st_transfers s))) send_stream recv_stream
       = Inr (Some (t, rest)) \<Longrightarrow>
     shared_step env send_ok U s (s\<lparr>st_transfers := st_transfers s @ [t]\<rparr>)"
| saved: "try_save (env_lhm env) zstd io (st_cache s) path fs = (result, cache', fs') \<Longrightarrow>
     shared_step env send_ok U s (s\<lparr>st_cache := cache'\<rparr>)"

text \<open>The batches that tasks are fetching, and the tasks that have failed.\<close>

fun fetched :: "TransferPhase \<Rightarrow> BatchChunkRequest list" where
  "fetched (AwaitResponse batch) = [batch]"
| "fetched _ = []"

definition fetching :: "('m, 'io) SharedTransfers \<Rightarrow> BatchChunkRequest list" where
  "fetching s = concat (map (fetched \<circ> tr_phase) (st_transfers s))"

fun failed :: "TransferPhase \<Rightarrow> bool" where
  "failed (Returned (Inl e)) = True"
| "failed _ = False"

text \<open>
  What Rust guarantees of a \<open>Vec\<close>: its length is at most \<open>isize::MAX\<close>, also for the chunks of a
  decoded response.
\<close>

definition vecs_ok :: "('m, 'io) ClientEnv \<Rightarrow> bool" where
  "vecs_ok env \<longleftrightarrow> (\<forall>data response. decode_message_async (send_chunks_libs (env_messages env)) data = Inr response \<longrightarrow>
     (\<forall>chunk \<in> set (sent_chunks response). length chunk < 2 ^ 63))"

section \<open>The cache in one step of a task\<close>

lemma transfer_run_cache:
  assumes "transfer_run env t cache = (t', cache')"
  obtains (same) "cache' = cache" and "fetched (tr_phase t') = []"
      and "\<And>ps. tr_phase t' = AwaitEvents ps \<Longrightarrow> \<forall>(k, e) \<in> set ps. cc_pending_chunks cache k = Some e"
  | (marked) "cache' = mark_dirty cache" and "returned (tr_phase t')"
  | (requested) keys out batch keys' out' where
      "get_chunks_batched (env_lhm env) cache keys out 512 = (Batch batch, keys', out', cache')"
      and "tr_phase t' = AwaitResponse batch \<or> failed (tr_phase t')"
proof (cases "reconstruct_loop env (tr_local_cache t) (tr_reconstructor t) (tr_files t) (tr_world_data t)")
  case (Inl e)
  with assms same show ?thesis by (auto simp: transfer_run_def)
next
  case (Inr result)
  obtain files r sent where result: "result = (files, r, sent)" by (cases result)
  show ?thesis
  proof (cases files)
    case Nil
    with Inr result assms have "cache' = mark_dirty cache \<and> returned (tr_phase t')"
      by (auto simp: transfer_run_def Let_def split: sum.splits if_splits)
    with marked show ?thesis by blast
  next
    case (Cons d ds)
    obtain step keys local cache1 where batched: "get_chunks_batched (env_lhm env) cache (tr_all_chunks t)
        (tr_local_cache t) 512 = (step, keys, local, cache1)" by (metis prod_cases4)
    note run = assms [unfolded transfer_run_def Inr result Cons sum.case prod.case list.case batched Let_def]
    note spec = get_chunks_batched_cases [OF batched]
    show ?thesis
    proof (cases "tr_all_chunks t = []")
      case True
      with run same show ?thesis by auto
    next
      case False
      note run = run [simplified, simplified False batched if_False, simplified]
      show ?thesis
      proof (cases step)
        case (Batch batch)
        then have "cache' = cache1 \<and> (tr_phase t' = AwaitResponse batch \<or> failed (tr_phase t'))"
          using run False batched by (auto split: sum.splits)
        with requested batched Batch show ?thesis by blast
      next
        case Finished
        then have "cache' = cache" "tr_phase t' = Running" using run False batched spec by auto
        then show ?thesis by (intro same) simp_all
      next
        case (Waiting ps)
        then have "cache' = cache" "tr_phase t' = AwaitEvents ps" using run False batched spec by auto
        then show ?thesis using spec Waiting by (intro same) simp_all
      qed
    qed
  qed
qed

lemma transfer_response_cache:
  assumes "transfer_response env t batch recv_stream cache = (t', recv_stream', cache')"
  obtains (fails) "cache' = cache" and "failed (tr_phase t')"
  | (fulfils) data response where "decode_message_async (send_chunks_libs (env_messages env)) data = Inr response"
      and "fulfill (env_lhm env) cache batch (sent_chunks response) = Inr cache'"
      and "list_all2 (\<lambda>key chunk. key = chunk_key (env_libs env) chunk) (br_batch_keys batch) (sent_chunks response)"
      and "tr_phase t' = Running"
proof -
  consider "cache' = cache \<and> failed (tr_phase t')"
    | data response local where "decode_message_async (send_chunks_libs (env_messages env)) data = Inr response"
        "check_chunks (env_libs env) (zip (br_batch_keys batch) (sent_chunks response)) (tr_local_cache t) = Inr local"
        "fulfill (env_lhm env) cache batch (sent_chunks response) = Inr cache'" "tr_phase t' = Running"
    using assms by (auto simp: transfer_response_def split: sum.splits prod.splits)
  then show ?thesis
  proof cases
    case 2
    from 2(3) have "length (br_batch_keys batch) = length (sent_chunks response)"
      by (simp add: fulfill_def split: if_splits)
    moreover have "\<forall>(k, c) \<in> set (zip (br_batch_keys batch) (sent_chunks response)). k = chunk_key (env_libs env) c"
      using 2(2) unfolding check_chunks_eq by (simp split: if_splits)
    ultimately show ?thesis using fulfils 2 by (simp add: list_all2_iff)
  qed (use fails in blast)
qed

lemma transfer_resume_phase: "transfer_resume env t ps cache = t' \<Longrightarrow> tr_phase t' = Running \<or> failed (tr_phase t')"
  by (auto simp: transfer_resume_def split: sum.splits)

section \<open>The simulation\<close>

fun waits_below :: "nat \<Rightarrow> TransferPhase \<Rightarrow> bool" where
  "waits_below n (AwaitEvents ps) = list_all (\<lambda>(_, event). event < n) ps"
| "waits_below n _ = True"

text \<open>
  A state of \<open>Cache_Sharing\<close> that stands for a state of the tasks: the same cache; the batches
  being fetched are those of the tasks that await a response; a batch was dropped only by a
  task that failed; and tasks wait only for events that exist.
\<close>

definition stands_for :: "u64 \<Rightarrow> 'm CacheSystem \<Rightarrow> ('m, 'io) SharedTransfers \<Rightarrow> bool" where
  "stands_for limit cs s \<longleftrightarrow>
     sys_cache cs = st_cache s \<and> mset (sys_batches cs) = mset (fetching s)
     \<and> (sys_dropped cs \<noteq> [] \<longrightarrow> (\<exists>t \<in> set (st_transfers s). failed (tr_phase t)))
     \<and> (\<forall>t \<in> set (st_transfers s). waits_below (cc_next_event (st_cache s)) (tr_phase t))
     \<and> rc_max_size (cc_raw_cache (st_cache s)) = limit"

lemma mset_concat_update:
  "i < length xs \<Longrightarrow> mset (concat (map f (xs[i := x]))) + mset (f (xs ! i)) = mset (concat (map f xs)) + mset (f x)"
proof (induction xs arbitrary: i)
  case (Cons y xs)
  then show ?case by (cases i) (simp_all add: ac_simps)
qed simp

lemma waits_below_mono: "waits_below n phase \<Longrightarrow> n \<le> n' \<Longrightarrow> waits_below n' phase"
  by (cases phase) (auto simp: list_all_iff)

lemma failed_fetched [simp]: "failed phase \<Longrightarrow> fetched phase = []" "failed phase \<Longrightarrow> waits_below n phase"
  by (cases phase; simp)+

lemma stands_for_update:
  assumes "stands_for limit cs s" and i: "i < length (st_transfers s)" and "\<not> failed (tr_phase (st_transfers s ! i))"
    and "sys_cache cs' = cache'" and "rc_max_size (cc_raw_cache cache') = limit"
    and "mset (sys_batches cs') + mset (fetched (tr_phase (st_transfers s ! i)))
      = mset (sys_batches cs) + mset (fetched (tr_phase t'))"
    and "sys_dropped cs' \<noteq> [] \<Longrightarrow> sys_dropped cs = [] \<Longrightarrow> failed (tr_phase t')"
    and "cc_next_event (st_cache s) \<le> cc_next_event cache'" and "waits_below (cc_next_event cache') (tr_phase t')"
  shows "stands_for limit cs' \<lparr>st_cache = cache', st_transfers = (st_transfers s)[i := t']\<rparr>"
proof -
  let ?s = "\<lparr>st_cache = cache', st_transfers = (st_transfers s)[i := t']\<rparr>"
  have "mset (fetching ?s) + mset (fetched (tr_phase (st_transfers s ! i))) = mset (fetching s) + mset (fetched (tr_phase t'))"
    using mset_concat_update [OF i, of "fetched \<circ> tr_phase" t'] by (simp add: fetching_def)
  then have "mset (sys_batches cs') = mset (fetching ?s)"
    using assms(1,6) by (metis add_right_imp_eq stands_for_def)
  moreover have "\<exists>t \<in> set (st_transfers ?s). failed (tr_phase t)" if "sys_dropped cs' \<noteq> []"
  proof (cases "sys_dropped cs = []")
    case True
    then show ?thesis using assms(7) that set_update_memI [OF i] by auto
  next
    case False
    then obtain j where "j < length (st_transfers s)" "failed (tr_phase (st_transfers s ! j))"
      using assms(1) by (auto simp: stands_for_def in_set_conv_nth)
    moreover from this have "j \<noteq> i" using assms(3) by auto
    ultimately show ?thesis by (auto simp: in_set_conv_nth intro!: bexI [of _ "st_transfers s ! j"] exI [of _ j])
  qed
  moreover have "\<forall>t \<in> set (st_transfers ?s). waits_below (cc_next_event cache') (tr_phase t)"
    using assms(1,8,9) set_update_subset_insert [of "st_transfers s" i t']
    by (auto simp: stands_for_def intro: waits_below_mono)
  ultimately show ?thesis using assms(4,5) by (simp add: stands_for_def)
qed

lemma fetching_member:
  assumes "i < length (st_transfers s)" and "tr_phase (st_transfers s ! i) = AwaitResponse batch"
  shows "batch \<in> set (fetching s)"
  using assms nth_mem [OF assms(1)] by (auto simp: fetching_def intro!: bexI [of _ "st_transfers s ! i"])

lemma simulate_run:
  assumes ok: "sys_ok libs lhm cs" and rel: "stands_for limit cs s" and env: "env_libs env = libs" "env_lhm env = lhm"
    and i: "i < length (st_transfers s)" "tr_phase (st_transfers s ! i) = Running"
    and run: "transfer_run env (st_transfers s ! i) (st_cache s) = (t', cache')"
  shows "\<exists>cs'. (cache_step libs lhm)\<^sup>*\<^sup>* cs cs'
     \<and> stands_for limit cs' \<lparr>st_cache = cache', st_transfers = (st_transfers s)[i := t']\<rparr>"
proof -
  have cache: "st_cache s = sys_cache cs" and limit: "rc_max_size (cc_raw_cache (sys_cache cs)) = limit"
    using rel by (simp_all add: stands_for_def)
  note update = stands_for_update [OF rel i(1), unfolded i(2), simplified]
  from run show ?thesis
  proof (cases rule: transfer_run_cache)
    case same
    have "e < cc_next_event (sys_cache cs)" if "cc_pending_chunks (sys_cache cs) k = Some e" for k e
      using that ok by (auto simp: sys_ok_def)
    then have "waits_below (cc_next_event (sys_cache cs)) (tr_phase t')"
      using same(3) cache by (cases "tr_phase t'") (auto simp: list_all_iff)
    with same limit cache show ?thesis by (intro exI [of _ cs] conjI update) simp_all
  next
    case marked
    then have "fetched (tr_phase t') = []" "waits_below n (tr_phase t')" for n by (cases "tr_phase t'"; simp)+
    with marked limit cache show ?thesis
      by (intro exI [of _ "cs\<lparr>sys_cache := mark_dirty (sys_cache cs)\<rparr>"] conjI update)
        (simp_all add: mark_dirty_def cache_step.dirty [unfolded mark_dirty_def] r_into_rtranclp)
  next
    case (requested keys out batch keys' out')
    let ?cs = "cs\<lparr>sys_cache := cache', sys_batches := batch # sys_batches cs\<rparr>"
    note b = requested(1) [unfolded env cache]
    have step: "cache_step libs lhm cs ?cs" using b by (rule cache_step.request) simp
    have next_event: "cc_next_event (sys_cache cs) \<le> cc_next_event cache'" "cc_raw_cache cache' = cc_raw_cache (sys_cache cs)"
      using get_chunks_batched_cases [OF b] by simp_all
    from requested(2) show ?thesis
    proof
      assume "tr_phase t' = AwaitResponse batch"
      with step next_event limit cache show ?thesis by (intro exI [of _ ?cs] conjI update) auto
    next
      assume failed: "failed (tr_phase t')"
      let ?cs' = "?cs\<lparr>sys_batches := remove1 batch (sys_batches ?cs), sys_dropped := batch # sys_dropped ?cs\<rparr>"
      have "cache_step libs lhm ?cs ?cs'" by (rule cache_step.dropped) simp
      with step have "(cache_step libs lhm)\<^sup>*\<^sup>* cs ?cs'" by (meson r_into_rtranclp rtranclp.rtrancl_into_rtrancl)
      with failed next_event limit cache show ?thesis by (intro exI [of _ ?cs'] conjI update) simp_all
    qed
  qed
qed

lemma simulate_response:
  assumes lhm: "linked_hash_map lhm" and vecs: "vecs_ok env" and small: "unat limit \<le> 2 ^ 63"
    and ok: "sys_ok libs lhm cs" and rel: "stands_for limit cs s" and env: "env_libs env = libs" "env_lhm env = lhm"
    and i: "i < length (st_transfers s)" "tr_phase (st_transfers s ! i) = AwaitResponse batch"
    and run: "transfer_response env (st_transfers s ! i) batch recv_stream (st_cache s) = (t', rest, cache')"
  shows "\<exists>cs'. (cache_step libs lhm)\<^sup>*\<^sup>* cs cs'
     \<and> stands_for limit cs' \<lparr>st_cache = cache', st_transfers = (st_transfers s)[i := t']\<rparr>"
proof -
  have cache: "st_cache s = sys_cache cs" and limit: "rc_max_size (cc_raw_cache (sys_cache cs)) = limit"
    and "mset (sys_batches cs) = mset (fetching s)" using rel by (simp_all add: stands_for_def)
  with fetching_member [OF i] have batch: "batch \<in> set (sys_batches cs)" by (metis mset_eq_setD)
  note update = stands_for_update [OF rel i(1), unfolded i(2), simplified]
  from run show ?thesis
  proof (cases rule: transfer_response_cache)
    case fails
    let ?cs = "cs\<lparr>sys_batches := remove1 batch (sys_batches cs), sys_dropped := batch # sys_dropped cs\<rparr>"
    have "cache_step libs lhm cs ?cs" using batch by (rule cache_step.dropped)
    with fails batch limit cache show ?thesis by (intro exI [of _ ?cs] conjI update) auto
  next
    case (fulfils data response)
    let ?cs = "cs\<lparr>sys_cache := cache', sys_batches := remove1 batch (sys_batches cs)\<rparr>"
    note f = fulfils(2,3) [unfolded env cache]
    have "list_all (\<lambda>chunk. unat (rc_max_size (cc_raw_cache (sys_cache cs))) + length chunk < 2 ^ 64) (sent_chunks response)"
      using vecs fulfils(1) small unfolding limit by (fastforce simp: vecs_ok_def list_all_iff)
    note chunks = f(2) this
    then have step: "cache_step libs lhm cs ?cs" by (rule cache_step.fulfilled [OF batch _ _ f(1)])
    have raw: "raw_ok lhm (cc_raw_cache (sys_cache cs))" using ok by (simp add: sys_ok_def)
    from linked_hash_map.fulfill_spec [OF lhm raw list_all2_lengthD [OF chunks(1)] chunks(2)] f(1)
    have "rc_max_size (cc_raw_cache cache') = limit" "cc_next_event cache' = cc_next_event (sys_cache cs)"
      using limit by auto
    with fulfils(4) step batch cache show ?thesis by (intro exI [of _ ?cs] conjI update) auto
  qed
qed

lemma simulate_resume:
  assumes rel: "stands_for limit cs s"
    and i: "i < length (st_transfers s)" "tr_phase (st_transfers s ! i) = AwaitEvents ps"
    and run: "transfer_resume env (st_transfers s ! i) ps (st_cache s) = t'"
  shows "stands_for limit cs \<lparr>st_cache = st_cache s, st_transfers = (st_transfers s)[i := t']\<rparr>"
proof -
  have phase: "fetched (tr_phase t') = []" "waits_below n (tr_phase t')" for n
    using transfer_resume_phase [OF run] by auto
  show ?thesis using rel by (intro stands_for_update [OF rel i(1)]) (simp_all add: i(2) phase stands_for_def)
qed

text \<open>
  What the client process is started with: a cache, new or loaded from the file, that no task
  has used yet.
\<close>

definition client_ok :: "('m, 'io) ClientEnv \<Rightarrow> 'm ChunkCache \<Rightarrow> bool" where
  "client_ok env cache \<longleftrightarrow> linked_hash_map (env_lhm env) \<and> vecs_ok env
     \<and> unat (rc_max_size (cc_raw_cache cache)) \<le> 2 ^ 63
     \<and> raw_ok (env_lhm env) (cc_raw_cache cache)
     \<and> valid_entries (env_libs env) (cached (env_lhm env) (cc_raw_cache cache))
     \<and> cc_pending_chunks cache = Map.empty \<and> cc_next_event cache = 0 \<and> cc_closed cache = []"

definition CacheSystem_start :: "'m ChunkCache \<Rightarrow> 'm CacheSystem" where
  "CacheSystem_start cache = \<lparr>sys_cache = cache, sys_batches = [], sys_dropped = []\<rparr>"

abbreviation limit_of :: "'m ChunkCache \<Rightarrow> u64" where
  "limit_of cache \<equiv> rc_max_size (cc_raw_cache cache)"

lemma simulate_step:
  assumes client: "client_ok env cache" and ok: "sys_ok (env_libs env) (env_lhm env) cs"
    and rel: "stands_for (limit_of cache) cs s" and step: "shared_step env send_ok U s s'"
  shows "\<exists>cs'. (cache_step (env_libs env) (env_lhm env))\<^sup>*\<^sup>* cs cs' \<and> stands_for (limit_of cache) cs' s'"
  using step
proof cases
  case task
  then show ?thesis
  proof cases
    case (task_runs i t t' cache')
    note run = task_runs(4,5) [unfolded task_runs(3)]
    from simulate_run [OF ok rel task_env_select(2,3) task_runs(2) run] show ?thesis by (simp add: task_runs(1))
  next
    case (task_responds i t batch recv_stream t' recv_stream' cache')
    note run = task_responds(4,5) [unfolded task_responds(3)]
    have "linked_hash_map (env_lhm env)" "vecs_ok (task_env env send_ok i)" "unat (limit_of cache) \<le> 2 ^ 63"
      using client by (simp_all add: client_ok_def vecs_ok_def)
    from simulate_response [OF this ok rel task_env_select(2,3) task_responds(2) run] show ?thesis
      by (simp add: task_responds(1))
  next
    case (task_resumes i t ps t')
    note run = task_resumes(4,6) [unfolded task_resumes(3)]
    from simulate_resume [OF rel task_resumes(2) run] show ?thesis by (auto simp: task_resumes(1))
  qed
next
  case (spawned send_stream recv_stream t rest)
  have "tr_phase t = Running" using transfer_begin_start [OF spawned(2)] by simp
  then have "stands_for (limit_of cache) cs s'" using rel spawned(1) by (auto simp: stands_for_def fetching_def)
  then show ?thesis by blast
next
  case (saved zstd io path fs result cache' fs')
  let ?cs = "cs\<lparr>sys_cache := cache'\<rparr>"
  have same: "sys_cache cs = st_cache s" using rel by (simp add: stands_for_def)
  then have "cache_step (env_libs env) (env_lhm env) cs ?cs" using saved(2) by (intro cache_step.save) simp
  moreover have "stands_for (limit_of cache) ?cs s'"
    using rel try_save_inner [OF saved(2)] by (simp add: saved(1) stands_for_def fetching_def)
  ultimately show ?thesis by blast
qed

lemma reachable_stands_for:
  assumes client: "client_ok env cache"
    and reach: "(shared_step env send_ok U)\<^sup>*\<^sup>* (SharedTransfers_new cache) s"
  shows "\<exists>cs. (cache_step (env_libs env) (env_lhm env))\<^sup>*\<^sup>* (CacheSystem_start cache) cs
     \<and> sys_ok (env_libs env) (env_lhm env) cs \<and> stands_for (limit_of cache) cs s"
  using reach
proof (induction rule: rtranclp_induct)
  case base
  have "stands_for (limit_of cache) (CacheSystem_start cache) (SharedTransfers_new cache)"
    by (simp add: stands_for_def CacheSystem_start_def SharedTransfers_new_def fetching_def)
  moreover have "sys_ok (env_libs env) (env_lhm env) (CacheSystem_start cache)"
    using client by (simp add: client_ok_def sys_ok_def CacheSystem_start_def handed_out_def batches_ok_def)
  ultimately show ?case by blast
next
  case (step s s')
  then obtain cs where cs: "(cache_step (env_libs env) (env_lhm env))\<^sup>*\<^sup>* (CacheSystem_start cache) cs"
    "sys_ok (env_libs env) (env_lhm env) cs" "stands_for (limit_of cache) cs s" by blast
  from simulate_step [OF client cs(2,3) step(2)] obtain cs' where
    cs': "(cache_step (env_libs env) (env_lhm env))\<^sup>*\<^sup>* cs cs'" "stands_for (limit_of cache) cs' s'" by blast
  moreover have "sys_ok (env_libs env) (env_lhm env) cs'"
    using linked_hash_map.sys_ok_steps [OF _ cs'(1) cs(2)] client by (simp add: client_ok_def)
  ultimately show ?case using cs(1) by (meson rtranclp_trans)
qed

section \<open>Each task for itself\<close>

lemma reachable_cache_valid:
  assumes "client_ok env cache" and "(shared_step env send_ok U)\<^sup>*\<^sup>* (SharedTransfers_new cache) s"
  shows "store_valid (env_libs env) (look (env_lhm env) (st_cache s))"
proof -
  from reachable_stands_for [OF assms] obtain cs where
    "sys_ok (env_libs env) (env_lhm env) cs" "stands_for (limit_of cache) cs s" by blast
  then have "valid_entries (env_libs env) (cached (env_lhm env) (cc_raw_cache (st_cache s)))"
    by (simp add: sys_ok_def stands_for_def)
  moreover have "look (env_lhm env) (st_cache s) = map_of (cached (env_lhm env) (cc_raw_cache (st_cache s)))"
    using assms(1) by (intro ext linked_hash_map.raw_get) (simp add: client_ok_def)
  ultimately show ?thesis by (simp add: valid_entries_store)
qed

text \<open>A step of the whole is a step, in the sense of \<open>Client_Transfer\<close>, of one task.\<close>

lemma task_step_one:
  assumes "task_step env send_ok U s s'" and "store_valid (env_libs env) (look (env_lhm env) (st_cache s))"
  obtains i t' where "i < length (st_transfers s)" and "st_transfers s' = (st_transfers s)[i := t']"
    and "transfer_step (task_env env send_ok i) U (st_transfers s ! i) t'"
  using assms(1)
proof cases
  case (task_runs i t t' cache')
  then have "transfer_step (task_env env send_ok i) U (st_transfers s ! i) t'"
    using assms(2) by (intro transfer_runs) simp_all
  with that task_runs show ?thesis by simp
next
  case (task_responds i t batch recv_stream t' recv_stream' cache')
  then have "transfer_step (task_env env send_ok i) U (st_transfers s ! i) t'"
    by (intro transfer_responds) simp_all
  with that task_responds show ?thesis by simp
next
  case (task_resumes i t ps t')
  then have "transfer_step (task_env env send_ok i) U (st_transfers s ! i) t'"
    using assms(2) by (intro transfer_resumes) simp_all
  with that task_resumes show ?thesis by simp
qed

lemma transfer_step_ready: "transfer_step env U t t' \<Longrightarrow> tr_world_ready t' = tr_world_ready t"
proof (induction rule: transfer_step.induct)
  case (transfer_runs t cache t' cache')
  then show ?case
    by (auto simp: transfer_run_def Let_def split: sum.splits list.splits prod.splits if_splits BatchStep.splits)
next
  case (transfer_responds t batch recv_stream cache t' recv_stream' cache')
  then show ?case by (auto simp: transfer_response_def split: sum.splits prod.splits)
next
  case (transfer_resumes t ps cache t')
  then show ?case by (auto simp: transfer_resume_def split: sum.splits)
qed

text \<open>Every task has begun with an announcement and made steps of its own since.\<close>

definition task_ran :: "('m, 'io) ClientEnv \<Rightarrow> bytes set \<Rightarrow> 'io Transfer \<Rightarrow> bool" where
  "task_ran env U t \<longleftrightarrow> (\<exists>send_stream recv_stream t0 rest. transfer_begin env send_stream recv_stream = Inr (Some (t0, rest))
     \<and> tr_world_ready t0 = tr_world_ready t \<and> (transfer_step env U)\<^sup>*\<^sup>* t0 t)"

lemma task_ran_step: "task_ran env U t \<Longrightarrow> transfer_step env U t t' \<Longrightarrow> task_ran env U t'"
  unfolding task_ran_def by (metis rtranclp.rtrancl_into_rtrancl transfer_step_ready)

lemma reachable_task_ran:
  assumes client: "client_ok env cache"
    and reach: "(shared_step env send_ok U)\<^sup>*\<^sup>* (SharedTransfers_new cache) s"
  shows "\<forall>i < length (st_transfers s). task_ran (task_env env send_ok i) U (st_transfers s ! i)"
  using reach
proof (induction rule: rtranclp_induct)
  case base
  show ?case by (simp add: SharedTransfers_new_def)
next
  case (step s s')
  from step(2) show ?case
  proof cases
    case task
    from task_step_one [OF task reachable_cache_valid [OF client step(1)]] obtain j t' where
      "j < length (st_transfers s)" "st_transfers s' = (st_transfers s)[j := t']"
      "transfer_step (task_env env send_ok j) U (st_transfers s ! j) t'" .
    then show ?thesis using step(3) task_ran_step [of "task_env env send_ok j" U "st_transfers s ! j" t']
      by (simp add: nth_list_update)
  next
    case (spawned send_stream recv_stream t rest)
    then have "task_ran (task_env env send_ok (length (st_transfers s))) U t" by (auto simp: task_ran_def)
    with spawned step(3) show ?thesis by (auto simp: nth_append less_Suc_eq)
  next
    case (saved zstd io path fs result cache' fs')
    with step(3) show ?thesis by simp
  qed
qed

section \<open>Progress\<close>

lemma sum_list_update_less:
  fixes f :: "'a \<Rightarrow> nat"
  shows "i < length xs \<Longrightarrow> f x < f (xs ! i) \<Longrightarrow> sum_list (map f (xs[i := x])) < sum_list (map f xs)"
proof (induction xs arbitrary: i)
  case (Cons y xs)
  then show ?case by (cases i) simp_all
qed simp

lemma task_steps_bounded:
  assumes client: "client_ok env cache"
    and reach: "(shared_step env send_ok U)\<^sup>*\<^sup>* (SharedTransfers_new cache) s"
  shows "(task_step env send_ok U ^^ k) s s' \<Longrightarrow>
    (shared_step env send_ok U)\<^sup>*\<^sup>* (SharedTransfers_new cache) s'
    \<and> sum_list (map transfer_measure (st_transfers s')) + k \<le> sum_list (map transfer_measure (st_transfers s))"
proof (induction k arbitrary: s')
  case (Suc k)
  then obtain s1 where "(task_step env send_ok U ^^ k) s s1" and step: "task_step env send_ok U s1 s'" by auto
  from Suc.IH [OF this(1)] have
    reach1: "(shared_step env send_ok U)\<^sup>*\<^sup>* (SharedTransfers_new cache) s1"
    and sum: "sum_list (map transfer_measure (st_transfers s1)) + k \<le> sum_list (map transfer_measure (st_transfers s))"
    by blast+
  from task_step_one [OF step reachable_cache_valid [OF client reach1]] obtain i t' where
    i: "i < length (st_transfers s1)" "st_transfers s' = (st_transfers s1)[i := t']"
    "transfer_step (task_env env send_ok i) U (st_transfers s1 ! i) t'" .
  have "sum_list (map transfer_measure (st_transfers s')) < sum_list (map transfer_measure (st_transfers s1))"
    unfolding i(2) by (rule sum_list_update_less [OF i(1) transfer_measure_step [OF i(3)]])
  with sum reach1 step show ?case by (auto intro: rtranclp.rtrancl_into_rtrancl shared_step.task)
qed (use reach in simp)

text \<open>
  As long as no task has failed, a task that waits for events can go on, or another task is
  fetching what it waits for.
\<close>

lemma waiting_is_served:
  assumes client: "client_ok env cache"
    and reach: "(shared_step env send_ok U)\<^sup>*\<^sup>* (SharedTransfers_new cache) s"
    and healthy: "\<forall>t \<in> set (st_transfers s). \<not> failed (tr_phase t)"
    and t: "t \<in> set (st_transfers s)" "tr_phase t = AwaitEvents ps"
  shows "events_closed (st_cache s) ps
     \<or> (\<exists>t' \<in> set (st_transfers s). \<exists>batch. tr_phase t' = AwaitResponse batch \<and> br_event batch \<in> snd ` set ps)"
proof -
  from reachable_stands_for [OF client reach] obtain cs where
    ok: "sys_ok (env_libs env) (env_lhm env) cs" and rel: "stands_for (limit_of cache) cs s" by blast
  have "sys_dropped cs = []" using rel healthy by (auto simp: stands_for_def)
  moreover have "set (sys_batches cs) = set (fetching s)" using rel by (auto simp: stands_for_def dest: mset_eq_setD)
  ultimately have out: "set (handed_out cs) = set (fetching s)" by (simp add: handed_out_def)
  have "set (cc_closed (st_cache s)) \<union> br_event ` set (fetching s) = {..<cc_next_event (st_cache s)}"
    using ok rel out by (simp add: sys_ok_def stands_for_def)
  moreover have "\<forall>(k, e) \<in> set ps. e < cc_next_event (st_cache s)"
    using rel t by (fastforce simp: stands_for_def list_all_iff)
  ultimately have "\<forall>(k, e) \<in> set ps. e \<in> set (cc_closed (st_cache s)) \<or> e \<in> br_event ` set (fetching s)" by blast
  then consider "events_closed (st_cache s) ps" | k batch where "(k, br_event batch) \<in> set ps" "batch \<in> set (fetching s)"
    unfolding events_closed_def list_all_iff by blast
  then show ?thesis
  proof cases
    case 2
    then obtain t' where "t' \<in> set (st_transfers s)" "batch \<in> set (fetched (tr_phase t'))"
      by (auto simp: fetching_def)
    moreover from this have "tr_phase t' = AwaitResponse batch" by (cases "tr_phase t'") simp_all
    ultimately show ?thesis using 2(1) by force
  qed blast
qed

lemma task_can_step:
  assumes i: "i < length (st_transfers s)"
    and "tr_phase (st_transfers s ! i) = Running \<or> (\<exists>batch. tr_phase (st_transfers s ! i) = AwaitResponse batch)
      \<or> (\<exists>ps. tr_phase (st_transfers s ! i) = AwaitEvents ps \<and> events_closed (st_cache s) ps)"
  shows "\<exists>s'. task_step env send_ok UNIV s s'"
  using assms(2)
proof (elim disjE exE conjE)
  assume "tr_phase (st_transfers s ! i) = Running"
  then show ?thesis using task_runs [OF i refl _ _ subset_UNIV] by (metis surj_pair)
next
  fix batch assume "tr_phase (st_transfers s ! i) = AwaitResponse batch"
  then show ?thesis using task_responds [OF i refl _ _ subset_UNIV] by (metis prod_cases3)
next
  fix ps assume "tr_phase (st_transfers s ! i) = AwaitEvents ps" "events_closed (st_cache s) ps"
  then show ?thesis using task_resumes [OF i refl _ _ refl subset_UNIV] by blast
qed

section \<open>Properties\<close>

text \<open>
  C12. The tasks use the cache as its contract says. Whatever transfers share a cache, in
  whatever order they run, whatever the server sends them and wherever they fail: what they
  have done to the cache is a run of the system of \<open>Cache_Sharing\<close>, in which the batches being
  fetched are those of the tasks that await a response, and a batch was dropped only if a task
  has failed. So all that is proved of that system holds of them.
\<close>

theorem shared_transfers_refine_cache:
  assumes "client_ok env cache"
    and "(shared_step env send_ok U)\<^sup>*\<^sup>* (SharedTransfers_new cache) s"
  shows "\<exists>cs. (cache_step (env_libs env) (env_lhm env))\<^sup>*\<^sup>* (CacheSystem_start cache) cs
     \<and> sys_cache cs = st_cache s \<and> mset (sys_batches cs) = mset (fetching s)
     \<and> (sys_dropped cs \<noteq> [] \<longrightarrow> (\<exists>t \<in> set (st_transfers s). failed (tr_phase t)))"
  using reachable_stands_for [OF assms] by (auto simp: stands_for_def)

text \<open>
  C5. Sharing is safe for every peer: in every interleaving of the transfers of all peers over
  one cache, a task that returns without an error has sent its peer the world that was
  announced to that peer, although most of the chunks may have been fetched by other tasks.
\<close>

theorem shared_transfers_deliver:
  assumes "client_ok env cache" and "crc_crate (env_crc env) poly"
    and "(shared_step env send_ok U)\<^sup>*\<^sup>* (SharedTransfers_new cache) s"
    and "i < length (st_transfers s)" and "st_transfers s ! i = t" and "tr_phase t = Returned (Inr ())"
    and "deconstruct_world (env_libs env) world aux = Inr (wm_world (tr_world_ready t), store)"
    and "zip_archive (env_libs env) world = Inr (map (\<lambda>(n, c). Inr (n, Inr c)) fs)"
    and "sizes_ok (tr_world_ready t) fs"
    and "inj_on (blake3_hash (env_libs env)) (set (concat (map (file_chunks (env_libs env)) fs)) \<union> U)"
  shows "world_sent env (tr_world_ready t) fs (concat (tr_world_data t))"
proof -
  from reachable_task_ran [OF assms(1,3)] assms(4,5) obtain send_stream recv_stream t0 rest where
    run: "transfer_begin (task_env env send_ok i) send_stream recv_stream = Inr (Some (t0, rest))"
      "tr_world_ready t0 = tr_world_ready t" "(transfer_step (task_env env send_ok i) U)\<^sup>*\<^sup>* t0 t"
    unfolding task_ran_def by blast
  have "list_all2 (describes (env_libs env)) fs (wd_files (wm_world (tr_world_ready t)))"
    using deconstruct_world_spec [OF assms(7)] assms(8) by (auto simp: members_inject)
  with transfer_ok_steps [of "task_env env send_ok i", unfolded task_env_select, OF assms(2,9,10) run(1,2) _ run(3)] assms(6)
  have "world_sent (task_env env send_ok i) (tr_world_ready t) fs (concat (tr_world_data t))"
    by (simp add: transfer_ok_def)
  then show ?thesis by (simp add: world_sent_def)
qed

text \<open>
  C6. The transfers cannot block each other for ever. From any state that they reach, all
  tasks together make no more steps than the sum of their bounds (twice the chunks that a task
  has left, and two more); and where no task can go on, even with every outstanding response
  or error of the stream delivered, all tasks have returned, unless one of them has failed.
\<close>

theorem shared_transfers_finish:
  assumes "client_ok env cache"
    and "(shared_step env send_ok UNIV)\<^sup>*\<^sup>* (SharedTransfers_new cache) s"
    and "(task_step env send_ok UNIV ^^ k) s s'"
  shows "k \<le> sum_list (map transfer_measure (st_transfers s))
     \<and> ((\<nexists>s''. task_step env send_ok UNIV s' s'') \<longrightarrow>
          (\<forall>t \<in> set (st_transfers s'). returned (tr_phase t)) \<or> (\<exists>t \<in> set (st_transfers s'). failed (tr_phase t)))"
proof -
  note run = task_steps_bounded [OF assms]
  have "returned (tr_phase t)" if stuck: "\<nexists>s''. task_step env send_ok UNIV s' s''"
    and healthy: "\<forall>t \<in> set (st_transfers s'). \<not> failed (tr_phase t)" and t: "t \<in> set (st_transfers s')" for t
  proof -
    have idle: "tr_phase t' \<noteq> Running \<and> (\<forall>batch. tr_phase t' \<noteq> AwaitResponse batch)
        \<and> (\<forall>ps. tr_phase t' = AwaitEvents ps \<longrightarrow> \<not> events_closed (st_cache s') ps)"
      if "t' \<in> set (st_transfers s')" for t'
      using that stuck task_can_step by (metis in_set_conv_nth)
    from waiting_is_served [OF assms(1) conjunct1 [OF run] healthy t] idle t show ?thesis
      by (cases "tr_phase t") auto
  qed
  with run show ?thesis by auto
qed

section \<open>An example\<close>

text \<open>A session is a run of one task over the shared cache.\<close>

lemma session_shared:
  assumes lhm: "linked_hash_map (env_lhm env)" and crc: "crc_crate (env_crc env) poly"
    and sizes: "sizes_ok wm fs" and fields: "fields_ok (env_libs env) fs" and rel: "reliable env"
    and inj: "inj_on (blake3_hash (env_libs env)) (set (concat (map (file_chunks (env_libs env)) fs)) \<union> U)"
    and srv: "server_holds (env_libs env) store U"
  shows "session_ok env wm fs store U t cache consumed \<Longrightarrow> session n env store t cache consumed = (t', cache') \<Longrightarrow>
    (task_step env (\<lambda>_. env_send_ok env) U)\<^sup>*\<^sup>* \<lparr>st_cache = cache, st_transfers = [t]\<rparr> \<lparr>st_cache = cache', st_transfers = [t']\<rparr>"
proof (induction n arbitrary: t cache consumed)
  case (Suc n)
  have env: "task_env env (\<lambda>_. env_send_ok env) 0 = env" by (simp add: task_env_def)
  show ?case
  proof (cases "tr_phase t")
    case Running
    obtain t1 cache1 where run: "transfer_run env t cache = (t1, cache1)" by fastforce
    from session_run_ok [OF lhm crc sizes fields rel inj srv Suc.prems(1) Running run]
    have step: "transfer_step env U t t1"
      and out: "session_outcome env wm fs t1 \<or> session_ok env wm fs store U t1 cache1 consumed" by blast+
    have "task_step env (\<lambda>_. env_send_ok env) U \<lparr>st_cache = cache, st_transfers = [t]\<rparr>
        \<lparr>st_cache = cache1, st_transfers = [t1]\<rparr>"
      using task_runs [of 0 "\<lparr>st_cache = cache, st_transfers = [t]\<rparr>" t env "\<lambda>_. env_send_ok env" t1 cache1 U]
        Running run transfer_step_bound [OF step] by (simp add: env)
    moreover have "(task_step env (\<lambda>_. env_send_ok env) U)\<^sup>*\<^sup>* \<lparr>st_cache = cache1, st_transfers = [t1]\<rparr>
        \<lparr>st_cache = cache', st_transfers = [t']\<rparr>"
      using out
    proof
      assume "session_outcome env wm fs t1"
      then have "\<exists>r. tr_phase t1 = Returned r" by (auto simp: session_outcome_def split: if_splits)
      then show ?thesis using Suc.prems(2) by (auto simp: Running run session_returned)
    next
      assume "session_ok env wm fs store U t1 cache1 consumed"
      from Suc.IH [OF this] Suc.prems(2) show ?thesis by (simp add: Running run)
    qed
    ultimately show ?thesis by (rule converse_rtranclp_into_rtranclp)
  next
    case (AwaitResponse batch)
    from session_respond_ok [OF lhm crc sizes rel inj srv Suc.prems(1) AwaitResponse] obtain answers t1 cache1 where
      run: "serve_requests (env_messages env) append_all store [] (tr_send_stream t) [] = Inr answers"
      "transfer_response env t batch (drop consumed answers) cache = (t1, [], cache1)"
      and step: "transfer_step env U t t1" and ok: "session_ok env wm fs store U t1 cache1 (length answers)" by blast
    have "task_step env (\<lambda>_. env_send_ok env) U \<lparr>st_cache = cache, st_transfers = [t]\<rparr>
        \<lparr>st_cache = cache1, st_transfers = [t1]\<rparr>"
      using task_responds [of 0 "\<lparr>st_cache = cache, st_transfers = [t]\<rparr>" t batch env "\<lambda>_. env_send_ok env"
          "drop consumed answers" t1 "[]" cache1 U]
        AwaitResponse run(2) transfer_step_bound [OF step] by (simp add: env)
    with Suc.IH [OF ok] Suc.prems(2) show ?thesis
      by (simp add: AwaitResponse run converse_rtranclp_into_rtranclp del: serve_requests.simps)
  qed (use Suc.prems(1) in \<open>simp_all add: session_ok_def\<close>)
qed simp

lemma plain_items_length: "plain_items n bs = Inr items \<Longrightarrow> \<forall>item \<in> set items. length item < 2 ^ 63"
proof (induction n bs arbitrary: items rule: plain_items.induct)
  case (2 n bs)
  have "length (take (unat len) bs') < 2 ^ 63" for len :: u32 and bs' :: bytes
  proof -
    have "unat len < 2 ^ 32" by (rule order.strict_trans2 [OF unsigned_less]) simp
    then show ?thesis by simp
  qed
  with 2 show ?case by (fastforce simp: case_Inr_iff split: sum.splits prod.splits)
qed simp

lemma example_client_ok: "client_ok example_env example_new_cache"
proof -
  have "vecs_ok example_env"
    by (auto simp: vecs_ok_def example_env_def example_messages_def plain_libs_def decode_message_async_def
        decode_message_def plain_read_def split: sum.splits prod.splits dest: plain_items_length)
  moreover have "limit_of example_new_cache = 1000" "cc_next_event example_new_cache = 0" "cc_closed example_new_cache = []"
    by (simp_all add: example_new_cache_def ChunkCache_new_def RawChunkCache_new_def)
  ultimately show ?thesis
    using example_cache_ok list_map.linked_hash_map_axioms
    by (simp add: client_ok_def session_cache_ok_def example_env_select valid_entries_def)
qed

lemma example_shared:
  "\<exists>s t. (shared_step example_env (\<lambda>_ _. True) {[1, 2, 3], [4, 5]})\<^sup>*\<^sup>* (SharedTransfers_new example_new_cache) s
     \<and> st_transfers s = [t] \<and> tr_world_ready t = example_ready \<and> tr_phase t = Returned (Inr ())"
proof -
  let ?U = "{[1, 2, 3], [4, 5]} :: bytes set"
  from example_session(4) obtain t0 where t0: "transfer_begin example_env [] (frame [0, 0, 0, 0]) = Inr (Some (t0, []))"
    "tr_world_ready t0 = example_ready"
    "session_ok example_env example_ready example_files example_store ?U t0 example_new_cache 0" by blast
  obtain t cache where run: "session (transfer_measure t0) example_env example_store t0 example_new_cache 0 = (t, cache)"
    by fastforce
  have env: "env_send_ok example_env = (\<lambda>_. True)" "task_env example_env (\<lambda>_ _. True) i = example_env" for i
    by (simp_all add: example_env_def task_env_def)
  have "shared_step example_env (\<lambda>_ _. True) ?U (SharedTransfers_new example_new_cache)
      \<lparr>st_cache = example_new_cache, st_transfers = [t0]\<rparr>"
    using spawned [of example_env "\<lambda>_ _. True" "SharedTransfers_new example_new_cache" "[]" "frame [0, 0, 0, 0]" t0 "[]"] t0(1)
    by (simp add: env SharedTransfers_new_def)
  moreover have "(task_step example_env (\<lambda>_. env_send_ok example_env) ?U)\<^sup>*\<^sup>*
      \<lparr>st_cache = example_new_cache, st_transfers = [t0]\<rparr> \<lparr>st_cache = cache, st_transfers = [t]\<rparr>"
    using example_sizes list_map.linked_hash_map_axioms
    by (intro session_shared [OF _ example_session(1) _ _ example_reliable example_session(3,2) t0(3) run])
      (simp_all add: example_env_select)
  then have "(shared_step example_env (\<lambda>_ _. True) ?U)\<^sup>*\<^sup>*
      \<lparr>st_cache = example_new_cache, st_transfers = [t0]\<rparr> \<lparr>st_cache = cache, st_transfers = [t]\<rparr>"
    unfolding env by (rule rtranclp_mono [THEN predicate2D, rotated]) (auto intro: shared_step.task)
  moreover have "(transfer_step example_env ?U)\<^sup>*\<^sup>* t0 t" "tr_phase t = Returned (Inr ())"
    using example_session_end [OF t0(3)] example_sizes(3) by (simp_all add: run session_outcome_def example_env_select)
  moreover from this(1) have "tr_world_ready t = tr_world_ready t0"
    by (induction rule: rtranclp_induct) (simp_all add: transfer_step_ready)
  ultimately show ?thesis using t0(2)
    by (intro exI [of _ "\<lparr>st_cache = cache, st_transfers = [t]\<rparr>"] exI [of _ t])
      (simp add: converse_rtranclp_into_rtranclp)
qed

theorem shared_transfers_refine_cache_witness:
  "\<exists>s cs. (shared_step example_env (\<lambda>_ _. True) {[1, 2, 3], [4, 5]})\<^sup>*\<^sup>* (SharedTransfers_new example_new_cache) s
     \<and> (cache_step example_libs list_map)\<^sup>*\<^sup>* (CacheSystem_start example_new_cache) cs
     \<and> sys_cache cs = st_cache s \<and> sys_batches cs = [] \<and> sys_dropped cs = []"
proof -
  from example_shared obtain s t where
    s: "(shared_step example_env (\<lambda>_ _. True) {[1, 2, 3], [4, 5]})\<^sup>*\<^sup>* (SharedTransfers_new example_new_cache) s"
    "st_transfers s = [t]" "tr_phase t = Returned (Inr ())" by blast
  from shared_transfers_refine_cache [OF example_client_ok, unfolded example_env_select, OF s(1)] s
  show ?thesis by (fastforce simp: fetching_def)
qed

theorem shared_transfers_deliver_witness:
  "\<exists>s t. (shared_step example_env (\<lambda>_ _. True) {[1, 2, 3], [4, 5]})\<^sup>*\<^sup>* (SharedTransfers_new example_new_cache) s
     \<and> st_transfers s = [t] \<and> world_sent example_env example_ready example_files (concat (tr_world_data t))"
proof -
  from example_shared obtain s t where
    s: "(shared_step example_env (\<lambda>_ _. True) {[1, 2, 3], [4, 5]})\<^sup>*\<^sup>* (SharedTransfers_new example_new_cache) s"
    "st_transfers s = [t]" "tr_world_ready t = example_ready" "tr_phase t = Returned (Inr ())" by blast
  have i: "0 < length (st_transfers s)" "st_transfers s ! 0 = t" by (simp_all add: s(2))
  have dec: "deconstruct_world example_libs [] [9, 9] = Inr (wm_world (tr_world_ready t), example_store)"
    unfolding s(3) example_wm_world by (rule example_deconstruct)
  from shared_transfers_deliver [OF example_client_ok, unfolded example_env_select,
      OF iso_hdlc.crc_crate_axioms s(1) i s(4) dec example_zip _ example_hash] s example_sizes(1)
  show ?thesis by auto
qed

theorem shared_transfers_finish_witness:
  "\<exists>s. (shared_step example_env (\<lambda>_ _. True) UNIV)\<^sup>*\<^sup>* (SharedTransfers_new example_new_cache) s
     \<and> length (st_transfers s) = 1
     \<and> (\<forall>k s'. (task_step example_env (\<lambda>_ _. True) UNIV ^^ k) s s' \<longrightarrow> k \<le> 5
          \<and> ((\<nexists>s''. task_step example_env (\<lambda>_ _. True) UNIV s' s'') \<longrightarrow>
              (\<forall>t \<in> set (st_transfers s'). returned (tr_phase t)) \<or> (\<exists>t \<in> set (st_transfers s'). failed (tr_phase t))))"
proof -
  from example_session(4) obtain t0 where t0: "transfer_begin example_env [] (frame [0, 0, 0, 0]) = Inr (Some (t0, []))"
    "tr_world_ready t0 = example_ready" by blast
  let ?s = "\<lparr>st_cache = example_new_cache, st_transfers = [t0]\<rparr>"
  have env: "task_env example_env (\<lambda>_ _. True) i = example_env" for i by (simp add: example_env_def task_env_def)
  have "shared_step example_env (\<lambda>_ _. True) UNIV (SharedTransfers_new example_new_cache) ?s"
    using spawned [of example_env "\<lambda>_ _. True" "SharedTransfers_new example_new_cache" "[]" "frame [0, 0, 0, 0]" t0 "[]"] t0(1)
    by (simp add: env SharedTransfers_new_def)
  then have reach: "(shared_step example_env (\<lambda>_ _. True) UNIV)\<^sup>*\<^sup>* (SharedTransfers_new example_new_cache) ?s" by blast
  have "transfer_measure t0 = 5"
    using transfer_begin_start [OF t0(1)] t0(2) by (simp add: transfer_measure_def example_wm_world example_desc_def)
  then show ?thesis
    using shared_transfers_finish [OF example_client_ok, unfolded example_env_select, OF reach] reach
    by (intro exI [of _ ?s]) simp
qed

end
