(* ===== verification/Served_Transfers.thy ===== *)
theory Served_Transfers
  imports Shared_Transfers
begin

text \<open>
  The transfers of all peers of a client-side proxy over one cache, as in \<open>Shared_Transfers\<close>,
  against servers that answer and over streams that do not fail, with a cache that has room for
  the chunks in play: no task fails, and every peer gets its world.
\<close>

section \<open>Served transfers\<close>









section \<open>Room in the cache\<close>



section \<open>A task that does not fail\<close>












section \<open>All tasks together\<close>












section \<open>Properties\<close>


section \<open>An example\<close>




end
