(* ===== verification/Cache_Lock.thy ===== *)
theory Cache_Lock
  imports Cache_Sharing
begin

text \<open>
  The mutex around the chunk cache of \<open>src/src/chunk_cache.rs\<close>, with its poisoning: a panic in a
  locked region makes every later \<open>lock().unwrap()\<close> panic. The other theories treat a locked region
  as a step on the state behind the mutex; here the operations are wrapped in it, to show what
  follows when a chunk that is waited for has been evicted.
\<close>

section \<open>The operations under the lock\<close>

record 'm CacheMutex =
  mx_inner :: "'m ChunkCache"
  mx_poisoned :: bool

definition CacheMutex_new :: "'m ChunkCache \<Rightarrow> 'm CacheMutex" where
  "CacheMutex_new inner = \<lparr>mx_inner = inner, mx_poisoned = False\<rparr>"

definition UNWRAP_POISONED :: string where
  "UNWRAP_POISONED = ''called `Result::unwrap()` on an `Err` value: PoisonError { .. }''"

definition is_panic :: "'a outcome \<Rightarrow> bool" where
  "is_panic r = (case r of Inl (Panic _) \<Rightarrow> True | _ \<Rightarrow> False)"

text \<open>A locked region: the guard is dropped at its end, by an unwinding panic too, which poisons the mutex.\<close>

definition locked :: "string \<Rightarrow> 'm CacheMutex \<Rightarrow> ('m ChunkCache \<Rightarrow> 'a outcome \<times> 'm ChunkCache) \<Rightarrow> 'a outcome \<times> 'm CacheMutex" where
  "locked msg mutex region =
     (if mx_poisoned mutex then (Inl (Panic msg), mutex)
      else let (result, inner) = region (mx_inner mutex)
           in (result, \<lparr>mx_inner = inner, mx_poisoned = is_panic result\<rparr>))"

text \<open>The two locked regions of \<open>get_chunks_batched\<close>.\<close>

definition get_chunks_locked ::
    "'m LinkedHashMap \<Rightarrow> 'm CacheMutex \<Rightarrow> ChunkKey list \<Rightarrow> chunk_map \<Rightarrow> nat
       \<Rightarrow> (BatchStep \<times> ChunkKey list \<times> chunk_map) outcome \<times> 'm CacheMutex" where
  "get_chunks_locked lhm mutex chunks_requested chunk_out batch_size =
     locked UNWRAP_POISONED mutex (\<lambda>inner.
       let (step, chunks_requested, chunk_out, inner) = get_chunks_batched lhm inner chunks_requested chunk_out batch_size
       in (Inr (step, chunks_requested, chunk_out), inner))"

definition collect_locked ::
    "'m LinkedHashMap \<Rightarrow> 'm CacheMutex \<Rightarrow> (ChunkKey \<times> nat) list \<Rightarrow> chunk_map \<Rightarrow> chunk_map outcome \<times> 'm CacheMutex" where
  "collect_locked lhm mutex pending_requests chunk_out =
     locked UNWRAP_POISONED mutex (\<lambda>inner. (collect_waited lhm inner pending_requests chunk_out, inner))"

definition mark_dirty_locked :: "'m CacheMutex \<Rightarrow> unit outcome \<times> 'm CacheMutex" where
  "mark_dirty_locked mutex = locked UNWRAP_POISONED mutex (\<lambda>inner. (Inr (), mark_dirty inner))"

definition len_locked :: "'m LinkedHashMap \<Rightarrow> 'm CacheMutex \<Rightarrow> nat outcome \<times> 'm CacheMutex" where
  "len_locked lhm mutex = locked UNWRAP_POISONED mutex (\<lambda>inner. (Inr (ChunkCache_len lhm inner), inner))"

definition total_size_locked :: "'m CacheMutex \<Rightarrow> u64 outcome \<times> 'm CacheMutex" where
  "total_size_locked mutex = locked UNWRAP_POISONED mutex (\<lambda>inner. (Inr (ChunkCache_total_size inner), inner))"

text \<open>\<open>fulfill\<close>: the assertion stands before the lock. Nobody sees the state a panic in the region leaves.\<close>

definition fulfill_locked ::
    "'m LinkedHashMap \<Rightarrow> 'm CacheMutex \<Rightarrow> BatchChunkRequest \<Rightarrow> bytes list \<Rightarrow> unit outcome \<times> 'm CacheMutex" where
  "fulfill_locked lhm mutex self chunks =
     (if length (br_batch_keys self) \<noteq> length chunks then (Inl (Panic ''assertion `left == right` failed''), mutex)
      else locked UNWRAP_POISONED mutex (\<lambda>inner.
        case fulfill lhm inner self chunks of Inl e \<Rightarrow> (Inl e, inner) | Inr inner \<Rightarrow> (Inr (), inner)))"

text \<open>\<open>try_save\<close> has an \<open>expect\<close> in place of the \<open>unwrap\<close>; its region cannot panic.\<close>

definition try_save_locked ::
    "'m LinkedHashMap \<Rightarrow> Zstd \<Rightarrow> SaveIO \<Rightarrow> 'm CacheMutex \<Rightarrow> string \<Rightarrow> files
       \<Rightarrow> unit outcome \<times> 'm CacheMutex \<times> files" where
  "try_save_locked lhm zstd io mutex cache_path fs =
     (if mx_poisoned mutex then (Inl (Panic ''chunk cache poisoned: PoisonError { .. }''), mutex, fs)
      else let (result, inner, fs) = try_save lhm zstd io (mx_inner mutex) cache_path fs
           in (result, mutex\<lparr>mx_inner := inner\<rparr>, fs))"

text \<open>A mutex on which every operation panics, changing neither the cache nor the files.\<close>

definition cache_unusable :: "'m LinkedHashMap \<Rightarrow> 'm CacheMutex \<Rightarrow> bool" where
  "cache_unusable lhm mutex \<longleftrightarrow>
     (\<forall>keys out n. \<exists>msg. get_chunks_locked lhm mutex keys out n = (Inl (Panic msg), mutex))
     \<and> (\<forall>ps out. \<exists>msg. collect_locked lhm mutex ps out = (Inl (Panic msg), mutex))
     \<and> (\<forall>req chunks. \<exists>msg. fulfill_locked lhm mutex req chunks = (Inl (Panic msg), mutex))
     \<and> (\<exists>msg. mark_dirty_locked mutex = (Inl (Panic msg), mutex))
     \<and> (\<exists>msg. len_locked lhm mutex = (Inl (Panic msg), mutex))
     \<and> (\<exists>msg. total_size_locked mutex = (Inl (Panic msg), mutex))
     \<and> (\<forall>zstd io path fs. \<exists>msg. try_save_locked lhm zstd io mutex path fs = (Inl (Panic msg), mutex, fs))"

lemma poisoned_unusable: "mx_poisoned mutex \<Longrightarrow> cache_unusable lhm mutex"
  by (simp add: cache_unusable_def get_chunks_locked_def collect_locked_def fulfill_locked_def mark_dirty_locked_def
      len_locked_def total_size_locked_def try_save_locked_def locked_def)

section \<open>What a batch evicts of itself\<close>

lemma shrink_append: "shrink limit (shrink limit es @ new) = shrink limit (es @ new)"
  by (induction es) auto

lemma shrink_drops: "limit < entries_size new \<Longrightarrow> set (shrink limit (es @ new)) \<subseteq> set (tl new)"
proof (induction es)
  case Nil
  then show ?case by (cases new) (auto dest: subsetD [OF set_shrink])
qed auto

lemma insert_all_shrink:
  "distinct (map fst (es @ new)) \<Longrightarrow> shrink limit es = es \<Longrightarrow> insert_all limit new es = shrink limit (es @ new)"
proof (induction new arbitrary: es)
  case (Cons e new)
  obtain key chunk where e: "e = (key, chunk)" by (cases e)
  let ?es = "shrink limit (es @ [e])"
  have "filter (\<lambda>e. fst e \<noteq> key) es = es" using Cons.prems(1) by (intro filter_True) (auto simp: e)
  then have step: "insert_all limit (e # new) es = insert_all limit new ?es" by (simp add: e bounded_insert_def)
  have "distinct (map fst ?es)" using Cons.prems(1) by (intro distinct_shrink) auto
  moreover have "fst ` set ?es \<subseteq> fst ` set (es @ [e])" by (intro image_mono set_shrink)
  moreover have "fst ` set (es @ [e]) \<inter> fst ` set new = {}" "distinct (map fst new)" using Cons.prems(1) by auto
  ultimately have "distinct (map fst ?es) \<and> distinct (map fst new) \<and> fst ` set ?es \<inter> fst ` set new = {}" by blast
  then have "distinct (map fst (?es @ new))" by simp
  from Cons.IH [OF this] show ?case
    using shrink_append [of limit "es @ [e]" "[]"] by (simp add: step shrink_append)
qed simp

lemma insert_all_evicts:
  assumes "distinct (map fst (es @ new))" and "entries_size es \<le> limit" and "i < length new"
    and "limit < entries_size (drop i new)"
  shows "map_of (insert_all limit new es) (fst (new ! i)) = None"
proof -
  have "insert_all limit new es = shrink limit ((es @ take i new) @ drop i new)"
    using insert_all_shrink [OF assms(1) shrink_fits [OF assms(2)]] by simp
  then have sub: "set (insert_all limit new es) \<subseteq> set (drop (Suc i) new)"
    using shrink_drops [OF assms(4), of "es @ take i new"] by (simp add: tl_drop flip: drop_Suc)
  have "distinct (map fst (drop i new))" using assms(1) by (simp flip: drop_map)
  then have "fst (new ! i) \<notin> fst ` set (drop (Suc i) new)"
    using assms(3) by (simp add: Cons_nth_drop_Suc [symmetric])
  with sub show ?thesis by (auto simp: map_of_eq_None_iff)
qed

section \<open>Properties\<close>

text \<open>
  C38. A chunk can be evicted before a task that waits for it has collected it, a case the code
  does not foresee. In any reachable state of the cache, let a task wait for a chunk that is part
  of a batch another task fetches, and let the chunks of the batch from that one on be together
  larger than the cache. Then the batch is fulfilled without an error, the event the task waits
  for is closed, and collecting panics with the lock held: the mutex is poisoned, and from then
  on every operation on the cache panics, saving it included.
\<close>

theorem evicted_chunk_poisons_cache:
  assumes "linked_hash_map lhm" and "(cache_step libs lhm)\<^sup>*\<^sup>* (CacheSystem_new lhm limit) s"
    and "req \<in> set (sys_batches s)" and "length chunks = length (br_batch_keys req)"
    and "list_all (\<lambda>chunk. unat (rc_max_size (cc_raw_cache (sys_cache s))) + length chunk < 2 ^ 64) chunks"
    and "get_chunks_batched lhm (sys_cache s) keys out n = (Waiting ps, keys', out', cache)" and "0 < n"
    and "i < length chunks" and "br_batch_keys req ! i \<in> set keys"
    and "unat (rc_max_size (cc_raw_cache (sys_cache s))) < length (concat (drop i chunks))"
  shows "\<exists>cache' mutex. fulfill_locked lhm (CacheMutex_new (sys_cache s)) req chunks = (Inr (), CacheMutex_new cache')
     \<and> (br_batch_keys req ! i, br_event req) \<in> set ps \<and> br_event req \<in> set (cc_closed cache')
     \<and> collect_locked lhm (CacheMutex_new cache') ps out'
          = (Inl (Panic ''waited on chunk, but chunk was not put in cache''), mutex)
     \<and> mx_poisoned mutex \<and> cache_unusable lhm mutex"
proof -
  let ?c = "cc_raw_cache (sys_cache s)" and ?new = "zip (br_batch_keys req) chunks" and ?key = "br_batch_keys req ! i"
  from linked_hash_map.sys_ok_steps [OF assms(1,2)] linked_hash_map.sys_ok_new [OF assms(1)]
  have ok: "sys_ok libs lhm s" by blast
  then have raw: "raw_ok lhm ?c" by (simp add: sys_ok_def)
  from linked_hash_map.fulfill_spec [OF assms(1) raw _ assms(5)] assms(4) obtain cache' where
    run: "fulfill lhm (sys_cache s) req chunks = Inr cache'"
    and entries: "cached lhm (cc_raw_cache cache') = insert_all (unat (rc_max_size ?c)) ?new (cached lhm ?c)"
    and closed: "br_event req \<in> set (cc_closed cache')"
    by force
  have key: "?key \<in> set (br_batch_keys req)" using assms(4,8) by simp
  have out: "req \<in> set (handed_out s)" using assms(3) by (simp add: handed_out_def)
  have uncached: "set (br_batch_keys req) \<inter> fst ` set (cached lhm ?c) = {}"
    using sys_ok_handed_out(2) [OF ok out] by auto
  have waits: "(?key, br_event req) \<in> set ps"
  proof -
    have "look lhm (sys_cache s) ?key = None"
      using uncached key by (auto simp: linked_hash_map.raw_get [OF assms(1)] map_of_eq_None_iff)
    then have "?key \<in> fst ` set ps" using get_chunks_batched_cases [OF assms(6,7)] assms(9) by auto
    then show ?thesis
      using get_chunks_batched_cases [OF assms(6,7)] sys_ok_handed_out(1) [OF ok out key] by force
  qed
  have "distinct (br_batch_keys req)"
    using ok out by (auto simp: sys_ok_def batches_ok_def distinct_concat_iff)
  then have "distinct (map fst (cached lhm ?c @ ?new))"
    using uncached raw assms(4) by (auto simp: raw_ok_def)
  moreover have "entries_size (drop i ?new) = length (concat (drop i chunks))"
    using assms(4) by (simp add: entries_size_def length_concat drop_zip flip: map_map)
  ultimately have "map_of (cached lhm (cc_raw_cache cache')) (fst (?new ! i)) = None"
    unfolding entries using raw assms(4,8,10) by (intro insert_all_evicts) (auto simp: raw_ok_def)
  then have "look lhm cache' ?key = None"
    using assms(4,8) by (simp add: linked_hash_map.raw_get [OF assms(1)])
  then have "collect_waited lhm cache' ps out' = Inl (Panic ''waited on chunk, but chunk was not put in cache'')"
    using waits unfolding collect_waited_eq by force
  then show ?thesis using run closed waits assms(4)
    by (auto simp: fulfill_locked_def collect_locked_def locked_def CacheMutex_new_def is_panic_def poisoned_unusable)
qed

section \<open>An example\<close>

text \<open>
  A cache with room for five bytes: one task fetches two chunks of three bytes, another waits for
  both.
\<close>

definition small_batch :: BatchChunkRequest where
  "small_batch = \<lparr>br_event = 0, br_batch_keys = [ChunkKey [1], ChunkKey [2]]\<rparr>"

definition small_system :: "entries CacheSystem" where
  "small_system =
     \<lparr>sys_cache = (ChunkCache_new list_map 5)\<lparr>cc_next_event := 1,
        cc_pending_chunks := [ChunkKey [1] \<mapsto> 0, ChunkKey [2] \<mapsto> 0]\<rparr>,
      sys_batches = [small_batch], sys_dropped = []\<rparr>"

lemmas small_defs = ChunkCache_new_def RawChunkCache_new_def RawChunkCache_get_def list_map_def
  small_batch_def small_system_def CacheSystem_new_def

lemma small_system_reached: "(cache_step example_libs list_map)\<^sup>*\<^sup>* (CacheSystem_new list_map 5) small_system"
proof -
  let ?s = "CacheSystem_new list_map 5"
  have "get_chunks_batched list_map (sys_cache ?s) [ChunkKey [1], ChunkKey [2]] Map.empty 512
      = (Batch small_batch, [], Map.empty, sys_cache small_system)"
    by (simp add: get_chunks_batched_def small_defs)
  from cache_step.request [OF this] have "cache_step example_libs list_map ?s
      (?s\<lparr>sys_cache := sys_cache small_system, sys_batches := [small_batch]\<rparr>)"
    by (simp add: CacheSystem_new_def)
  moreover have "?s\<lparr>sys_cache := sys_cache small_system, sys_batches := [small_batch]\<rparr> = small_system"
    by (simp add: small_defs)
  ultimately show ?thesis by simp
qed

theorem evicted_chunk_poisons_cache_witness:
  "\<exists>cache' mutex. fulfill_locked list_map (CacheMutex_new (sys_cache small_system)) small_batch [[1, 1, 1], [2, 2, 2]]
       = (Inr (), CacheMutex_new cache')
     \<and> collect_locked list_map (CacheMutex_new cache') [(ChunkKey [1], 0), (ChunkKey [2], 0)] Map.empty
       = (Inl (Panic ''waited on chunk, but chunk was not put in cache''), mutex)
     \<and> cache_unusable list_map mutex"
proof -
  let ?chunks = "[[1, 1, 1], [2, 2, 2]] :: bytes list"
  have wait: "get_chunks_batched list_map (sys_cache small_system) [ChunkKey [1], ChunkKey [2]] Map.empty 512
      = (Waiting [(ChunkKey [1], 0), (ChunkKey [2], 0)], [], Map.empty, sys_cache small_system)"
    by (simp add: get_chunks_batched_def small_defs)
  have b: "small_batch \<in> set (sys_batches small_system)" "length ?chunks = length (br_batch_keys small_batch)"
    "list_all (\<lambda>chunk. unat (rc_max_size (cc_raw_cache (sys_cache small_system))) + length chunk < 2 ^ 64) ?chunks"
    "0 < length ?chunks" "br_batch_keys small_batch ! 0 \<in> set [ChunkKey [1], ChunkKey [2]]"
    "unat (rc_max_size (cc_raw_cache (sys_cache small_system))) < length (concat (drop 0 ?chunks))"
    by (simp_all add: small_defs)
  have "(0 :: nat) < 512" by simp
  from evicted_chunk_poisons_cache [OF list_map.linked_hash_map_axioms small_system_reached b(1-3) wait this b(4-6)]
  show ?thesis by blast
qed

end
