(* ===== verification/Startup.thy ===== *)
theory Startup
  imports Chunk_Cache
begin

text \<open>
  What \<open>src/src/main.rs\<close> does with the components at start-up: the cache of the client
  (\<open>run_client\<close>) with the task that saves it (\<open>start_writer\<close> of \<open>src/src/chunk_cache.rs\<close>), and
  the accept loop of the server (\<open>run_server\<close>).
\<close>

section \<open>The cache over restarts\<close>

text \<open>
  The choice in \<open>run_client\<close>. \<open>None\<close> is a path for which \<open>Path::exists\<close> is false: there is no file, or
  its metadata cannot be read. \<open>metadata\<close> is the result of the call that reads its size for the log.
\<close>

definition open_cache ::
    "'m LinkedHashMap \<Rightarrow> Libs \<Rightarrow> Zstd \<Rightarrow> u64 \<Rightarrow> unit outcome \<Rightarrow> bytes outcome option \<Rightarrow> 'm ChunkCache outcome" where
  "open_cache lhm libs zstd cache_limit metadata contents =
     (case contents of
        None \<Rightarrow> Inr (ChunkCache_new lhm cache_limit)
      | Some _ \<Rightarrow>
          (case metadata of
             Inl e \<Rightarrow> Inl e
           | Inr _ \<Rightarrow> load_from_file lhm libs zstd cache_limit contents))"

text \<open>
  The loop of \<open>start_writer\<close>: after each sleep it finds the cache in some state and tries to
  save it; an error is logged and the loop goes on. The first components are the states of the
  cache it finds.
\<close>

fun start_writer ::
    "'m LinkedHashMap \<Rightarrow> Zstd \<Rightarrow> string \<Rightarrow> ('m ChunkCache \<times> SaveIO) list \<Rightarrow> files \<Rightarrow> files" where
  "start_writer lhm zstd cache_path [] fs = fs"
| "start_writer lhm zstd cache_path ((inner, io) # rounds) fs =
     (case try_save lhm zstd io inner cache_path fs of
        (Inl err, inner, fs) \<Rightarrow> start_writer lhm zstd cache_path rounds fs
      | (Inr _, inner, fs) \<Rightarrow> start_writer lhm zstd cache_path rounds fs)"

lemma start_writer_file:
  "\<forall>(inner, io) \<in> set rounds. honest_io io \<Longrightarrow> with_extension cache_path ''tmp'' \<noteq> cache_path \<Longrightarrow>
   start_writer lhm zstd cache_path rounds fs cache_path = fs cache_path
   \<or> (\<exists>(inner, io) \<in> set rounds. \<exists>contents.
        write_chunk_cache zstd (lhm_iter lhm (rc_chunks (cc_raw_cache inner))) = Inr contents
        \<and> start_writer lhm zstd cache_path rounds fs cache_path = Some contents)"
proof (induction rounds arbitrary: fs)
  case (Cons r rounds)
  obtain inner io where r: "r = (inner, io)" by (cases r)
  obtain result inner' fs' where save: "try_save lhm zstd io inner cache_path fs = (result, inner', fs')"
    by (metis prod_cases3)
  have rest: "start_writer lhm zstd cache_path (r # rounds) fs = start_writer lhm zstd cache_path rounds fs'"
    by (simp add: r save split: sum.splits)
  have "fs' cache_path = fs cache_path \<or> (\<exists>contents.
      write_chunk_cache zstd (lhm_iter lhm (rc_chunks (cc_raw_cache inner))) = Inr contents
      \<and> fs' cache_path = Some contents)"
  proof (cases "cc_needs_saving inner")
    case True
    then show ?thesis using try_save_files [OF _ Cons.prems(2) True save] Cons.prems(1) r by (auto split: sum.splits)
  next
    case False
    then show ?thesis using save by (simp add: try_save_unflagged)
  qed
  then show ?case using Cons.IH [of fs'] Cons.prems unfolding rest by (auto simp: r)
qed simp

section \<open>The accept loop of the server\<close>

text \<open>
  What \<open>endpoint.accept().await\<close> and the handshake deliver; \<open>None\<close> is a closed endpoint. The
  result is the connections for which a proxy is started, and how the loop ends, if it does.
\<close>

fun run_server :: "'c outcome option list \<Rightarrow> 'c list \<times> unit outcome option" where
  "run_server [] = ([], None)"
| "run_server (None # events) =
     ([], Some (Inl (Panic ''called `Option::unwrap()` on a `None` value'')))"
| "run_server (Some (Inl e) # events) = ([], Some (Inl e))"
| "run_server (Some (Inr connection) # events) =
     (let (connections, result) = run_server events in (connection # connections, result))"

text \<open>One failed handshake ends the server for everyone: what comes later is not accepted.\<close>

lemma failed_handshake_stops_server:
  "run_server (map (Some \<circ> Inr) connections @ Some (Inl e) # later) = (connections, Some (Inl e))"
  by (induction connections) simp_all

section \<open>Properties\<close>

text \<open>
  C17. The cache survives restarts and failing saves. However often the writer task ran, on
  whatever states of the cache, and wherever a save failed or panicked, the cache file is the
  one from before or \<open>run_client\<close> opens it as a cache with the entries, in the order, that the
  cache had at one of these saves. For this the temporary file must be a file of its own (it is
  not when the cache path has the extension \<open>tmp\<close>, or no file name); zstd restores what it
  compressed, BLAKE3 hashes have 32 bytes, no chunk exceeds the 20,000,000 bytes the reader
  accepts, and the size limit is the same.
\<close>

theorem cache_survives_restart:
  assumes "linked_hash_map lhm" and "zstd_ok zstd" and "unat limit + 20000000 < 2 ^ 64"
    and "with_extension cache_path ''tmp'' \<noteq> cache_path"
    and "\<forall>(inner, io) \<in> set rounds. honest_io io \<and> raw_ok lhm (cc_raw_cache inner)
      \<and> storable libs (cached lhm (cc_raw_cache inner)) \<and> rc_max_size (cc_raw_cache inner) = limit"
  shows "start_writer lhm zstd cache_path rounds fs cache_path = fs cache_path
     \<or> (\<exists>(inner, io) \<in> set rounds. \<exists>opened.
          open_cache lhm libs zstd limit (Inr ())
              (map_option Inr (start_writer lhm zstd cache_path rounds fs cache_path)) = Inr opened
          \<and> raw_ok lhm (cc_raw_cache opened)
          \<and> cached lhm (cc_raw_cache opened) = cached lhm (cc_raw_cache inner))"
proof -
  have "\<forall>(inner, io) \<in> set rounds. honest_io io" using assms(5) by auto
  from start_writer_file [OF this assms(4), of lhm zstd fs] show ?thesis
  proof
    assume "\<exists>(inner, io) \<in> set rounds. \<exists>contents.
        write_chunk_cache zstd (lhm_iter lhm (rc_chunks (cc_raw_cache inner))) = Inr contents
        \<and> start_writer lhm zstd cache_path rounds fs cache_path = Some contents"
    then obtain inner io contents where round: "(inner, io) \<in> set rounds"
      and w: "write_chunk_cache zstd (lhm_iter lhm (rc_chunks (cc_raw_cache inner))) = Inr contents"
      and file_is: "start_writer lhm zstd cache_path rounds fs cache_path = Some contents" by auto
    have c: "raw_ok lhm (cc_raw_cache inner)" "storable libs (cached lhm (cc_raw_cache inner))"
      "rc_max_size (cc_raw_cache inner) = limit" using assms(5) round by auto
    then obtain opened where "load_from_file lhm libs zstd limit (Some (Inr contents)) = Inr opened"
      "raw_ok lhm (cc_raw_cache opened)" "cached lhm (cc_raw_cache opened) = cached lhm (cc_raw_cache inner)"
      using cache_file_roundtrip [OF assms(1,2) c(1,2) _ w] assms(3) by auto
    then show ?thesis using round by (auto simp: open_cache_def file_is)
  qed simp
qed

text \<open>The example: a save that succeeds, and one that fails after two bytes.\<close>

definition example_inner :: "entries ChunkCache" where
  "example_inner = (ChunkCache_new list_map 5)\<lparr>cc_raw_cache := example_cache, cc_needs_saving := True\<rparr>"

definition example_rounds :: "(entries ChunkCache \<times> SaveIO) list" where
  "example_rounds = [(example_inner, example_io None), (example_inner, example_io (Some 2))]"

theorem cache_survives_restart_witness:
  "\<exists>opened. open_cache list_map example_libs plain_zstd 5 (Inr ()) (map_option Inr
       (start_writer list_map plain_zstd ''/persistent-cache'' example_rounds Map.empty ''/persistent-cache''))
       = Inr opened
     \<and> cached list_map (cc_raw_cache opened) = [(chunk_key example_libs [1, 2, 3], [1, 2, 3])]"
proof -
  have hash: "length (blake3_hash example_libs chunk) = 32" for chunk by (simp add: example_libs_def)
  have raw: "raw_ok list_map (cc_raw_cache example_inner)"
    "cached list_map (cc_raw_cache example_inner) = [(chunk_key example_libs [1, 2, 3], [1, 2, 3])]"
    "rc_max_size (cc_raw_cache example_inner) = 5"
    by (simp_all add: raw_ok_def cached_def list_map_def example_cache_def example_inner_def)
  then have "storable example_libs (cached list_map (cc_raw_cache example_inner))"
    by (simp add: storable_def valid_entries_def hash)
  with raw have rounds: "\<forall>(inner, io) \<in> set example_rounds. honest_io io \<and> raw_ok list_map (cc_raw_cache inner)
      \<and> storable example_libs (cached list_map (cc_raw_cache inner)) \<and> rc_max_size (cc_raw_cache inner) = 5"
    by (simp add: example_rounds_def honest_example_io)
  have temp: "with_extension ''/persistent-cache'' ''tmp'' \<noteq> ''/persistent-cache''" by (simp add: example_temp_path)
  have "start_writer list_map plain_zstd ''/persistent-cache'' example_rounds Map.empty ''/persistent-cache'' \<noteq> None"
    by (simp add: try_save_def Let_def example_rounds_def example_inner_def example_io_def write_chunk_cache_def
        plain_zstd_def list_map_def example_cache_def expect_u32_def chunk_key_def example_temp_path
        spawn_blocking_def)
  with cache_survives_restart [OF list_map.linked_hash_map_axioms plain_zstd_ok _ temp rounds, of Map.empty] raw(2)
  show ?thesis by (auto simp: example_rounds_def)
qed

end
