(* ===== verification/Number_Format.thy ===== *)
theory Number_Format
  imports Complex_Main Prelude
begin

text \<open>
  The numbers in the log lines: \<open>abbreviate_number\<close> of \<open>src/src/utils.rs\<close>, with the floating-point
  arithmetic it uses. All doubles here are at least 1/2, hence multiples of \<open>2 ^ -53\<close>, and
  stand as that multiple; every operation rounds its exact result once, to the nearest double,
  ties to even.
\<close>

type_synonym f64 = nat

definition f64_value :: "f64 \<Rightarrow> real" where
  "f64_value x = real x / 2 ^ 53"

section \<open>Rounding\<close>

text \<open>The integer nearest to \<open>a / b\<close>, ties to even.\<close>

definition round_div :: "nat \<Rightarrow> nat \<Rightarrow> nat" where
  "round_div a b =
     (let n = a div b; rest = a mod b
      in if 2 * rest < b \<or> 2 * rest = b \<and> even n then n else n + 1)"

fun bit_length :: "nat \<Rightarrow> nat" where
  "bit_length n = (if n = 0 then 0 else Suc (bit_length (n div 2)))"

declare bit_length.simps [simp del]

text \<open>
  The double nearest to \<open>a / b\<close>: its 53 significant bits end at the bit of weight
  \<open>2 ^ (bit_length (a div b) - 53)\<close>.
\<close>

definition f64_round :: "nat \<Rightarrow> nat \<Rightarrow> f64" where
  "f64_round a b = (let ulp = 2 ^ bit_length (a div b) in round_div (a * 2 ^ 53) (b * ulp) * ulp)"

definition u64_as_f64 :: "u64 \<Rightarrow> f64" where
  "u64_as_f64 n = f64_round (unat n) 1"

definition f64_div :: "f64 \<Rightarrow> f64 \<Rightarrow> f64" where
  "f64_div x y = f64_round x y"

section \<open>Decimal output\<close>

definition digit :: "nat \<Rightarrow> char" where
  "digit d = ''0123456789'' ! d"

fun to_string :: "nat \<Rightarrow> string" where
  "to_string n = (if n < 10 then [digit n] else to_string (n div 10) @ [digit (n mod 10)])"

declare to_string.simps [simp del]

text \<open>The format \<open>{:.2}\<close> of a double: its exact value, rounded to hundredths, ties to even.\<close>

definition hundredths :: "nat \<Rightarrow> string" where
  "hundredths n = to_string (n div 100) @ ''.'' @ [digit (n div 10 mod 10), digit (n mod 10)]"

definition format_2 :: "f64 \<Rightarrow> string" where
  "format_2 x = hundredths (round_div (100 * x) (2 ^ 53))"

text \<open>\<open>u64::ilog\<close>, for a base of at least 2 and a positive number.\<close>

fun ilog :: "nat \<Rightarrow> nat \<Rightarrow> nat" where
  "ilog b n = (if b < 2 \<or> n < b then 0 else Suc (ilog b (n div b)))"

declare ilog.simps [simp del]

definition POWER_UNITS :: "char list" where
  "POWER_UNITS = ''kMGTPEZY''"

definition abbreviate_number :: "u64 \<Rightarrow> string" where
  "abbreviate_number num =
     (if num \<le> 0 then to_string (unat num)
      else
        let power = ilog 1000 (unat num)
        in if power \<le> 0 then to_string (unat num)
           else
             let x = f64_div (u64_as_f64 num) (u64_as_f64 (1000 ^ power));
                 unit = (if power - 1 < length POWER_UNITS then POWER_UNITS ! (power - 1) else CHR ''?'')
             in format_2 x @ [unit])"

lemmas number_evals = abbreviate_number_def ilog.simps to_string.simps bit_length.simps digit_def POWER_UNITS_def
  format_2_def hundredths_def f64_div_def u64_as_f64_def f64_round_def round_div_def Let_def

lemma abbreviate_examples:
  "abbreviate_number 0 = ''0''" "abbreviate_number 999 = ''999''" "abbreviate_number 1125 = ''1.12k''"
  "abbreviate_number 500000000 = ''500.00M''" "abbreviate_number 18446744073709551615 = ''18.45E''"
  by (simp_all add: number_evals)

section \<open>Errors\<close>

lemma round_div_error:
  assumes "0 < b"
  shows "\<bar>real (round_div a b) - real a / real b\<bar> \<le> 1 / 2"
proof -
  have "real a = real (a div b) * real b + real (a mod b)" by (metis div_mult_mod_eq of_nat_add of_nat_mult)
  then have "real a / real b = real (a div b) + real (a mod b) / real b" using assms by (simp add: field_simps)
  moreover have "real (a mod b) / real b < 1" "0 \<le> real (a mod b) / real b" using assms by simp_all
  moreover have "2 * (a mod b) \<le> b \<longleftrightarrow> real (a mod b) / real b \<le> 1 / 2" using assms by (simp add: field_simps) linarith
  ultimately show ?thesis using assms by (auto simp: round_div_def Let_def abs_le_iff split: if_splits)
qed

lemma bit_length_bounds: "n < 2 ^ bit_length n \<and> (0 < n \<longrightarrow> 2 ^ bit_length n \<le> 2 * n)"
proof (induction n rule: bit_length.induct)
  case (1 n)
  show ?case
  proof (cases "n = 0")
    case False
    with 1 have IH: "n div 2 < 2 ^ bit_length (n div 2)" "0 < n div 2 \<longrightarrow> 2 ^ bit_length (n div 2) \<le> 2 * (n div 2)"
      by simp_all
    have eq: "bit_length n = Suc (bit_length (n div 2))" using False by (subst bit_length.simps) simp
    show ?thesis
    proof (cases "n div 2 = 0")
      case True
      then have "n = 1" using False by linarith
      moreover have "bit_length 1 = 1" by (simp add: bit_length.simps)
      ultimately show ?thesis by simp
    next
      case False
      then show ?thesis using IH by (simp add: eq) linarith
    qed
  qed (simp add: bit_length.simps)
qed

lemma f64_round_error:
  assumes b: "0 < b" and half: "1 / 2 \<le> real a / real b"
  shows "\<bar>f64_value (f64_round a b) - real a / real b\<bar> \<le> real a / real b / 2 ^ 53"
proof -
  define ulp :: nat where "ulp = 2 ^ bit_length (a div b)"
  have pos: "0 < ulp" by (simp add: ulp_def)
  let ?n = "round_div (a * 2 ^ 53) (b * ulp)"
  have "f64_value (f64_round a b) - real a / real b
      = (real ?n - real (a * 2 ^ 53) / real (b * ulp)) * real ulp / 2 ^ 53"
    using pos b by (simp add: f64_value_def f64_round_def ulp_def [symmetric] Let_def field_simps)
  also have "\<bar>\<dots>\<bar> = \<bar>real ?n - real (a * 2 ^ 53) / real (b * ulp)\<bar> * real ulp / 2 ^ 53"
    by (simp add: abs_mult)
  also have "\<dots> \<le> 1 / 2 * real ulp / 2 ^ 53"
    using round_div_error [of "b * ulp" "a * 2 ^ 53"] pos b by (intro divide_right_mono mult_right_mono) simp_all
  also have "real ulp \<le> 2 * (real a / real b)"
  proof (cases "0 < a div b")
    case True
    then have "ulp \<le> 2 * (a div b)" using bit_length_bounds ulp_def by blast
    then have "real ulp \<le> 2 * real (a div b)" by linarith
    also have "real (a div b) \<le> real a / real b" by (rule of_nat_div_le_of_nat)
    finally show ?thesis by simp
  next
    case False
    then show ?thesis using half by (simp add: ulp_def bit_length.simps mult.commute)
  qed
  finally show ?thesis by (simp add: divide_right_mono)
qed

lemma ilog_bounds: "2 \<le> b \<Longrightarrow> 0 < n \<Longrightarrow> b ^ ilog b n \<le> n \<and> n < b ^ Suc (ilog b n)"
proof (induction b n rule: ilog.induct)
  case (1 b n)
  show ?case
  proof (cases "n < b")
    case True
    with 1 show ?thesis by (simp add: ilog.simps)
  next
    case False
    then have "0 < n div b" using 1 by (simp add: div_greater_zero_iff)
    with 1 False have IH: "b ^ ilog b (n div b) \<le> n div b" "n div b < b ^ Suc (ilog b (n div b))" by simp_all
    have eq: "ilog b n = Suc (ilog b (n div b))" using False 1 by (subst ilog.simps) simp
    have "b * b ^ ilog b (n div b) \<le> b * (n div b)" using IH(1) by simp
    also have "\<dots> \<le> n" by simp
    finally have "b ^ ilog b n \<le> n" by (simp add: eq)
    moreover have "n < b * b ^ Suc (ilog b (n div b))"
      using IH(2) 1(2) by (metis div_less_iff_less_mult mult.commute not_numeral_le_zero zero_less_iff_neq_zero)
    ultimately show ?thesis by (simp add: eq)
  qed
qed

lemma power_1000_exact:
  assumes "p \<le> 6"
  shows "f64_value (u64_as_f64 (1000 ^ p)) = 1000 ^ p"
proof -
  from assms have "p = 0 \<or> p = 1 \<or> p = 2 \<or> p = 3 \<or> p = 4 \<or> p = 5 \<or> p = 6" by linarith
  then show ?thesis by (elim disjE) (simp_all add: f64_value_def u64_as_f64_def f64_round_def round_div_def
      bit_length.simps Let_def)
qed

text \<open>The two roundings of the quotient, and the one to hundredths.\<close>

lemma quotient_error:
  fixes num :: u64
  assumes p: "p \<le> 6" and lower: "1000 ^ p \<le> unat num"
  defines "q \<equiv> real (unat num) / 1000 ^ p"
    and "x \<equiv> f64_div (u64_as_f64 num) (u64_as_f64 (1000 ^ p))"
  shows "\<bar>f64_value x - q\<bar> \<le> 3 * q / 2 ^ 53"
proof -
  define y where "y = f64_value (u64_as_f64 num) / 1000 ^ p"
  have "real (1000 ^ p) \<le> real (unat num)" using lower of_nat_le_iff by blast
  then have num: "1000 ^ p \<le> real (unat num)" by simp
  have "(1 :: real) \<le> 1000 ^ p" by simp
  with num have "1 \<le> real (unat num)" by (rule order.trans [rotated])
  then have "1 / 2 \<le> real (unat num) / real 1" unfolding of_nat_1 div_by_1 by linarith
  from f64_round_error [OF _ this] have "\<bar>f64_value (u64_as_f64 num) - real (unat num)\<bar> \<le> real (unat num) / 2 ^ 53"
    by (simp add: u64_as_f64_def)
  then have "\<bar>f64_value (u64_as_f64 num) - real (unat num)\<bar> / 1000 ^ p \<le> real (unat num) / 2 ^ 53 / 1000 ^ p"
    by (intro divide_right_mono) simp_all
  also have "\<bar>f64_value (u64_as_f64 num) - real (unat num)\<bar> / 1000 ^ p = \<bar>y - q\<bar>"
    by (simp add: y_def q_def flip: diff_divide_distrib)
  also have "real (unat num) / 2 ^ 53 / 1000 ^ p = q / 2 ^ 53" by (simp add: q_def)
  finally have y: "\<bar>y - q\<bar> \<le> q / 2 ^ 53" .
  have "1 \<le> q" using num by (simp add: q_def)
  have B: "f64_value (u64_as_f64 (1000 ^ p)) = 1000 ^ p" by (rule power_1000_exact [OF p])
  then have "0 < f64_value (u64_as_f64 (1000 ^ p))" by simp
  then have pos: "0 < u64_as_f64 (1000 ^ p)" by (simp add: f64_value_def)
  have quot: "real (u64_as_f64 num) / real (u64_as_f64 (1000 ^ p)) = y"
    unfolding y_def B [symmetric] by (simp add: f64_value_def)
  note y = y [unfolded abs_le_iff minus_diff_eq]
  have "1 / 2 \<le> y" using y \<open>1 \<le> q\<close> by simp
  with f64_round_error [OF pos, of "u64_as_f64 num"] have "\<bar>f64_value x - y\<bar> \<le> y / 2 ^ 53"
    by (simp add: quot x_def f64_div_def)
  note this [unfolded abs_le_iff minus_diff_eq]
  with y \<open>1 \<le> q\<close> show ?thesis unfolding abs_le_iff minus_diff_eq by simp
qed

lemma hundredths_error:
  "\<bar>real (round_div (100 * x) (2 ^ 53)) - 100 * f64_value x\<bar> \<le> 1 / 2"
  using round_div_error [of "2 ^ 53" "100 * x"] by (simp add: f64_value_def)

section \<open>Properties\<close>

text \<open>
  C35. The numbers in the log are right up to rounding. A number below 1000 is written out. For any
  other 64-bit number, the text is a count of hundredths and a unit: the unit is the largest
  power of 1000 not above the number, it always exists, and the value shown differs from the
  number by at most 0.00501 units, half a hundredth and the rounding of the floating-point
  division; the count is at least 1.00 and at most 1000.00.
\<close>

theorem abbreviate_number_accurate:
  "(if unat num < 1000 then abbreviate_number num = to_string (unat num)
    else \<exists>p n. 1 \<le> p \<and> p \<le> 6 \<and> 1000 ^ p \<le> unat num \<and> unat num < 1000 ^ Suc p
       \<and> abbreviate_number num = hundredths n @ [''kMGTPE'' ! (p - 1)]
       \<and> 100 \<le> n \<and> n \<le> 100000
       \<and> \<bar>real n / 100 * 1000 ^ p - real (unat num)\<bar> \<le> 0.00501 * 1000 ^ p)"
proof (cases "unat num < 1000")
  case True
  then show ?thesis by (simp add: abbreviate_number_def ilog.simps)
next
  case False
  define p where "p = ilog 1000 (unat num)"
  have bounds: "1000 ^ p \<le> unat num" "unat num < 1000 ^ Suc p"
    using ilog_bounds [of 1000 "unat num"] False by (simp_all add: p_def)
  have p1: "1 \<le> p" using False by (simp add: p_def) (subst ilog.simps, simp)
  have "unat num < 2 ^ 64" using unsigned_less [of num] by (simp add: order.strict_trans2)
  then have "unat num < 1000 ^ 7" by simp
  with bounds(1) have "(1000 :: nat) ^ p < 1000 ^ 7" by (rule order.strict_trans1)
  then have "p < 7" by (rule power_less_imp_less_exp [rotated]) simp
  then have p6: "p \<le> 6" by simp
  let ?x = "f64_div (u64_as_f64 num) (u64_as_f64 (1000 ^ p))"
  define q where "q = real (unat num) / 1000 ^ p"
  define n where "n = round_div (100 * ?x) (2 ^ 53)"
  have unit: "POWER_UNITS ! (p - 1) = ''kMGTPE'' ! (p - 1)" "p - 1 < length POWER_UNITS"
    using p1 p6 by (auto simp: POWER_UNITS_def nth_Cons' numeral_eq_Suc le_Suc_eq)
  have "\<not> num \<le> 0" using False by auto
  then have shown: "abbreviate_number num = hundredths n @ [''kMGTPE'' ! (p - 1)]"
    using p1 unit by (simp add: abbreviate_number_def p_def [symmetric] format_2_def n_def Let_def)
  have "real (1000 ^ p) \<le> real (unat num)" "real (unat num) < real (1000 ^ Suc p)"
    using bounds by (simp_all only: of_nat_le_iff of_nat_less_iff)
  then have q: "1 \<le> q" "q < 1000" by (simp_all add: q_def field_simps)
  have err: "\<bar>real n - 100 * f64_value ?x\<bar> \<le> 1 / 2" "\<bar>f64_value ?x - q\<bar> \<le> 3 * q / 2 ^ 53"
    using hundredths_error [of ?x] quotient_error [OF p6 bounds(1)] by (simp_all add: n_def q_def)
  note err = err [unfolded abs_le_iff minus_diff_eq]
  have "\<bar>real n / 100 - q\<bar> \<le> 0.00501" using err q unfolding abs_le_iff minus_diff_eq by simp
  then have "\<bar>real n / 100 - q\<bar> * 1000 ^ p \<le> 0.00501 * 1000 ^ p" by (intro mult_right_mono) simp_all
  moreover have "\<bar>real n / 100 - q\<bar> * 1000 ^ p = \<bar>real n / 100 * 1000 ^ p - real (unat num)\<bar>"
  proof -
    have "(real n / 100 - q) * 1000 ^ p = real n / 100 * 1000 ^ p - real (unat num)" by (simp add: q_def field_simps)
    then show ?thesis by (metis abs_mult abs_of_nonneg zero_le_numeral zero_le_power)
  qed
  moreover have "3 * q / 2 ^ 53 \<le> 1 / 1000" using q by simp
  then have "99 < real n" and "real n < 100001"
    using q conjunct1 [OF err(1)] conjunct2 [OF err(1)] conjunct1 [OF err(2)] conjunct2 [OF err(2)] by linarith+
  then have "100 \<le> n" "n \<le> 100000" by linarith+
  ultimately show ?thesis using False p1 p6 bounds shown by auto
qed

text \<open>
  The rounding can reach the next unit, which is not used then: 999,999 is written as
  1000.00k and not as 1.00M.
\<close>

lemma abbreviation_reaches_next_unit:
  "abbreviate_number 999999 = ''1000.00k''"
  by (simp add: number_evals)

end
