(* ===== verification/Peer_Routing.thy ===== *)
theory Peer_Routing
  imports Client_Proxy Server_Proxy
begin

text \<open>
  How the connection loops of the two proxies number their peers and route packets: runs of
  \<open>run_client_proxy\<close> (\<open>src/src/proxy/client_proxy.rs\<close>), and the agreement on peer ids with
  \<open>run_server_proxy\<close> (\<open>src/src/proxy/server_proxy.rs\<close>).
\<close>

section \<open>Numbering\<close>

text \<open>A run of the loop, with the peers it starts, in order.\<close>

fun run_client_peers ::
    "VarIntCodec \<Rightarrow> 'tx Mpsc \<Rightarrow> ('a, 'tx) ClientPeers \<Rightarrow> 'a ClientConnEvent list
       \<Rightarrow> (('a, 'tx) ClientPeers \<times> (VarInt \<times> 'a) list) outcome" where
  "run_client_peers vc mpsc peers [] = Inr (peers, [])"
| "run_client_peers vc mpsc peers (event # events) =
     (case run_client_proxy_step vc mpsc peers event of
        Inl e \<Rightarrow> Inl e
      | Inr (peers, started) \<Rightarrow>
          (case run_client_peers vc mpsc peers events of
             Inl e \<Rightarrow> Inl e
           | Inr (peers, rest) \<Rightarrow> Inr (peers, (case started of None \<Rightarrow> rest | Some peer \<Rightarrow> peer # rest))))"

text \<open>\<open>n\<close> peers have been started, for the addresses \<open>A\<close>.\<close>

definition peers_ok :: "nat \<Rightarrow> 'a set \<Rightarrow> ('a, 'tx) ClientPeers \<Rightarrow> bool" where
  "peers_ok n A peers \<longleftrightarrow> n < 2 ^ 32 \<and> next_peer_id peers = of_nat n
     \<and> dom (id_to_queue peers) = {..<n} \<and> dom (addr_to_queue peers) = A"

lemma peers_ok_new: "peers_ok 0 {} ClientPeers_new"
  by (simp add: peers_ok_def ClientPeers_new_def)

lemma new_peer_spec:
  assumes "peers_ok n A peers" and "new_peer mpsc peers packet addr = Inr (peers', started)"
  shows "started = Some (n, addr) \<and> peers_ok (Suc n) (insert addr A) peers'"
proof -
  have n: "n < 2 ^ 32" "next_peer_id peers = of_nat n" using assms(1) by (simp_all add: peers_ok_def)
  have last: "next_peer_id peers \<noteq> 0xFFFFFFFF" using assms(2) by (auto simp: new_peer_def Let_def)
  have "unat (next_peer_id peers) = n" using n by (simp add: unat_of_nat_u32)
  moreover have "Suc n < 2 ^ 32"
  proof (rule ccontr)
    assume "\<not> Suc n < 2 ^ 32"
    then have "n = 0xFFFFFFFF" using n(1) by simp
    then have "next_peer_id peers = 0xFFFFFFFF" using n(2) by simp
    with last show False by simp
  qed
  moreover from last assms(2) have "started = Some (unat (next_peer_id peers), addr)"
    and "peers' = peers\<lparr>next_peer_id := next_peer_id peers + 1,
        addr_to_queue := (addr_to_queue peers)
          (addr \<mapsto> snd (mpsc_try_send mpsc (mpsc_channel mpsc UDP_QUEUE_SIZE) packet)),
        id_to_queue := (id_to_queue peers)
          (unat (next_peer_id peers) \<mapsto> mpsc_channel mpsc UDP_QUEUE_SIZE)\<rparr>"
    by (simp_all add: new_peer_def Let_def)
  ultimately show ?thesis using assms(1) by (simp add: peers_ok_def add.commute lessThan_Suc)
qed

lemma run_client_proxy_step_spec:
  assumes ok: "peers_ok n A peers" and step: "run_client_proxy_step vc mpsc peers event = Inr (peers', started)"
  shows "(case started of
       None \<Rightarrow> peers_ok n A peers'
     | Some (i, addr) \<Rightarrow> i = n \<and> peers_ok (Suc n) (insert addr A) peers')"
proof (cases event)
  case (RecvFrom result)
  then obtain packet addr where r: "result = Inr (packet, addr)"
    using step by (auto simp: run_client_proxy_step_def case_Inr_iff)
  show ?thesis
  proof (cases "\<exists>q. addr_to_queue peers addr = Some q \<and> \<not> mpsc_is_closed mpsc q")
    case True
    then obtain q where q: "addr_to_queue peers addr = Some q" "\<not> mpsc_is_closed mpsc q" by blast
    then have "addr \<in> dom (addr_to_queue peers)" by blast
    moreover have "started = None \<and> peers' = peers\<lparr>addr_to_queue := (addr_to_queue peers)
        (addr \<mapsto> snd (mpsc_try_send mpsc q packet))\<rparr>"
      using step q by (simp add: RecvFrom r run_client_proxy_step_def)
    ultimately show ?thesis using ok by (simp add: peers_ok_def insert_absorb)
  next
    case False
    then have "new_peer mpsc peers packet addr = Inr (peers', started)"
      using step by (auto simp: RecvFrom r run_client_proxy_step_def split: option.splits if_splits)
    from new_peer_spec [OF ok this] show ?thesis by simp
  qed
next
  case (RecvDatagram result)
  then obtain data datagram where r: "result = Inr data" and d: "Datagram_decode vc data = Inr datagram"
    using step by (auto simp: run_client_proxy_step_def case_Inr_iff)
  have "started = None" and "peers' = (case id_to_queue peers (dg_peer_id datagram) of
        Some q \<Rightarrow> peers\<lparr>id_to_queue := (id_to_queue peers)
          (dg_peer_id datagram \<mapsto> snd (mpsc_try_send mpsc q (dg_data datagram)))\<rparr>
      | None \<Rightarrow> peers)"
    using step by (simp_all add: RecvDatagram r d run_client_proxy_step_def)
  moreover have "insert i {..<n} = {..<n}" if "id_to_queue peers i = Some q" for i q
    using that ok by (auto simp: peers_ok_def dom_def)
  ultimately show ?thesis using ok
    by (cases "id_to_queue peers (dg_peer_id datagram)") (simp_all add: peers_ok_def)
qed

lemma run_client_peers_spec:
  "run_client_peers vc mpsc peers events = Inr (peers', started) \<Longrightarrow> peers_ok n A peers \<Longrightarrow>
     map fst started = [n..<n + length started]
     \<and> peers_ok (n + length started) (A \<union> snd ` set started) peers'"
proof (induction events arbitrary: peers n A started)
  case (Cons event events)
  obtain peers1 st rest where step: "run_client_proxy_step vc mpsc peers event = Inr (peers1, st)"
    and rest: "run_client_peers vc mpsc peers1 events = Inr (peers', rest)"
    and started: "started = (case st of None \<Rightarrow> rest | Some peer \<Rightarrow> peer # rest)"
    using Cons.prems(1) by (auto simp: case_Inr_iff split: sum.splits prod.splits)
  note spec = run_client_proxy_step_spec [OF Cons.prems(2) step]
  show ?case
  proof (cases st)
    case None
    with spec Cons.IH [OF rest] show ?thesis by (simp add: started)
  next
    case (Some peer)
    obtain i addr where peer: "peer = (i, addr)" by (cases peer)
    with Some spec have "i = n" and "peers_ok (Suc n) (insert addr A) peers1" by simp_all
    with Cons.IH [OF rest this(2)] show ?thesis
      by (simp add: started Some peer upt_conv_Cons del: upt_Suc)
  qed
qed simp

section \<open>Properties\<close>

text \<open>
  C22. The client numbers its peers without reuse: over any run of its connection loop the
  peers it starts get the ids 0, 1, 2 and so on, each once, also when an address comes back
  after its task has ended. Exactly these ids and their addresses have queues, and before the
  32-bit counter would wrap around the loop ends with an error.
\<close>

theorem peer_ids_are_fresh:
  assumes "run_client_peers vc mpsc ClientPeers_new events = Inr (peers, started)"
  shows "map fst started = [0..<length started] \<and> length started < 2 ^ 32
     \<and> dom (id_to_queue peers) = {..<length started} \<and> dom (addr_to_queue peers) = snd ` set started"
  using run_client_peers_spec [OF assms peers_ok_new] by (simp add: peers_ok_def)

text \<open>
  C16. Packets reach the right peer, or are lost. With a variable-length integer codec that reads
  back what it wrote, and channels that keep their messages in order: the stream a client task
  opens makes the server start a task under the same id, with an empty open queue for 512
  packets of its own and the rest of the stream; a packet the client task then sends towards
  the server is offered to that queue and to no other; and a packet the server task sends towards
  the client is offered to the queue of the client task with that id. A queue that is open and
  not full has the packet at its end afterwards; otherwise it is unchanged, the packet is dropped
  and the loop goes on.
\<close>

theorem packets_reach_their_peer:
  assumes "varint_codec vc" and "bounded_channel mpsc queued capacity" and "peer_id < 2 ^ 32"
    and "appending write_all contents"
    and "contents stream = []" and "proxy_client_init write_all (Inr stream) peer_id = Inr stream'"
    and "id_to_queue peers peer_id = Some queue"
  shows "(\<exists>q0. run_server_proxy_step vc mpsc queues (AcceptBi (Inr (contents stream' @ later)) (Inr ()))
        = Inr (queues(peer_id \<mapsto> q0), Some (peer_id, later))
        \<and> queued q0 = [] \<and> capacity q0 = 512 \<and> \<not> mpsc_is_closed mpsc q0)
    \<and> (\<exists>d q'. drain_client vc (\<lambda>_. True) peer_id addr [(packet, ToServer)] = (True, [SendDatagram d])
        \<and> run_server_proxy_step vc mpsc (queues(peer_id \<mapsto> q)) (ReadDatagram (Inr d))
            = Inr (queues(peer_id \<mapsto> q'), None)
        \<and> queued q' = offered mpsc queued capacity q packet)
    \<and> (\<exists>d q'. drain_server vc (\<lambda>_. True) peer_id addr [(packet, ToClient)] = (True, [SendDatagram d])
        \<and> run_client_proxy_step vc mpsc peers (RecvDatagram (Inr d))
            = Inr (peers\<lparr>id_to_queue := (id_to_queue peers)(peer_id \<mapsto> q')\<rparr>, None)
        \<and> queued q' = offered mpsc queued capacity queue packet)"
proof -
  have stream: "contents stream' = u32_to_le_bytes (of_nat peer_id)"
    using assms(4-6) by (auto simp: proxy_client_init_def appending_def)
  have id: "unat (of_nat peer_id :: u32) = peer_id" using assms(3) by (simp add: unat_of_nat_u32)
  have dec: "Datagram_decode vc (Datagram_encode vc (Datagram_new peer_id packet) []) = Inr (Datagram_new peer_id packet)"
    using varint_codec.datagram_encode_decode [OF assms(1), of "Datagram_new peer_id packet"] assms(3)
    by (simp add: Datagram_new_def)
  note channel = bounded_channel.new_channel [OF assms(2)] bounded_channel.queued_try_send [OF assms(2)]
  show ?thesis using assms(7)
    by (simp add: stream id dec run_server_proxy_step_def run_client_proxy_step_def Datagram_new_def
        dec [unfolded Datagram_new_def] UDP_QUEUE_SIZE_def)
      (intro conjI exI, (rule refl | simp add: channel)+)
qed

section \<open>An example\<close>

theorem peer_ids_are_fresh_witness:
  "\<exists>peers. run_client_peers rfc9000_varint queue_mpsc ClientPeers_new
       [RecvFrom (Inr ([1], True)), RecvFrom (Inr ([2], False)), RecvFrom (Inr ([3], True))]
     = Inr (peers, [(0, True), (1, False)])
     \<and> dom (id_to_queue peers) = {..<2} \<and> dom (addr_to_queue peers) = {True, False}"
proof -
  let ?run = "run_client_peers rfc9000_varint queue_mpsc ClientPeers_new
       [RecvFrom (Inr ([1], True)), RecvFrom (Inr ([2], False)), RecvFrom (Inr ([3], True))]"
  have "\<exists>peers. ?run = Inr (peers, [(0, True), (1, False)])"
    by (simp add: run_client_proxy_step_def new_peer_def ClientPeers_new_def queue_mpsc_def Let_def UDP_QUEUE_SIZE_def)
  then obtain peers where run: "?run = Inr (peers, [(0, True), (1, False)])" by blast
  from peer_ids_are_fresh [OF run] run show ?thesis by (auto simp: numeral_2_eq_2)
qed

text \<open>The queue of the server task has one packet and room for another, that of the client task is full.\<close>

theorem packets_reach_their_peer_witness:
  "proxy_client_init (\<lambda>out bs. Inr (out @ bs)) (Inr []) 300 = Inr [44, 1, 0, 0]
   \<and> (\<exists>d q'. run_server_proxy_step rfc9000_varint queue_mpsc
          [300 \<mapsto> \<lparr>ch_queue = [[4]], ch_capacity = 2, ch_closed = False\<rparr>] (ReadDatagram (Inr d)) = Inr ([300 \<mapsto> q'], None)
        \<and> ch_queue q' = [[4], [5]])
   \<and> (\<exists>d peers q'. run_client_proxy_step rfc9000_varint queue_mpsc
          (ClientPeers_new\<lparr>id_to_queue := [300 \<mapsto> \<lparr>ch_queue = [[4]], ch_capacity = 1, ch_closed = False\<rparr>]\<rparr>
            :: (unit, Channel) ClientPeers) (RecvDatagram (Inr d)) = Inr (peers, None)
        \<and> id_to_queue peers 300 = Some q' \<and> ch_queue q' = [[4]])"
proof -
  have app: "appending (\<lambda>out bs. Inr (out @ bs)) (\<lambda>out. out)" by (simp add: appending_def)
  have init: "proxy_client_init (\<lambda>out bs. Inr (out @ bs)) (Inr []) 300 = Inr [44, 1, 0, 0]"
    by (simp add: proxy_client_init_def u32_to_le_bytes_def)
  let ?roomy = "\<lparr>ch_queue = [[4]], ch_capacity = 2, ch_closed = False\<rparr>"
    and ?full = "\<lparr>ch_queue = [[4]], ch_capacity = 1, ch_closed = False\<rparr>"
  let ?peers = "ClientPeers_new\<lparr>id_to_queue := [300 \<mapsto> ?full]\<rparr> :: (unit, Channel) ClientPeers"
  have peer: "id_to_queue ?peers 300 = Some ?full" "(300 :: nat) < 2 ^ 32" by simp_all
  have off: "offered queue_mpsc ch_queue ch_capacity ?roomy [5] = [[4], [5]]"
    "offered queue_mpsc ch_queue ch_capacity ?full [5] = [[4]]"
    by (simp_all add: offered_def queue_mpsc_def)
  note reach = packets_reach_their_peer [OF rfc9000.varint_codec_axioms queue_mpsc.bounded_channel_axioms peer(2) app refl
      init peer(1), of Map.empty "[]" "()" "[5]" ?roomy, unfolded off]
  from reach have "\<exists>d q'. run_server_proxy_step rfc9000_varint queue_mpsc [300 \<mapsto> ?roomy] (ReadDatagram (Inr d))
      = Inr ([300 \<mapsto> q'], None) \<and> ch_queue q' = [[4], [5]]" by blast
  moreover from reach obtain d q' where "run_client_proxy_step rfc9000_varint queue_mpsc ?peers (RecvDatagram (Inr d))
      = Inr (?peers\<lparr>id_to_queue := (id_to_queue ?peers)(300 \<mapsto> q')\<rparr>, None)" "ch_queue q' = [[4]]" by blast
  then have "\<exists>d peers q'. run_client_proxy_step rfc9000_varint queue_mpsc ?peers (RecvDatagram (Inr d)) = Inr (peers, None)
      \<and> id_to_queue peers 300 = Some q' \<and> ch_queue q' = [[4]]"
    by (intro exI conjI) (assumption | simp)+
  ultimately show ?thesis using init by blast
qed

end
