(* ===== verification/Main_Program.thy ===== *)
theory Main_Program
  imports Startup Number_Format Peer_Routing
begin

text \<open>
  The two programs as a whole: \<open>src/src/main.rs\<close> from the parsed arguments to the shutdown, and
  the QUIC configuration of \<open>src/src/quic.rs\<close>. What the standard library and third-party crates
  do (name lookup, sockets, certificates, the argument parser) is a parameter; what is modelled
  is in which order the programs do things, and what every failure leads to.
\<close>

section \<open>QUIC configuration\<close>

text \<open>Durations are in milliseconds.\<close>

definition QUIC_IDLE_TIMEOUT :: nat where
  "QUIC_IDLE_TIMEOUT = 60000"

definition QUIC_KEEPALIVE_INTERVAL :: nat where
  "QUIC_KEEPALIVE_INTERVAL = 20000"

record TransportConfig =
  tc_max_idle_timeout :: "nat option"
  tc_keep_alive_interval :: "nat option"

record 'crypto QuicConfig =
  qc_crypto :: 'crypto
  qc_transport_config :: TransportConfig

text \<open>\<open>rustls\<close> and \<open>quinn\<close>, with the embedded certificates and keys.\<close>

record ('cert, 'key, 'store, 'crypto) Tls =
  root_cert_data :: bytes
  end_cert_data :: bytes
  end_private_key_data :: bytes
  cert_from_pem :: "bytes \<Rightarrow> 'cert outcome"
  key_from_pem :: "bytes \<Rightarrow> 'key outcome"
  store_empty :: 'store
  store_add :: "'store \<Rightarrow> 'cert \<Rightarrow> 'store outcome"
  with_root_certificates :: "'store \<Rightarrow> 'crypto outcome"
  with_single_cert :: "'cert list \<Rightarrow> 'key \<Rightarrow> 'crypto outcome"
  idle_timeout_try_from :: "nat \<Rightarrow> nat outcome"
  transport_default :: TransportConfig

text \<open>\<open>unwrap\<close> and \<open>expect\<close>: an error becomes a panic.\<close>

definition unwrap :: "'a outcome \<Rightarrow> 'a outcome" where
  "unwrap result =
     (case result of
        Inl (Error err) \<Rightarrow> Inl (Panic (''called `Result::unwrap()` on an `Err` value: '' @ err))
      | _ \<Rightarrow> result)"

definition expect :: "string \<Rightarrow> 'a outcome \<Rightarrow> 'a outcome" where
  "expect msg result =
     (case result of Inl (Error err) \<Rightarrow> Inl (Panic (msg @ '': '' @ err)) | _ \<Rightarrow> result)"

definition make_client_config :: "('cert, 'key, 'store, 'crypto) Tls \<Rightarrow> 'crypto QuicConfig outcome" where
  "make_client_config tls =
     (case unwrap (cert_from_pem tls (root_cert_data tls)) of Inl e \<Rightarrow> Inl e | Inr cert \<Rightarrow>
     (case unwrap (store_add tls (store_empty tls) cert) of Inl e \<Rightarrow> Inl e | Inr certs \<Rightarrow>
     (case unwrap (with_root_certificates tls certs) of Inl e \<Rightarrow> Inl e | Inr crypto \<Rightarrow>
     (case unwrap (idle_timeout_try_from tls QUIC_IDLE_TIMEOUT) of Inl e \<Rightarrow> Inl e | Inr idle \<Rightarrow>
        Inr \<lparr>qc_crypto = crypto,
             qc_transport_config = (transport_default tls)
               \<lparr>tc_max_idle_timeout := Some idle, tc_keep_alive_interval := Some QUIC_KEEPALIVE_INTERVAL\<rparr>\<rparr>))))"

definition make_server_config :: "('cert, 'key, 'store, 'crypto) Tls \<Rightarrow> 'crypto QuicConfig outcome" where
  "make_server_config tls =
     (case unwrap (cert_from_pem tls (end_cert_data tls)) of Inl e \<Rightarrow> Inl e | Inr cert \<Rightarrow>
     (case unwrap (key_from_pem tls (end_private_key_data tls)) of Inl e \<Rightarrow> Inl e | Inr private_key \<Rightarrow>
     (case unwrap (with_single_cert tls [cert] private_key) of Inl e \<Rightarrow> Inl e | Inr crypto \<Rightarrow>
     (case unwrap (idle_timeout_try_from tls QUIC_IDLE_TIMEOUT) of Inl e \<Rightarrow> Inl e | Inr idle \<Rightarrow>
        Inr \<lparr>qc_crypto = crypto,
             qc_transport_config = (transport_default tls)\<lparr>tc_max_idle_timeout := Some idle\<rparr>\<rparr>))))"

text \<open>
  Only the client sends keep-alives; two of them may get lost before either end gives up an idle
  connection.
\<close>

lemma keepalives_in_time:
  assumes "make_client_config tls = Inr client" and "make_server_config tls = Inr server"
    and "idle_timeout_try_from tls QUIC_IDLE_TIMEOUT = Inr QUIC_IDLE_TIMEOUT"
  shows "\<exists>k. tc_keep_alive_interval (qc_transport_config client) = Some k
     \<and> tc_max_idle_timeout (qc_transport_config client) = Some (3 * k)
     \<and> tc_max_idle_timeout (qc_transport_config server) = Some (3 * k)"
  using assms
  by (auto simp: make_client_config_def make_server_config_def case_Inr_iff QUIC_IDLE_TIMEOUT_def
      QUIC_KEEPALIVE_INTERVAL_def unwrap_def)

section \<open>Arguments\<close>

datatype IpAddr = V4 bytes | V6 bytes

record SocketAddr =
  sa_ip :: IpAddr
  sa_port :: u16

definition Ipv4_UNSPECIFIED :: IpAddr where
  "Ipv4_UNSPECIFIED = V4 (replicate 4 0)"

definition Ipv6_UNSPECIFIED :: IpAddr where
  "Ipv6_UNSPECIFIED = V6 (replicate 16 0)"

fun is_ipv6 :: "IpAddr \<Rightarrow> bool" where
  "is_ipv6 (V6 _) = True"
| "is_ipv6 (V4 _) = False"

record ClientArgs =
  ca_port :: u16
  ca_host :: IpAddr
  ca_server_address :: string
  ca_cache_path :: "string option"
  ca_cache_limit :: u64
  ca_cache_save_interval :: u64

record ServerArgs =
  sv_port :: u16
  sv_host :: IpAddr
  sv_factorio_address :: string

datatype Subcommand = Client ClientArgs | Server ServerArgs

text \<open>The arguments when only the address is given.\<close>

definition ClientArgs_default :: "string \<Rightarrow> ClientArgs" where
  "ClientArgs_default server_address =
     \<lparr>ca_port = 60120, ca_host = Ipv4_UNSPECIFIED, ca_server_address = server_address, ca_cache_path = None,
      ca_cache_limit = 500000000, ca_cache_save_interval = 60\<rparr>"

definition ServerArgs_default :: "string \<Rightarrow> ServerArgs" where
  "ServerArgs_default factorio_address =
     \<lparr>sv_port = 60130, sv_host = Ipv4_UNSPECIFIED, sv_factorio_address = factorio_address\<rparr>"

section \<open>What the programs do\<close>

text \<open>
  The visible actions, in order. A run is the actions so far and how it ended; \<open>None\<close> is a run
  that has not ended.
\<close>

datatype 'conn MainEffect =
    Info string
  | LookupHost string
  | EndpointClient SocketAddr
  | EndpointServer SocketAddr
  | ConnectTo SocketAddr string
  | BindUdp SocketAddr
  | LoadCache string
  | StartWriter string u64
  | Listening SocketAddr
  | ServePeers
  | SpawnServerProxy 'conn SocketAddr
  | CloseEndpoint nat string
  | WaitIdle

type_synonym ('conn, 'a) run = "'conn MainEffect list \<times> 'a outcome option"

definition act :: "'conn MainEffect \<Rightarrow> 'a outcome \<Rightarrow> ('conn, 'a) run" where
  "act effect result = ([effect], Some result)"

definition fails_or :: "'a outcome \<Rightarrow> ('conn, 'a) run" where
  "fails_or result = ([], Some result)"

definition and_then :: "('conn, 'a) run \<Rightarrow> ('a \<Rightarrow> ('conn, 'b) run) \<Rightarrow> ('conn, 'b) run" where
  "and_then first next =
     (case first of
        (effects, None) \<Rightarrow> (effects, None)
      | (effects, Some (Inl e)) \<Rightarrow> (effects, Some (Inl e))
      | (effects, Some (Inr x)) \<Rightarrow> let (effects', result) = next x in (effects @ effects', result))"

text \<open>
  \<open>select!\<close> of a run, whose error is unwrapped, and \<open>ctrl_c\<close>. \<open>Some n\<close> is a signal that comes after
  \<open>n\<close> actions of the run, or while it is still going on after all of them.
\<close>

definition or_ctrl_c :: "nat option \<Rightarrow> ('conn, unit) run \<Rightarrow> ('conn, unit) run" where
  "or_ctrl_c ctrl_c process =
     (case process of (effects, result) \<Rightarrow>
        case ctrl_c of
          Some n \<Rightarrow> if n < length effects \<or> result = None then (take n effects, Some (Inr ()))
                    else (effects, map_option unwrap result)
        | None \<Rightarrow> (effects, map_option unwrap result))"

text \<open>
  The operating system and the libraries around the client: \<open>cache_contents\<close> is what reading the
  cache file yields (\<open>None\<close> when there is none), \<open>proxy_events\<close> what the connection loop receives.
\<close>

record ('m, 'tx) ClientWorld =
  cw_lookup_host :: "string \<Rightarrow> SocketAddr list outcome"
  cw_endpoint_client :: "SocketAddr \<Rightarrow> unit outcome"
  cw_path_absolute :: "string \<Rightarrow> string outcome"
  cw_connect :: "SocketAddr \<Rightarrow> string \<Rightarrow> unit outcome"
  cw_connected :: "unit outcome"
  cw_bind :: "SocketAddr \<Rightarrow> unit outcome"
  cw_metadata :: "string \<Rightarrow> u64 outcome"
  cw_cache_contents :: "string \<Rightarrow> bytes outcome option"
  cw_lhm :: "'m LinkedHashMap"
  cw_libs :: Libs
  cw_zstd :: Zstd
  cw_varint :: VarIntCodec
  cw_mpsc :: "'tx Mpsc"
  cw_proxy_events :: "SocketAddr ClientConnEvent list"

definition context_QUIC :: "'a outcome \<Rightarrow> 'a outcome" where
  "context_QUIC result =
     (case result of Inl (Error err) \<Rightarrow> Inl (Error (''QUIC connecting: '' @ err)) | _ \<Rightarrow> result)"

text \<open>The connection loop of the client only ends with an error.\<close>

definition serve_peers :: "('m, 'tx) ClientWorld \<Rightarrow> ('conn, unit) run" where
  "serve_peers w =
     ([ServePeers],
      case run_client_peers (cw_varint w) (cw_mpsc w) ClientPeers_new (cw_proxy_events w) of
        Inl e \<Rightarrow> Some (Inl e)
      | Inr _ \<Rightarrow> None)"

definition loaded_message :: "'m LinkedHashMap \<Rightarrow> 'm ChunkCache \<Rightarrow> u64 \<Rightarrow> string" where
  "loaded_message lhm chunk_cache compressed_size =
     ''Loaded '' @ to_string (ChunkCache_len lhm chunk_cache) @ '' chunks (''
       @ abbreviate_number (ChunkCache_total_size chunk_cache) @ ''B, ''
       @ abbreviate_number compressed_size @ ''B compressed) from the cache''"

text \<open>The part of \<open>run_client\<close> that opens the cache.\<close>

definition client_cache :: "('m, 'tx) ClientWorld \<Rightarrow> ClientArgs \<Rightarrow> string \<Rightarrow> ('conn, 'm ChunkCache) run" where
  "client_cache w args cache_path =
     (let contents = cw_cache_contents w cache_path; metadata = cw_metadata w cache_path;
          cache = open_cache (cw_lhm w) (cw_libs w) (cw_zstd w) (ca_cache_limit args) (map_sum id (\<lambda>_. ()) metadata) contents
      in if contents = None then fails_or cache
         else and_then (act (Info (''Loading cache from '' @ cache_path)) (Inr ())) (\<lambda>_.
              and_then (act (LoadCache cache_path) metadata) (\<lambda>compressed_size.
              and_then (fails_or cache) (\<lambda>chunk_cache.
              act (Info (loaded_message (cw_lhm w) chunk_cache compressed_size)) (Inr chunk_cache)))))"

definition cache_path_of :: "('m, 'tx) ClientWorld \<Rightarrow> ClientArgs \<Rightarrow> string outcome" where
  "cache_path_of w args =
     (case ca_cache_path args of Some path \<Rightarrow> Inr path | None \<Rightarrow> unwrap (cw_path_absolute w ''persistent-cache''))"

definition run_client :: "('m, 'tx) ClientWorld \<Rightarrow> SocketAddr \<Rightarrow> ClientArgs \<Rightarrow> ('conn, unit) run" where
  "run_client w server_address args =
     and_then (fails_or (cache_path_of w args)) (\<lambda>cache_path.
     and_then (act (Info ''Connecting...'') (Inr ())) (\<lambda>_.
     and_then (act (ConnectTo server_address ''localhost'') (cw_connect w server_address ''localhost'')) (\<lambda>_.
     and_then (fails_or (context_QUIC (cw_connected w))) (\<lambda>_.
     let listen_address = \<lparr>sa_ip = ca_host args, sa_port = ca_port args\<rparr> in
     and_then (act (BindUdp listen_address) (cw_bind w listen_address)) (\<lambda>_.
     and_then (act (Info ''Connected'') (Inr ())) (\<lambda>_.
     and_then (client_cache w args cache_path) (\<lambda>chunk_cache.
     and_then (act (Info (''The cache has a limit of '' @ abbreviate_number (ca_cache_limit args) @ ''B'')) (Inr ())) (\<lambda>_.
     and_then (act (StartWriter cache_path (ca_cache_save_interval args)) (Inr ())) (\<lambda>_.
     and_then (act (Listening listen_address) (Inr ())) (\<lambda>_.
     serve_peers w))))))))))"

text \<open>The end of both programs; \<open>idle\<close> tells whether the second \<open>select!\<close> ends.\<close>

definition shut_down :: "bool \<Rightarrow> ('conn, unit) run" where
  "shut_down idle =
     and_then (act (CloseEndpoint 0 ''quit'') (Inr ())) (\<lambda>_.
     and_then ([WaitIdle], if idle then Some (Inr ()) else None) (\<lambda>_.
     act (Info ''Shutdown'') (Inr ())))"

text \<open>\<open>lookup_host(...).await.expect(...).next().expect(...)\<close>.\<close>

definition look_up :: "(string \<Rightarrow> SocketAddr list outcome) \<Rightarrow> string \<Rightarrow> ('conn, SocketAddr) run" where
  "look_up lookup_host address =
     and_then (act (LookupHost address) (expect ''Error looking up host'' (lookup_host address))) (\<lambda>addresses.
     fails_or (case addresses of
         [] \<Rightarrow> Inl (Panic ''No server address found'')
       | server_address # _ \<Rightarrow> Inr server_address))"

definition subcommand_client ::
    "('cert, 'key, 'store, 'crypto) Tls \<Rightarrow> ('m, 'tx) ClientWorld \<Rightarrow> nat option \<Rightarrow> bool \<Rightarrow> ClientArgs \<Rightarrow> ('conn, unit) run" where
  "subcommand_client tls w ctrl_c idle args =
     and_then (look_up (cw_lookup_host w) (ca_server_address args)) (\<lambda>server_address.
     let local_address = \<lparr>sa_ip = if is_ipv6 (sa_ip server_address) then Ipv6_UNSPECIFIED else Ipv4_UNSPECIFIED,
           sa_port = 0\<rparr> in
     and_then (act (EndpointClient local_address) (unwrap (cw_endpoint_client w local_address))) (\<lambda>_.
     and_then (fails_or (make_client_config tls)) (\<lambda>_.
     and_then (or_ctrl_c ctrl_c (run_client w server_address args)) (\<lambda>_.
     shut_down idle))))"

text \<open>The server: \<open>sw_accepted\<close> is what accepting connections yields.\<close>

record 'conn ServerWorld =
  sw_lookup_host :: "string \<Rightarrow> SocketAddr list outcome"
  sw_endpoint_server :: "SocketAddr \<Rightarrow> unit outcome"
  sw_accepted :: "'conn outcome option list"

definition accept_clients :: "'conn ServerWorld \<Rightarrow> SocketAddr \<Rightarrow> ('conn, unit) run" where
  "accept_clients w factorio_address =
     (let (connections, result) = run_server (sw_accepted w)
      in (Info ''Started'' # map (\<lambda>connection. SpawnServerProxy connection factorio_address) connections, result))"

definition subcommand_server ::
    "('cert, 'key, 'store, 'crypto) Tls \<Rightarrow> 'conn ServerWorld \<Rightarrow> nat option \<Rightarrow> bool \<Rightarrow> ServerArgs \<Rightarrow> ('conn, unit) run" where
  "subcommand_server tls w ctrl_c idle args =
     and_then (look_up (sw_lookup_host w) (sv_factorio_address args)) (\<lambda>factorio_address.
     let listen_address = \<lparr>sa_ip = sv_host args, sa_port = sv_port args\<rparr> in
     and_then (fails_or (make_server_config tls)) (\<lambda>_.
     and_then (act (EndpointServer listen_address) (unwrap (sw_endpoint_server w listen_address))) (\<lambda>_.
     and_then (or_ctrl_c ctrl_c (accept_clients w factorio_address)) (\<lambda>_.
     shut_down idle))))"

text \<open>\<open>setup_logging\<close>: both calls into the logging crates are unwrapped.\<close>

definition setup_logging :: "unit outcome \<Rightarrow> unit outcome \<Rightarrow> unit outcome" where
  "setup_logging set_time_offset_to_local term_logger_init =
     (case unwrap set_time_offset_to_local of
        Inl e \<Rightarrow> Inl e
      | Inr _ \<Rightarrow> expect ''Unable to init logger'' term_logger_init)"

definition main ::
    "unit outcome \<Rightarrow> unit outcome \<Rightarrow> ('cert, 'key, 'store, 'crypto) Tls \<Rightarrow> ('m, 'tx) ClientWorld \<Rightarrow> 'conn ServerWorld
       \<Rightarrow> nat option \<Rightarrow> bool \<Rightarrow> Subcommand \<Rightarrow> ('conn, unit) run" where
  "main set_time_offset_to_local term_logger_init tls client_world server_world ctrl_c idle subcommand =
     and_then (fails_or (setup_logging set_time_offset_to_local term_logger_init)) (\<lambda>_.
     case subcommand of
       Client client_args \<Rightarrow> subcommand_client tls client_world ctrl_c idle client_args
     | Server server_args \<Rightarrow> subcommand_server tls server_world ctrl_c idle server_args)"

section \<open>Runs and their actions\<close>

lemma and_then_effects:
  "e \<in> set (fst (and_then m f)) \<longleftrightarrow> e \<in> set (fst m) \<or> (\<exists>x. snd m = Some (Inr x) \<and> e \<in> set (fst (f x)))"
  by (auto simp: and_then_def case_prod_unfold Let_def split: option.splits sum.splits)

lemma and_then_Inl:
  "snd (and_then m f) = Some (Inl e) \<longleftrightarrow>
     snd m = Some (Inl e) \<or> (\<exists>x. snd m = Some (Inr x) \<and> snd (f x) = Some (Inl e))"
  by (auto simp: and_then_def case_prod_unfold Let_def split: option.splits sum.splits)

lemma and_then_Inr:
  "snd (and_then m f) = Some (Inr y) \<longleftrightarrow> (\<exists>x. snd m = Some (Inr x) \<and> snd (f x) = Some (Inr y))"
  by (auto simp: and_then_def case_prod_unfold Let_def split: option.splits sum.splits)

lemma run_simps:
  "fst (act e r) = [e]" "snd (act e r) = Some r" "fst (fails_or r) = []" "snd (fails_or r) = Some r"
  by (simp_all add: act_def fails_or_def)

lemma unwrap_panics [simp]: "unwrap r \<noteq> Inl (Error err)" "expect msg r \<noteq> Inl (Error err)"
  by (auto simp: unwrap_def expect_def split: sum.splits fault.splits)

lemma unwrap_ok [simp]: "unwrap (Inr x) = Inr x" "expect msg (Inr x) = Inr x"
  by (simp_all add: unwrap_def expect_def)

lemma unwrap_Inr [simp]: "unwrap r = Inr x \<longleftrightarrow> r = Inr x" "expect msg r = Inr x \<longleftrightarrow> r = Inr x"
  by (auto simp: unwrap_def expect_def split: sum.splits fault.splits)

lemma or_ctrl_c_effects: "e \<in> set (fst (or_ctrl_c ctrl_c m)) \<Longrightarrow> e \<in> set (fst m)"
  by (auto simp: or_ctrl_c_def case_prod_unfold split: option.splits if_splits dest: in_set_takeD)



lemmas run_sets = and_then_effects and_then_Inl and_then_Inr run_simps





text \<open>A cache that \<open>run_client\<close> has opened is well formed, and its entries are filed under their hashes.\<close>

lemma open_cache_ok:
  assumes "linked_hash_map lhm" and "zstd_ok zstd" and "unat limit + 20000000 < 2 ^ 64"
    and "open_cache lhm libs zstd limit metadata contents = Inr cache"
  shows "raw_ok lhm (cc_raw_cache cache) \<and> valid_entries libs (cached lhm (cc_raw_cache cache))
     \<and> rc_max_size (cc_raw_cache cache) = limit
     \<and> cc_pending_chunks cache = Map.empty \<and> cc_next_event cache = 0 \<and> cc_closed cache = []"
proof (cases contents)
  case None
  then show ?thesis using assms(4) linked_hash_map.raw_ok_new [OF assms(1), of limit]
    by (auto simp: open_cache_def ChunkCache_new_def valid_entries_def) (simp add: RawChunkCache_new_def)
next
  case (Some read)
  with assms(4) have load: "load_from_file lhm libs zstd limit (Some read) = Inr cache"
    by (simp add: open_cache_def case_Inr_iff)
  then obtain bs c where "read = Inr bs" "read_chunk_cache lhm libs zstd (RawChunkCache_new lhm limit) (Inr bs) = Inr c"
    "cc_raw_cache cache = c" "cc_pending_chunks cache = Map.empty" "cc_next_event cache = 0" "cc_closed cache = []"
    by (cases read) (auto simp: load_from_file_def case_Inr_iff read_chunk_cache_def)
  with linked_hash_map.read_chunk_cache_safe [OF assms(1-3), of libs bs] show ?thesis by simp
qed

lemma run_client_writer:
  assumes "StartWriter path secs \<in> set (fst (run_client w server args))"
  shows "cache_path_of w args = Inr path \<and> secs = ca_cache_save_interval args
     \<and> cw_connect w server ''localhost'' = Inr () \<and> context_QUIC (cw_connected w) = Inr ()
     \<and> cw_bind w \<lparr>sa_ip = ca_host args, sa_port = ca_port args\<rparr> = Inr ()
     \<and> (\<exists>cache. open_cache (cw_lhm w) (cw_libs w) (cw_zstd w) (ca_cache_limit args)
          (map_sum id (\<lambda>_. ()) (cw_metadata w path)) (cw_cache_contents w path) = Inr cache)"
  using assms
  by (auto simp: run_client_def Let_def run_sets client_cache_def serve_peers_def split: if_splits)

lemma main_client_writer:
  "e \<in> set (fst (main offset logger tls w sw ctrl_c idle (Client args))) \<Longrightarrow> e = StartWriter path secs \<Longrightarrow>
    \<exists>server. e \<in> set (fst (run_client w server args))"
  by (auto simp: main_def subcommand_client_def shut_down_def look_up_def Let_def run_sets dest!: or_ctrl_c_effects)

section \<open>Properties\<close>

text \<open>
  C18. A cache file that fails to load is never saved over. Whenever the client program starts
  the task that saves the cache, for whatever arguments and however the rest of its run goes, it
  has connected to the server, has bound its socket, and has opened the cache at that same
  path: \<open>exists\<close> was false for it, or loading it succeeded. The cache it opened is well formed,
  with its entries filed under their hashes and nothing pending.
\<close>

theorem writer_needs_opened_cache:
  assumes "linked_hash_map (cw_lhm w)" and "zstd_ok (cw_zstd w)" and "unat (ca_cache_limit args) + 20000000 < 2 ^ 64"
    and "StartWriter path secs \<in> set (fst (main offset logger tls w sw ctrl_c idle (Client args)))"
  shows "cache_path_of w args = Inr path \<and> secs = ca_cache_save_interval args
     \<and> (\<exists>server. cw_connect w server ''localhost'' = Inr ()) \<and> context_QUIC (cw_connected w) = Inr ()
     \<and> cw_bind w \<lparr>sa_ip = ca_host args, sa_port = ca_port args\<rparr> = Inr ()
     \<and> (\<exists>cache. open_cache (cw_lhm w) (cw_libs w) (cw_zstd w) (ca_cache_limit args)
            (map_sum id (\<lambda>_. ()) (cw_metadata w path)) (cw_cache_contents w path) = Inr cache
          \<and> raw_ok (cw_lhm w) (cc_raw_cache cache)
          \<and> valid_entries (cw_libs w) (cached (cw_lhm w) (cc_raw_cache cache))
          \<and> cc_pending_chunks cache = Map.empty)"
proof -
  from main_client_writer [OF assms(4) refl] show ?thesis
    using run_client_writer open_cache_ok [OF assms(1-3)] by blast
qed









text \<open>
  C37. One failed handshake ends the server for everyone. The server program serves the
  clients whose handshakes succeed, up to the first that fails: then the error is unwrapped, the
  program panics, no later client is accepted, and the endpoint is not closed.
\<close>

theorem failed_handshake_ends_server:
  assumes "sw_lookup_host w (sv_factorio_address args) = Inr (factorio_address # more_addresses)"
    and "make_server_config tls = Inr config"
    and "sw_endpoint_server w \<lparr>sa_ip = sv_host args, sa_port = sv_port args\<rparr> = Inr ()"
    and "sw_accepted w = map (Some \<circ> Inr) connections @ Some (Inl (Error err)) # later"
  shows "subcommand_server tls w None idle args
     = ([LookupHost (sv_factorio_address args), EndpointServer \<lparr>sa_ip = sv_host args, sa_port = sv_port args\<rparr>,
         Info ''Started''] @ map (\<lambda>connection. SpawnServerProxy connection factorio_address) connections,
        Some (Inl (Panic (''called `Result::unwrap()` on an `Err` value: '' @ err))))"
  using assms(1-3) failed_handshake_stops_server [of connections "Error err" later]
  by (simp add: subcommand_server_def look_up_def and_then_def act_def fails_or_def or_ctrl_c_def accept_clients_def
      assms(4) unwrap_def expect_def)

section \<open>An example\<close>

definition example_tls :: "(unit, unit, unit, unit) Tls" where
  "example_tls =
     \<lparr>root_cert_data = [], end_cert_data = [], end_private_key_data = [], cert_from_pem = (\<lambda>_. Inr ()),
      key_from_pem = (\<lambda>_. Inr ()), store_empty = (), store_add = (\<lambda>_ _. Inr ()),
      with_root_certificates = (\<lambda>_. Inr ()), with_single_cert = (\<lambda>_ _. Inr ()), idle_timeout_try_from = Inr,
      transport_default = \<lparr>tc_max_idle_timeout = Some 30000, tc_keep_alive_interval = None\<rparr>\<rparr>"

definition example_address :: SocketAddr where
  "example_address = \<lparr>sa_ip = V4 [127, 0, 0, 1], sa_port = 60130\<rparr>"

definition example_client_world :: "(entries, Channel) ClientWorld" where
  "example_client_world =
     \<lparr>cw_lookup_host = (\<lambda>_. Inr [example_address]), cw_endpoint_client = (\<lambda>_. Inr ()), cw_path_absolute = Inr,
      cw_connect = (\<lambda>_ _. Inr ()), cw_connected = Inr (), cw_bind = (\<lambda>_. Inr ()),
      cw_metadata = (\<lambda>_. Inl (Error ''not found'')), cw_cache_contents = (\<lambda>_. None), cw_lhm = list_map,
      cw_libs = example_libs, cw_zstd = plain_zstd, cw_varint = rfc9000_varint, cw_mpsc = queue_mpsc,
      cw_proxy_events = []\<rparr>"

definition example_server_world :: "nat ServerWorld" where
  "example_server_world =
     \<lparr>sw_lookup_host = (\<lambda>_. Inr [example_address]), sw_endpoint_server = (\<lambda>_. Inr ()),
      sw_accepted = [Some (Inr 1), Some (Inl (Error ''timed out'')), Some (Inr 2)]\<rparr>"

lemma example_writer_started:
  "StartWriter ''persistent-cache'' 60 \<in> set (fst (main (Inr ()) (Inr ()) example_tls example_client_world
     example_server_world None True (Client (ClientArgs_default ''localhost:60130''))))"
  by (simp add: main_def setup_logging_def subcommand_client_def run_client_def client_cache_def look_up_def
      make_client_config_def cache_path_of_def context_QUIC_def open_cache_def example_tls_def example_client_world_def
      ClientArgs_default_def run_sets Let_def or_ctrl_c_def case_prod_unfold)

theorem writer_needs_opened_cache_witness:
  "cache_path_of example_client_world (ClientArgs_default ''localhost:60130'') = Inr ''persistent-cache''
   \<and> (\<exists>cache. open_cache list_map example_libs plain_zstd 500000000 (Inl (Error ''not found'')) None = Inr cache
        \<and> raw_ok list_map (cc_raw_cache cache))"
proof -
  have world: "cw_lhm example_client_world = list_map" "cw_libs example_client_world = example_libs"
    "cw_zstd example_client_world = plain_zstd" "cw_cache_contents example_client_world p = None"
    "cw_metadata example_client_world p = Inl (Error ''not found'')"
    "ca_cache_limit (ClientArgs_default a) = 500000000" for p a
    by (simp_all add: example_client_world_def ClientArgs_default_def)
  have "unat (500000000 :: u64) + 20000000 < 2 ^ 64" by simp
  from writer_needs_opened_cache [of example_client_world "ClientArgs_default ''localhost:60130''", unfolded world, OF list_map.linked_hash_map_axioms plain_zstd_ok
      this example_writer_started] show ?thesis by auto
qed

theorem failed_handshake_ends_server_witness:
  "\<exists>effects msg. subcommand_server example_tls example_server_world None True (ServerArgs_default ''localhost:34197'')
       = (effects, Some (Inl (Panic msg)))
     \<and> SpawnServerProxy 1 example_address \<in> set effects \<and> SpawnServerProxy 2 example_address \<notin> set effects"
proof -
  have "make_server_config example_tls = Inr \<lparr>qc_crypto = (), qc_transport_config =
      \<lparr>tc_max_idle_timeout = Some 60000, tc_keep_alive_interval = None\<rparr>\<rparr>"
    by (simp add: make_server_config_def example_tls_def QUIC_IDLE_TIMEOUT_def)
  from failed_handshake_ends_server [OF _ this, of example_server_world "ServerArgs_default ''localhost:34197''"
      example_address "[]" "[1]" "''timed out''" "[Some (Inr 2)]" True]
  show ?thesis by (simp add: example_server_world_def)
qed

end
