(* ===== verification/Spec2Isabelle.thy ===== *)
theory Spec2Isabelle
  imports Server_Download Client_Blocks Served_Transfers Cache_Lock Main_Program
begin

text \<open>
  A verification of Factorio Cacher, the pair of proxies under \<open>src/src\<close> that speed up the world
  download of Factorio multiplayer games.

  \<^bold>\<open>The program.\<close> A server-side proxy sits beside the game server, a client-side proxy beside
  the game client; a QUIC connection joins them. Game packets travel as datagrams tagged with
  the id of a peer. When the game server announces a world, the server-side proxy downloads
  it over the game protocol, takes the archive apart into content-defined chunks and sends a
  description; the client-side proxy asks for the chunks its cache does not have, rebuilds an
  archive with the same files, pads it to the announced size, forges its CRC, and answers the
  block requests of the game from it.

  \<^bold>\<open>The theories\<close>, each over the ones before it:

  \<^item> \<open>Prelude\<close>: faults (\<open>Panic\<close> for panics, failed assertions and \<open>unwrap\<close>s, \<open>Error\<close> for \<open>Err\<close>
    values, \<open>OutOfFuel\<close>), results as \<open>fault + 'a\<close>, little-endian integers, buffers.
  \<^item> \<open>Rolling_Chunker\<close> (\<open>chunker.rs\<close>): the rolling hash with its circular window, and the
    iterator that cuts chunks. The hash is the polynomial of the last 32 bytes; its unchecked
    window accesses are in range; the chunks are a partition within the size bounds; cuts are
    where the source says, with a hash that starts anew after the first 512 bytes of a chunk;
    common tails give common chunks.
  \<^item> \<open>Reverse_CRC\<close> (\<open>rev_crc.rs\<close>): the reverse table, the reverse digest and \<open>forge_crc\<close>, for any
    table-driven CRC that behaves like the \<open>crc\<close> crate's (locale \<open>crc_crate\<close>, interpreted for
    CRC-32/ISO-HDLC). The four forged bytes hit the target.
  \<^item> \<open>Factorio_Protocol\<close> (\<open>factorio_protocol.rs\<close>, the varint of \<open>utils.rs\<close>): packet headers, block
    requests, blocks, heartbeats, world metadata; round trips, and what counts as an
    announcement.
  \<^item> \<open>Zip_Writer\<close> (\<open>zip_writer.rs\<close>): local headers and the central directory at their machine
    widths; an independent reader of the ZIP format reads the archives back.
  \<^item> \<open>World_Dedup\<close> (\<open>dedup.rs\<close>): \<open>deconstruct_world\<close>, \<open>chunk_file\<close>, \<open>WorldReconstructor\<close>. A world
    that is taken apart and rebuilt has the same files, the announced size and CRC.
  \<^item> \<open>Peer_Protocol\<close> (\<open>protocol.rs\<close>): datagrams (locale \<open>varint_codec\<close>, interpreted for RFC 9000)
    and framed, compressed messages.
  \<^item> \<open>File_Paths\<close>: \<open>Path::with_extension\<close> and a file system, for the cache file.
  \<^item> \<open>Chunk_Cache\<close>, \<open>Cache_Sharing\<close> (\<open>chunk_cache.rs\<close>): the bounded cache over a linked hash map
    (locale \<open>linked_hash_map\<close>, interpreted for lists), the batches handed out, the cache file;
    then the tasks that share it, as the step relation \<open>cache_step\<close> in which each locked
    region is one step, with the invariant \<open>sys_ok\<close>. Insertion refines an abstract bounded
    list; no chunk is fetched twice; who waits is released; a dropped batch blocks its chunks.
    A save replaces the cache file whole or not at all, unless the file is its own temporary file.
  \<^item> \<open>Cache_Lock\<close> (\<open>chunk_cache.rs\<close>): the operations under their mutex, with its poisoning: when a
    chunk that is waited for has been evicted, no operation on the cache works any more.
  \<^item> \<open>Proxy_Common\<close> (\<open>proxy/mod.rs\<close>), \<open>Server_Proxy\<close>, \<open>Server_Download\<close> (\<open>proxy/server_proxy.rs\<close>): the
    state machine of a peer, the request loop (it ends, by a \<open>termination\<close> proof on the
    length of the stream), the connection loop. Substring search is the locale \<open>memmem\<close>,
    interpreted for a naive search. Over runs of packets the machine never panics, asks for
    every block, and hands over the world that was sent.
  \<^item> \<open>Client_Proxy\<close>, \<open>Client_Blocks\<close>, \<open>Client_Transfer\<close> (\<open>proxy/client_proxy.rs\<close>): the answers to the
    block requests of the game; the task \<open>transfer_world_data\<close> cut at its awaits
    (\<open>TransferPhase\<close>), against arbitrary streams and caches changed by others
    (\<open>transfer_step\<close>). It returns after a bounded number of steps, its panic is out of reach,
    and what it hands over is the announced world.
  \<^item> \<open>Peer_Routing\<close>: the connection loops of both proxies; peer ids are fresh and agree, and a packet
    is offered to the queue of its peer (locale \<open>bounded_channel\<close> of \<open>Proxy_Common\<close>, interpreted for
    a bounded list), where it is queued or, if the queue is full or closed, dropped.
  \<^item> \<open>World_Transfer\<close>: both tasks of a transfer together (\<open>session\<close>); the world gets across.
  \<^item> \<open>Shared_Transfers\<close>: the transfers of all peers over one cache, new or loaded, with the writer
    (\<open>task_step\<close>, \<open>shared_step\<close>). They refine \<open>cache_step\<close>, so what \<open>transfer_step\<close> assumes of
    the cache is proved; each task delivers its world in every interleaving; together they
    make a bounded number of steps and do not block each other unless one has failed.
  \<^item> \<open>Served_Transfers\<close>: the same against servers that answer, with a cache that has room: no task
    fails, and every peer gets its world.
  \<^item> \<open>Startup\<close> (\<open>main.rs\<close>, \<open>start_writer\<close>): the cache over restarts, the accept loop.
  \<^item> \<open>Number_Format\<close> (\<open>abbreviate_number\<close> of \<open>utils.rs\<close>): the numbers in log lines, with the double
    arithmetic behind them; they are accurate up to rounding.
  \<^item> \<open>Main_Program\<close> (\<open>main.rs\<close>, \<open>quic.rs\<close>): both programs as traces of their actions, with every
    error and panic: in which order the client starts its parts, and how the programs end.
  \<^item> This theory: what a successful transfer means for the block requests of the game, and the
    way of a world from the packets of the game server to the blocks the game gets.

  \<^bold>\<open>How the model corresponds to the code.\<close> A struct is a record with prefixed field names, an
  enum a datatype, a method a function that takes \<open>self\<close> and returns it updated; a loop is a
  function of its own, named after it. Machine integers are words where the code computes with
  them (the program is built in release mode, so \<open>+\<close> and \<open>*\<close> wrap around); \<open>usize\<close> values that
  measure buffers are naturals. An asynchronous loop with \<open>select!\<close> is a step function from a
  state and an event (what a branch received, at what time) to the next state and the actions
  (packets sent); \<open>None\<close> as the next state is the return of the task. Third-party code is a
  parameter: BLAKE3, zlib and the ZIP reader (\<open>Libs\<close>), zstd and MessagePack (\<open>MessageLibs\<close>,
  \<open>Zstd\<close>), the CRC (\<open>Crc\<close>), the channels (\<open>Mpsc\<close>), streams (\<open>write_all\<close>), the finder. What the
  properties rely on is a locale or a named hypothesis (\<open>message_libs_ok\<close>, \<open>zstd_ok\<close>, an
  injective hash on the chunks in play); every property with a hypothesis has a witness with
  concrete instances.

  \<^bold>\<open>Bounds and fuel.\<close> The eviction loop of the cache runs on fuel one more than the number of
  entries, which is proved to be enough. \<open>session\<close> runs on fuel; twice the number of chunks and
  one more is proved to be enough. All other recursion is structural or has a measure.

  \<^bold>\<open>Not modelled.\<close> What the argument parser, the operating system, QUIC and TLS do: their results
  are parameters, and so are the embedded certificates. Outside \<open>main.rs\<close>, log lines and the
  counters that only feed them are left out. Real time is a number of milliseconds that
  comes with an event; timeouts are events, so \<open>UDP_PEER_IDLE_TIMEOUT\<close> does not occur. In the
  step relations over the cache a task that panics only ends; the poisoning of the lock is in
  \<open>Cache_Lock\<close> alone. A batch is fulfilled and its event closed in one step, where the code
  closes the event after it has released the lock. A read from a QUIC stream fails only by its
  end. When sending to the channel of the world data fails, the task returns the error, and
  what it sent in that round is not recorded. Paths are Unix paths, and different paths are
  different files: there are no links.
\<close>

section \<open>From the transfer to the game\<close>






section \<open>From one game to the other\<close>






text \<open>The cache that \<open>run_client\<close> opens is one that the transfers of \<open>Shared_Transfers\<close> can start with.\<close>

lemma opened_client_ok:
  assumes "linked_hash_map (env_lhm env)" and "zstd_ok zstd" and "unat limit \<le> 2 ^ 63" and "vecs_ok env"
    and "open_cache (env_lhm env) (env_libs env) zstd limit metadata contents = Inr cache"
  shows "client_ok env cache"
proof -
  have "unat limit + 20000000 < 2 ^ 64" using assms(3) by simp
  from open_cache_ok [OF assms(1,2) this assms(5)] assms(1,3,4) show ?thesis by (simp add: client_ok_def)
qed



end
